(* ===== verification/Prelude.thy ===== *)
theory Prelude
  imports Main "HOL-Library.Word"
begin

unbundle bit_operations_syntax

text \<open>
  Shared vocabulary of the development: the machine integer types of the kernel
  (\<open>uint8_t\<close> to \<open>uint64_t\<close>, with \<open>size_t\<close>, \<open>uintptr_t\<close> and pointers all 64 bits wide),
  the two shapes of counting loop the sources use, and the arithmetic that moves
  between 64-bit words and natural numbers.

  \<^item> \<open>for_loop i n f s\<close> is \<^verbatim>\<open>for (size_t k = i; k < n; k++) s = f(k, s);\<close>
  \<^item> \<open>for_ret i n f s\<close> is the same loop whose body may \<^verbatim>\<open>return\<close>: \<open>Inl r\<close> leaves the
    enclosing function with \<open>r\<close>, \<open>Inr s\<close> goes on (or falls out of the loop) with \<open>s\<close>.
\<close>

type_synonym u8 = "8 word"
type_synonym u16 = "16 word"
type_synonym u32 = "32 word"
type_synonym u64 = "64 word"

named_theorems word_nat \<open>rewrites that turn 64-bit arithmetic on images of naturals into natural arithmetic\<close>

section \<open>Words that are images of natural numbers\<close>

lemma unat_of_nat64 [simp]: "n < 2 ^ 64 \<Longrightarrow> unat (of_nat n :: u64) = n"
  by (simp add: unat_of_nat)

lemma of_nat64_eq_iff [word_nat]:
  "a < 2 ^ 64 \<Longrightarrow> b < 2 ^ 64 \<Longrightarrow> (of_nat a = (of_nat b :: u64)) = (a = b)"
  by (metis unat_of_nat64)

lemma of_nat64_less_iff [word_nat]:
  "a < 2 ^ 64 \<Longrightarrow> b < 2 ^ 64 \<Longrightarrow> (of_nat a < (of_nat b :: u64)) = (a < b)"
  by (simp add: word_less_nat_alt)

lemma of_nat64_le_iff [word_nat]:
  "a < 2 ^ 64 \<Longrightarrow> b < 2 ^ 64 \<Longrightarrow> (of_nat a \<le> (of_nat b :: u64)) = (a \<le> b)"
  by (simp add: word_le_nat_alt)

lemma of_nat64_add [word_nat]: "of_nat a + of_nat b = (of_nat (a + b) :: u64)"
  by simp

lemma of_nat64_add_numeral [word_nat]:
  "of_nat a + numeral k = (of_nat (a + numeral k) :: u64)"
  "numeral k + of_nat a = (of_nat (numeral k + a) :: u64)"
  "of_nat a + 1 = (of_nat (a + 1) :: u64)"
  by simp_all

lemma of_nat64_sub [word_nat]: "b \<le> a \<Longrightarrow> of_nat a - of_nat b = (of_nat (a - b) :: u64)"
  by (simp add: of_nat_diff)

lemma of_nat64_sub_numeral [word_nat]:
  "numeral k \<le> a \<Longrightarrow> of_nat a - numeral k = (of_nat (a - numeral k) :: u64)"
  by (simp add: of_nat_diff)

lemma of_nat64_less_numeral [word_nat]:
  "a < 2 ^ 64 \<Longrightarrow> numeral k < (2 :: nat) ^ 64 \<Longrightarrow> (of_nat a < (numeral k :: u64)) = (a < numeral k)"
  "a < 2 ^ 64 \<Longrightarrow> numeral k < (2 :: nat) ^ 64 \<Longrightarrow> ((numeral k :: u64) \<le> of_nat a) = (numeral k \<le> a)"
  using of_nat64_less_iff [of a "numeral k"] of_nat64_le_iff [of "numeral k" a] by simp_all

lemma of_nat64_eq_0_iff [word_nat]: "a < 2 ^ 64 \<Longrightarrow> (of_nat a = (0 :: u64)) = (a = 0)"
  using of_nat64_eq_iff [of a 0] by simp

lemma word64_cases:
  fixes w :: u64
  obtains n where "w = of_nat n" "n < 2 ^ 64"
proof
  show "w = of_nat (unat w)" by simp
  show "unat w < 2 ^ 64" using unsigned_less [of w] by simp
qed

lemma unat_less_2p64: "unat (w :: u64) < 2 ^ 64"
  using unsigned_less [of w] by simp

lemma unat_div8: "unat (w div 8 :: u64) = unat w div 8"
  by (simp add: unat_div)

lemma unat_mod8: "unat (w mod 8 :: u64) = unat w mod 8"
  by (simp add: unat_mod)

lemma unat_Suc_less: "(i :: u64) < n \<Longrightarrow> unat (i + 1) = Suc (unat i)"
  using unat_less_2p64 [of n] by (simp add: word_less_nat_alt unat_word_ariths)

lemma unat_add_of_nat: "unat (w :: u64) + i < 2 ^ 64 \<Longrightarrow> unat (w + of_nat i) = unat w + i"
proof -
  assume "unat w + i < 2 ^ 64"
  moreover have "unat (of_nat i :: u64) = i" using calculation by simp
  ultimately show ?thesis by (simp add: unat_word_ariths)
qed

lemma unat_minus64: "x \<noteq> 0 \<Longrightarrow> unat (- x :: u64) = 2 ^ 64 - unat x"
  using unat_sub_if_size [of 0 x] by (simp add: word_size unat_gt_0)

lemma and_exp_neq_0: "k < LENGTH('a) \<Longrightarrow> (w AND 2 ^ k \<noteq> (0 :: 'a::len word)) = bit w k"
proof
  assume k: "k < LENGTH('a)"
  show "bit w k \<Longrightarrow> w AND 2 ^ k \<noteq> 0"
    using k by (auto dest!: arg_cong [where f = "\<lambda>x. bit x k"] simp: bit_simps)
  assume "w AND 2 ^ k \<noteq> 0"
  then obtain n where "bit (w AND 2 ^ k) n" by (metis bit_eq_iff bit_0_eq bot_apply bot_bool_def)
  then show "bit w k" by (auto simp: bit_and_iff bit_exp_iff)
qed

lemma bit_exp64: "k < 64 \<Longrightarrow> bit ((2 :: u64) ^ k) i = (i = k)"
  by (auto simp: bit_exp_iff)

lemma and_not_mask_eq: "w AND NOT (mask n) = push_bit n (drop_bit n (w :: 'a::len word))"
  by (rule bit_word_eqI) (auto simp: bit_and_iff bit_not_iff bit_mask_iff bit_push_bit_iff bit_drop_bit_eq not_less)

section \<open>Counting loops\<close>

function for_loop :: "u64 \<Rightarrow> u64 \<Rightarrow> (u64 \<Rightarrow> 's \<Rightarrow> 's) \<Rightarrow> 's \<Rightarrow> 's" where
  "for_loop i n f s = (if i < n then for_loop (i + 1) n f (f i s) else s)"
  by pat_completeness auto
termination
  by (relation "measure (\<lambda>(i, n, f, s). unat n - unat i)")
     (auto simp: unat_Suc_less word_less_nat_alt)

function for_ret :: "u64 \<Rightarrow> u64 \<Rightarrow> (u64 \<Rightarrow> 's \<Rightarrow> 'r + 's) \<Rightarrow> 's \<Rightarrow> 'r + 's" where
  "for_ret i n f s =
     (if i < n then (case f i s of Inl r \<Rightarrow> Inl r | Inr s' \<Rightarrow> for_ret (i + 1) n f s') else Inr s)"
  by pat_completeness auto
termination
  by (relation "measure (\<lambda>(i, n, f, s). unat n - unat i)")
     (auto simp: unat_Suc_less word_less_nat_alt)

declare for_loop.simps [simp del] for_ret.simps [simp del]

text \<open>A counting loop folds its body over the indices in ascending order.\<close>

lemma for_loop_fold: "for_loop i n f s = fold (\<lambda>k. f (of_nat k)) [unat i..<unat n] s"
proof (induction i n f s rule: for_loop.induct)
  case (1 i n f s)
  show ?case
  proof (cases "i < n")
    case True
    then have "[unat i..<unat n] = unat i # [Suc (unat i)..<unat n]"
      by (simp add: upt_conv_Cons word_less_nat_alt)
    with True 1 show ?thesis
      by (simp add: for_loop.simps [of i n] unat_Suc_less)
  next
    case False
    then show ?thesis by (simp add: for_loop.simps [of i n] word_less_nat_alt)
  qed
qed

text \<open>Invariant rules: the invariant is indexed by the number the loop has reached.\<close>

lemma for_loop_inv:
  assumes start: "I (unat i) s" and le: "unat i \<le> unat n"
    and step: "\<And>k s. unat i \<le> k \<Longrightarrow> k < unat n \<Longrightarrow> I k s \<Longrightarrow> I (Suc k) (f (of_nat k) s)"
  shows "I (unat n) (for_loop i n f s)"
  using assms
proof (induction i n f s rule: for_loop.induct)
  case (1 i n f s)
  show ?case
  proof (cases "i < n")
    case True
    then have "I (unat (i + 1)) (f i s)"
      using "1.prems"(3) [of "unat i" s] "1.prems"(1) by (simp add: unat_Suc_less word_less_nat_alt)
    moreover have "unat (i + 1) \<le> unat n"
      using True by (simp add: unat_Suc_less word_less_nat_alt)
    ultimately have "I (unat n) (for_loop (i + 1) n f (f i s))"
      using "1.IH" [OF True] "1.prems"(3) True by (simp add: unat_Suc_less)
    with True show ?thesis by (simp add: for_loop.simps [of i n])
  next
    case False
    with "1.prems" have "unat i = unat n" by (simp add: word_less_nat_alt)
    with False "1.prems"(1) show ?thesis by (simp add: for_loop.simps [of i n])
  qed
qed

lemma for_ret_inv:
  assumes start: "I (unat i) s" and le: "unat i \<le> unat n"
    and step: "\<And>k s. unat i \<le> k \<Longrightarrow> k < unat n \<Longrightarrow> I k s \<Longrightarrow>
      (case f (of_nat k) s of Inl r \<Rightarrow> R r | Inr s' \<Rightarrow> I (Suc k) s')"
  shows "case for_ret i n f s of Inl r \<Rightarrow> R r | Inr s' \<Rightarrow> I (unat n) s'"
  using assms
proof (induction i n f s rule: for_ret.induct)
  case (1 i n f s)
  show ?case
  proof (cases "i < n")
    case True
    have st: "case f i s of Inl r \<Rightarrow> R r | Inr s' \<Rightarrow> I (Suc (unat i)) s'"
      using "1.prems"(3) [of "unat i" s] "1.prems"(1) True by (simp add: word_less_nat_alt)
    show ?thesis
    proof (cases "f i s")
      case (Inl r)
      with st True show ?thesis by (simp add: for_ret.simps [of i n])
    next
      case (Inr s')
      with st have "I (unat (i + 1)) s'" using True by (simp add: unat_Suc_less)
      moreover have "unat (i + 1) \<le> unat n"
        using True by (simp add: unat_Suc_less word_less_nat_alt)
      ultimately show ?thesis
        using "1.IH" [OF True Inr] "1.prems"(3) True Inr
        by (simp add: for_ret.simps [of i n] unat_Suc_less)
    qed
  next
    case False
    with "1.prems" have "unat i = unat n" by (simp add: word_less_nat_alt)
    with False "1.prems"(1) show ?thesis by (simp add: for_ret.simps [of i n])
  qed
qed

lemma for_loop_empty [simp]: "\<not> i < n \<Longrightarrow> for_loop i n f s = s"
  by (simp add: for_loop.simps)

text \<open>A loop that returns the first index with a property.\<close>

lemma for_ret_first:
  assumes "unat i \<le> unat n"
  shows "case for_ret i n (\<lambda>i s. if P i then Inl i else Inr s) s of
    Inl r \<Rightarrow> \<exists>k. unat i \<le> k \<and> k < unat n \<and> r = of_nat k \<and> P r \<and> (\<forall>j. unat i \<le> j \<and> j < k \<longrightarrow> \<not> P (of_nat j))
  | Inr s' \<Rightarrow> \<forall>j. unat i \<le> j \<and> j < unat n \<longrightarrow> \<not> P (of_nat j)"
  by (rule for_ret_inv [where I = "\<lambda>k s. \<forall>j. unat i \<le> j \<and> j < k \<longrightarrow> \<not> P (of_nat j)"])
    (use assms in \<open>auto simp: less_Suc_eq\<close>)

end
