(* ===== verification/Memory.thy ===== *)
theory Memory
  imports Prelude
begin

unbundle bit_operations_syntax

text \<open>
  The address space of the kernel and the memory routines of \<^verbatim>\<open>libs/klibc.cpp\<close>.

  Memory is a total map from 64-bit addresses to bytes. A \<^verbatim>\<open>size_t\<close> or pointer field at
  address \<open>a\<close> is the little-endian word of the eight bytes from \<open>a\<close> (\<open>rd64\<close>, \<open>wr64\<close>).
  Address arithmetic wraps at \<open>2 ^ 64\<close>, as pointer arithmetic on x86-64 does. An access to an
  unmapped page is not a separate outcome of the model: what the kernel's own data structures
  touch is bounded by the invariants proved about them.

  The routines \<open>memcpy\<close>, \<open>memset\<close> and \<open>memmove\<close> return their first argument in the source;
  here they return the memory they leave behind.

  \<open>cells m\<close> views the memory as an array of aligned 64-bit cells: cell \<open>k\<close> holds the eight
  bytes from address \<open>8 * k\<close>. Aligned stores are point updates of it (\<open>cells_wr64\<close>), so the
  allocator proofs reason about a plain function.
\<close>

type_synonym mem = "u64 \<Rightarrow> u8"

definition rd64 :: "mem \<Rightarrow> u64 \<Rightarrow> u64" where
  "rd64 m a = foldr (\<lambda>i acc. push_bit (8 * i) (ucast (m (a + of_nat i))) OR acc) [0..<8] 0"

definition wr64 :: "mem \<Rightarrow> u64 \<Rightarrow> u64 \<Rightarrow> mem" where
  "wr64 m a v = (\<lambda>x. if x - a < 8 then ucast (drop_bit (8 * unat (x - a)) v) else m x)"

section \<open>The routines of klibc\<close>

definition memcpy :: "mem \<Rightarrow> u64 \<Rightarrow> u64 \<Rightarrow> u64 \<Rightarrow> mem" where
  "memcpy m dest src n = for_loop 0 n (\<lambda>i m. m(dest + i := m (src + i))) m"

definition memset :: "mem \<Rightarrow> u64 \<Rightarrow> u32 \<Rightarrow> u64 \<Rightarrow> mem" where
  "memset m s c n = for_loop 0 n (\<lambda>i m. m(s + i := ucast c)) m"

function memmove_down :: "mem \<Rightarrow> u64 \<Rightarrow> u64 \<Rightarrow> u64 \<Rightarrow> mem" where
  "memmove_down m dest src i =
     (if i > 0 then memmove_down (m(dest + (i - 1) := m (src + (i - 1)))) dest src (i - 1) else m)"
  by pat_completeness auto
termination
  by (relation "measure (\<lambda>(m, dest, src, i). unat i)") (auto simp: measure_unat)

definition memmove :: "mem \<Rightarrow> u64 \<Rightarrow> u64 \<Rightarrow> u64 \<Rightarrow> mem" where
  "memmove m dest src n =
     (if src > dest then for_loop 0 n (\<lambda>i m. m(dest + i := m (src + i))) m
      else if src < dest then memmove_down m dest src n
      else m)"

definition memcmp :: "mem \<Rightarrow> u64 \<Rightarrow> u64 \<Rightarrow> u64 \<Rightarrow> int" where
  "memcmp m s1 s2 n =
     (case for_ret 0 n (\<lambda>i s. if m (s1 + i) \<noteq> m (s2 + i)
                              then Inl (if m (s1 + i) < m (s2 + i) then -1 else 1) else Inr s) ()
      of Inl r \<Rightarrow> r | Inr _ \<Rightarrow> 0)"

function strnlen_loop :: "mem \<Rightarrow> u64 \<Rightarrow> u64 \<Rightarrow> u64" where
  "strnlen_loop m es maxlen =
     (if m es \<noteq> 0 \<and> maxlen \<noteq> 0 then strnlen_loop m (es + 1) (maxlen - 1) else es)"
  by pat_completeness auto
termination
  by (relation "measure (\<lambda>(m, es, maxlen). unat maxlen)") (auto simp: measure_unat)

definition strnlen :: "mem \<Rightarrow> u64 \<Rightarrow> u64 \<Rightarrow> u64" where
  "strnlen m s maxlen = strnlen_loop m s maxlen - s"

definition strlen :: "mem \<Rightarrow> u64 \<Rightarrow> u64" where
  "strlen m s = strnlen m s 4096"

declare memmove_down.simps [simp del] strnlen_loop.simps [simp del]

section \<open>Loads and stores\<close>

lemma bit_foldr_or:
  "bit (foldr (\<lambda>i acc. push_bit (8 * i) (g i) OR acc) js (0 :: u64)) n =
     (\<exists>j\<in>set js. 8 * j \<le> n \<and> n < 64 \<and> bit (g j) (n - 8 * j))"
  by (induction js) (auto simp: bit_simps)

lemma bit_rd64:
  assumes "i < 64"
  shows "bit (rd64 m a) i = bit (m (a + of_nat (i div 8))) (i mod 8)"
proof -
  have d: "i div 8 < 8" using assms by (simp add: less_mult_imp_div_less)
  have m8: "i - 8 * (i div 8) = i mod 8" by presburger
  have bits: "bit (rd64 m a) i =
    (\<exists>j<8. 8 * j \<le> i \<and> bit (m (a + of_nat j)) (i - 8 * j))"
  proof -
    have "8 * j \<le> i \<Longrightarrow> j < 8" for j using assms by simp
    then show ?thesis
      using assms unfolding rd64_def bit_foldr_or by (fastforce simp: bit_simps)
  qed
  show ?thesis
  proof
    assume "bit (rd64 m a) i"
    then obtain j where j: "8 * j \<le> i" "bit (m (a + of_nat j)) (i - 8 * j)"
      using bits by blast
    then have "i - 8 * j < 8" using bit_imp_le_length by fastforce
    with j(1) have "i div 8 = j" by (intro div_nat_eqI) simp_all
    then have "i mod 8 = i - 8 * j" using m8 by simp
    with j \<open>i div 8 = j\<close> show "bit (m (a + of_nat (i div 8))) (i mod 8)" by simp
  next
    assume "bit (m (a + of_nat (i div 8))) (i mod 8)"
    with d m8 show "bit (rd64 m a) i" unfolding bits by (intro exI [of _ "i div 8"]) auto
  qed
qed

lemma bit_wr64:
  "j < 8 \<Longrightarrow> n < 8 \<Longrightarrow> bit (wr64 m a v (a + of_nat j)) n = bit v (8 * j + n)"
proof -
  assume j: "j < 8" and n: "n < 8"
  have "of_nat j < (8 :: u64)" using j by (simp add: of_nat64_less_numeral)
  with j n show ?thesis by (simp add: wr64_def bit_simps)
qed

lemma rd64_wr64_same [simp]: "rd64 (wr64 m a v) a = v"
proof (rule bit_word_eqI)
  fix n assume "n < LENGTH(64)"
  then have n: "n < 64" by simp
  have "n div 8 < 8" using n by (simp add: less_mult_imp_div_less)
  then show "bit (rd64 (wr64 m a v) a) n = bit v n"
    using n by (simp add: bit_rd64 bit_wr64)
qed

lemma wr64_other: "8 \<le> x - a \<Longrightarrow> wr64 m a v x = m x"
  by (simp add: wr64_def not_less [symmetric])

lemma word_window_disjoint:
  assumes "(8 :: u64) \<le> a - b" "8 \<le> b - a" "i < 8"
  shows "8 \<le> a + of_nat i - b"
proof -
  obtain d where d: "a - b = of_nat d" "d < 2 ^ 64" by (rule word64_cases)
  have ba: "b - a = - of_nat d" using d by (metis minus_diff_eq)
  have "d \<noteq> 0"
  proof
    assume "d = 0"
    with d(1) assms(1) show False by simp
  qed
  then have "unat (b - a) = 2 ^ 64 - d"
    unfolding ba using d(2) by (subst unat_minus64) (simp_all add: word_nat)
  with assms(2) have "d + 8 \<le> 2 ^ 64" by (simp add: word_le_nat_alt)
  moreover have "8 \<le> d" using assms(1) d by (simp add: word_nat)
  moreover have "a + of_nat i - b = of_nat (d + i)"
    using d(1) by (simp add: algebra_simps)
  ultimately show ?thesis using assms(3) by (simp only: word_nat)
qed

lemma rd64_wr64_other [simp]:
  assumes "8 \<le> a - b" "8 \<le> b - a"
  shows "rd64 (wr64 m b v) a = rd64 m a"
proof (rule bit_word_eqI)
  fix n assume "n < LENGTH(64)"
  then have n: "n < 64" by simp
  then have "n div 8 < 8" by (simp add: less_mult_imp_div_less)
  with n show "bit (rd64 (wr64 m b v) a) n = bit (rd64 m a) n"
    using word_window_disjoint [OF assms] by (simp add: bit_rd64 wr64_other)
qed

section \<open>Memory as an array of aligned cells\<close>

definition cells :: "mem \<Rightarrow> nat \<Rightarrow> u64" where
  "cells m k = (if k < 2 ^ 61 then rd64 m (of_nat (8 * k)) else 0)"

lemma cells_rd64: "k < 2 ^ 61 \<Longrightarrow> rd64 m (of_nat (8 * k)) = cells m k"
  by (simp add: cells_def)

lemma aligned_disjoint:
  assumes "j < 2 ^ 61" "k < 2 ^ 61" "j \<noteq> k"
  shows "(8 :: u64) \<le> of_nat (8 * j) - of_nat (8 * k)"
proof (cases "k \<le> j")
  case True
  then have "(of_nat (8 * j) :: u64) - of_nat (8 * k) = of_nat (8 * (j - k))"
    by (simp add: of_nat_diff)
  with assms True show ?thesis by (simp add: of_nat64_less_numeral del: of_nat_mult)
next
  case False
  then have "(of_nat (8 * j) :: u64) - of_nat (8 * k) = - of_nat (8 * (k - j))"
    by (simp add: of_nat_diff)
  moreover have "unat (- of_nat (8 * (k - j)) :: u64) = 2 ^ 64 - 8 * (k - j)"
    using assms False by (subst unat_minus64) (simp_all add: word_nat del: of_nat_mult)
  ultimately show ?thesis using assms False by (simp add: word_le_nat_alt del: of_nat_mult)
qed

lemma cells_wr64:
  "k < 2 ^ 61 \<Longrightarrow> cells (wr64 m (of_nat (8 * k)) v) = (cells m)(k := v)"
  by (rule ext) (simp add: cells_def aligned_disjoint del: of_nat_mult)

section \<open>What the memory routines compute\<close>

text \<open>The reference for both copy routines: \<open>n\<close> bytes from \<open>src\<close> appear at \<open>dest\<close>, all read
  from the memory before the call, and no other byte changes.\<close>

definition copy_region :: "mem \<Rightarrow> u64 \<Rightarrow> u64 \<Rightarrow> u64 \<Rightarrow> mem" where
  "copy_region m dest src n = (\<lambda>x. if x - dest < n then m (src + (x - dest)) else m x)"

lemma word_at_offset: "k < 2 ^ 64 \<Longrightarrow> (x = a + (of_nat k :: u64)) = (unat (x - a) = k)"
proof -
  assume k: "k < 2 ^ 64"
  have "(x = a + of_nat k) = (x - a = of_nat k)" by (auto simp: algebra_simps)
  also have "\<dots> = (unat (x - a) = k)" using k by (auto simp: word_unat_eq_iff)
  finally show ?thesis .
qed

lemma below_distance:
  fixes k :: nat and D :: u64
  assumes "k < 2 ^ 64" "D = 0 \<or> k < unat D"
  shows "k \<le> unat (of_nat k - D)"
proof (cases "D = 0")
  case True
  with assms show ?thesis by simp
next
  case False
  with assms have "k < unat D" by simp
  then have "unat (of_nat k - D) = k + 2 ^ 64 - unat D"
    using assms(1) by (simp add: unat_sub_if_size word_size)
  then show ?thesis using unat_less_2p64 [of D] by simp
qed

lemma upward_copy:
  assumes "dest - src = 0 \<or> n \<le> dest - src"
  shows "for_loop 0 n (\<lambda>i m. m(dest + i := m (src + i))) m = copy_region m dest src n"
proof -
  let ?I = "\<lambda>k m'. m' = (\<lambda>x. if unat (x - dest) < k then m (src + (x - dest)) else m x)"
  have "?I (unat n) (for_loop 0 n (\<lambda>i m. m(dest + i := m (src + i))) m)"
  proof (rule for_loop_inv [where I = ?I])
    fix k m' assume k: "k < unat n" and I: "?I k m'"
    have k64: "k < 2 ^ 64" using k unat_less_2p64 [of n] by simp
    have "k \<le> unat (of_nat k - (dest - src))"
      using assms k by (intro below_distance [OF k64]) (auto simp: word_le_nat_alt)
    also have "of_nat k - (dest - src) = src + of_nat k - dest" by simp
    finally have src: "m' (src + of_nat k) = m (src + of_nat k)" using I by simp
    show "?I (Suc k) (m'(dest + of_nat k := m' (src + of_nat k)))"
    proof (rule ext)
      fix x
      have at: "(x = dest + of_nat k) = (unat (x - dest) = k)" by (rule word_at_offset [OF k64])
      show "(m'(dest + of_nat k := m' (src + of_nat k))) x =
        (if unat (x - dest) < Suc k then m (src + (x - dest)) else m x)"
      proof (cases "unat (x - dest) = k")
        case True
        then have "x - dest = of_nat k" by auto
        with True at src show ?thesis by simp
      next
        case False
        with at I show ?thesis by (simp add: less_Suc_eq)
      qed
    qed
  qed simp_all
  then show ?thesis by (simp add: copy_region_def word_less_nat_alt)
qed

lemma memcpy_eq_copy_region:
  "dest - src = 0 \<or> n \<le> dest - src \<Longrightarrow> memcpy m dest src n = copy_region m dest src n"
  unfolding memcpy_def by (rule upward_copy)

lemma memset_eq:
  "memset m s c n = (\<lambda>x. if x - s < n then ucast c else m x)"
proof -
  let ?I = "\<lambda>k m'. m' = (\<lambda>x. if unat (x - s) < k then ucast c else m x)"
  have "?I (unat n) (memset m s c n)"
    unfolding memset_def
  proof (rule for_loop_inv [where I = ?I])
    fix k m' assume I: "?I k m'" and k: "k < unat n"
    then have "(x = s + of_nat k) = (unat (x - s) = k)" for x
      using unat_less_2p64 [of n] by (intro word_at_offset) simp
    with I show "?I (Suc k) (m'(s + of_nat k := ucast c))" by (auto simp: less_Suc_eq fun_eq_iff)
  qed simp_all
  then show ?thesis by (simp add: word_less_nat_alt)
qed

lemma downward_copy:
  assumes "src - dest = 0 \<or> i \<le> src - dest"
  shows "memmove_down m dest src i = copy_region m dest src i"
  using assms
proof (induction m dest src i rule: memmove_down.induct)
  case (1 m dest src i)
  show ?case
  proof (cases "i > 0")
    case False
    then have "i = 0" by (simp add: word_gt_0)
    then show ?thesis by (simp add: memmove_down.simps [of m] copy_region_def)
  next
    case True
    let ?m = "m(dest + (i - 1) := m (src + (i - 1)))"
    have lt: "(x < i) = (x < i - 1 \<or> x = i - 1)" for x
      using True by (simp add: word_less_nat_alt unat_minus_one word_unat_eq_iff) arith
    have pre: "src - dest = 0 \<or> i - 1 \<le> src - dest"
      using "1.prems" lt [of "i - 1"] by (meson less_le_trans order.strict_implies_order)
    have fresh: "?m (src + y) = m (src + y)" if "y < i - 1" for y
    proof -
      have "src + y \<noteq> dest + (i - 1)"
      proof
        assume "src + y = dest + (i - 1)"
        then have e: "src - dest = (i - 1) - y" by (simp add: algebra_simps)
        have "unat ((i - 1) - y) = unat (i - 1) - unat y"
          using that by (simp add: unat_sub word_le_nat_alt word_less_nat_alt)
        moreover have "unat (i - 1) < unat i" using True by (simp add: measure_unat)
        ultimately have "unat (src - dest) < unat i" "unat (src - dest) \<noteq> 0"
          using that e by (simp_all add: word_less_nat_alt)
        with "1.prems" show False by (auto simp: word_le_nat_alt)
      qed
      then show ?thesis by simp
    qed
    have "memmove_down m dest src i = copy_region ?m dest src (i - 1)"
      using "1.IH" [OF True pre] True by (simp add: memmove_down.simps [of m] fun_upd_def)
    also have "\<dots> = copy_region m dest src i"
    proof (rule ext)
      fix x
      have at: "(x = dest + (i - 1)) = (x - dest = i - 1)" by (auto simp: algebra_simps)
      consider "x - dest < i - 1" | "x - dest = i - 1" | "\<not> x - dest < i"
        using lt [of "x - dest"] by blast
      then show "copy_region ?m dest src (i - 1) x = copy_region m dest src i x"
      proof cases
        case 1
        then show ?thesis using fresh [OF 1] lt [of "x - dest"] by (simp add: copy_region_def)
      next
        case 2
        then show ?thesis using at lt [of "x - dest"] by (simp add: copy_region_def)
      next
        case 3
        then show ?thesis using at lt [of "x - dest"] by (simp add: copy_region_def)
      qed
    qed
    finally show ?thesis .
  qed
qed

lemma no_wrap_distance:
  fixes a b n :: u64
  assumes "a < b" "unat b + unat n \<le> 2 ^ 64"
  shows "n \<le> a - b"
proof -
  have "unat (a - b) = unat a + 2 ^ 64 - unat b"
    using assms(1) by (simp add: unat_sub_if_size word_size word_less_nat_alt)
  with assms(2) show ?thesis by (simp add: word_le_nat_alt)
qed

lemma memmove_eq_copy_region:
  assumes "unat dest + unat n \<le> 2 ^ 64" "unat src + unat n \<le> 2 ^ 64"
  shows "memmove m dest src n = copy_region m dest src n"
proof (cases dest src rule: linorder_cases)
  case less
  with assms show ?thesis by (simp add: memmove_def upward_copy no_wrap_distance)
next
  case equal
  then show ?thesis by (auto simp: memmove_def copy_region_def fun_eq_iff)
next
  case greater
  then have "\<not> dest < src" by simp
  with greater assms show ?thesis by (simp add: memmove_def downward_copy no_wrap_distance)
qed

text \<open>The copied region in terms of natural-number addresses.\<close>

lemma nat_window:
  assumes "X < 2 ^ 64" "D + N \<le> 2 ^ 64" "N < 2 ^ 64" "D < 2 ^ 64"
  shows "((of_nat X - of_nat D :: u64) < of_nat N) = (D \<le> X \<and> X < D + N)"
proof (cases "D \<le> X")
  case True
  with assms have "(of_nat X - of_nat D :: u64) = of_nat (X - D)" by (simp add: of_nat_diff)
  then have "((of_nat X - of_nat D :: u64) < of_nat N) = (X - D < N)"
    using assms by (simp only: of_nat64_less_iff)
  with True show ?thesis by auto
next
  case False
  then have "(of_nat X :: u64) < of_nat D" using assms by (simp add: of_nat64_less_iff)
  then have "(of_nat N :: u64) \<le> of_nat X - of_nat D"
    using assms by (intro no_wrap_distance) simp_all
  with False show ?thesis by (simp add: not_less [symmetric])
qed

lemma copy_region_at:
  assumes "X < 2 ^ 64" "D + N \<le> 2 ^ 64" "N < 2 ^ 64" "D < 2 ^ 64"
  shows "copy_region m (of_nat D) (of_nat S) (of_nat N) (of_nat X) =
    (if D \<le> X \<and> X < D + N then m (of_nat (S + (X - D))) else m (of_nat X))"
  unfolding copy_region_def nat_window [OF assms] by (simp add: of_nat_diff algebra_simps)

lemma rd64_cong:
  assumes "\<And>i. i < 8 \<Longrightarrow> m (a + of_nat i) = m' (b + of_nat i)"
  shows "rd64 m a = rd64 m' b"
proof (rule bit_word_eqI)
  fix n assume "n < LENGTH(64)"
  then have n: "n < 64" by simp
  then have "n div 8 < 8" by (simp add: less_mult_imp_div_less)
  with n show "bit (rd64 m a) n = bit (rd64 m' b) n" by (simp add: bit_rd64 assms)
qed

lemma cells_copy_region:
  assumes "d + n \<le> 2 ^ 61" "s + n \<le> 2 ^ 61" "n < 2 ^ 61" "d < 2 ^ 61"
  shows "cells (copy_region m (of_nat (8 * d)) (of_nat (8 * s)) (of_nat (8 * n))) =
    (\<lambda>k. if d \<le> k \<and> k < d + n then cells m (s + (k - d)) else cells m k)"
proof (rule ext)
  fix k
  let ?c = "copy_region m (of_nat (8 * d)) (of_nat (8 * s)) (of_nat (8 * n))"
  have at: "?c (of_nat (8 * k) + of_nat i) = (if d \<le> k \<and> k < d + n
    then m (of_nat (8 * (s + (k - d))) + of_nat i) else m (of_nat (8 * k) + of_nat i))"
    if "k < 2 ^ 61" "i < 8" for i
  proof -
    have "(8 * d \<le> 8 * k + i \<and> 8 * k + i < 8 * d + 8 * n) = (d \<le> k \<and> k < d + n)"
      using that by linarith
    moreover have "8 * s + (8 * k + i - 8 * d) = 8 * (s + (k - d)) + i" if "d \<le> k"
      using that by simp
    ultimately show ?thesis
      using copy_region_at [of "8 * k + i" "8 * d" "8 * n" m "8 * s"] that assms
      by (simp only: of_nat_add [symmetric]) (simp del: of_nat_add of_nat_mult)
  qed
  show "cells ?c k = (if d \<le> k \<and> k < d + n then cells m (s + (k - d)) else cells m k)"
    using assms by (auto simp: cells_def at simp del: of_nat_mult of_nat_add intro!: rd64_cong)
qed

lemma memcmp_cases:
  "(memcmp m s1 s2 n = 0 \<and> (\<forall>j < unat n. m (s1 + of_nat j) = m (s2 + of_nat j))) \<or>
   (\<exists>k < unat n. (\<forall>j < k. m (s1 + of_nat j) = m (s2 + of_nat j)) \<and>
      m (s1 + of_nat k) \<noteq> m (s2 + of_nat k) \<and>
      memcmp m s1 s2 n = (if m (s1 + of_nat k) < m (s2 + of_nat k) then -1 else 1))"
proof -
  let ?f = "\<lambda>i s. if m (s1 + i) \<noteq> m (s2 + i)
    then Inl (if m (s1 + i) < m (s2 + i) then -1 else 1) else Inr s"
  let ?R = "\<lambda>r. \<exists>k < unat n. (\<forall>j < k. m (s1 + of_nat j) = m (s2 + of_nat j)) \<and>
      m (s1 + of_nat k) \<noteq> m (s2 + of_nat k) \<and>
      r = (if m (s1 + of_nat k) < m (s2 + of_nat k) then -1 else (1 :: int))"
  let ?I = "\<lambda>k (s :: unit). \<forall>j < k. m (s1 + of_nat j) = m (s2 + of_nat j)"
  have "case for_ret 0 n ?f () of Inl r \<Rightarrow> ?R r | Inr s \<Rightarrow> ?I (unat n) s"
    by (rule for_ret_inv [where I = ?I and R = ?R]) (auto simp: less_Suc_eq)
  then show ?thesis unfolding memcmp_def by (auto split: sum.splits)
qed

lemma memcmp_zero_iff:
  "memcmp m s1 s2 n = 0 \<longleftrightarrow> (\<forall>j < unat n. m (s1 + of_nat j) = m (s2 + of_nat j))"
  using memcmp_cases [of m s1 s2 n] by (auto split: if_splits)

text \<open>\<open>strnlen\<close> returns the index of the first zero byte, or the limit.\<close>

definition scan_len :: "mem \<Rightarrow> u64 \<Rightarrow> nat \<Rightarrow> nat \<Rightarrow> bool" where
  "scan_len m s lim k \<longleftrightarrow> k \<le> lim \<and> (\<forall>j<k. m (s + of_nat j) \<noteq> 0) \<and> (k = lim \<or> m (s + of_nat k) = 0)"

lemma strnlen_loop_scan: "scan_len m s (unat lim) (unat (strnlen_loop m s lim - s))"
proof (induction m s lim rule: strnlen_loop.induct)
  case (1 m s lim)
  show ?case
  proof (cases "m s \<noteq> 0 \<and> lim \<noteq> 0")
    case False
    then show ?thesis by (auto simp: strnlen_loop.simps [of m s] scan_len_def)
  next
    case True
    define k where "k = unat (strnlen_loop m (s + 1) (lim - 1) - (s + 1))"
    have IH: "scan_len m (s + 1) (unat (lim - 1)) k" unfolding k_def using "1.IH" True by simp
    have lim: "unat lim = Suc (unat (lim - 1))"
      using True by (simp add: unat_minus_one unat_gt_0)
    have klt: "Suc k < 2 ^ 64"
      using IH lim unat_less_2p64 [of lim] by (simp add: scan_len_def)
    have "strnlen_loop m (s + 1) (lim - 1) - s = of_nat (Suc k)"
      unfolding k_def by (simp add: algebra_simps)
    then have "unat (strnlen_loop m s lim - s) = Suc k"
      using True klt by (simp add: strnlen_loop.simps [of m s] del: of_nat_Suc)
    moreover have "scan_len m s (unat lim) (Suc k)"
    proof -
      have "m (s + of_nat j) \<noteq> 0" if "j < Suc k" for j
        using that True IH by (cases j) (auto simp: scan_len_def algebra_simps)
      then show ?thesis using IH lim by (auto simp: scan_len_def algebra_simps)
    qed
    ultimately show ?thesis by simp
  qed
qed

section \<open>Properties\<close>

text \<open>C24: \<open>memmove\<close> copies correctly whatever the overlap of the two regions: each of the \<open>n\<close> bytes at
  \<open>dest\<close> becomes the byte that was at the same offset from \<open>src\<close> before the call, and nothing else changes.
  Neither region may wrap around the end of the address space.\<close>

theorem memmove_copies:
  assumes "unat dest + unat n \<le> 2 ^ 64" "unat src + unat n \<le> 2 ^ 64"
  shows "memmove m dest src n x = (if x - dest < n then m (src + (x - dest)) else m x)"
  using memmove_eq_copy_region [OF assms] by (simp add: copy_region_def)

theorem memmove_copies_witness:
  "memmove (\<lambda>a. ucast a) 101 100 3 103 = 102 \<and> memmove (\<lambda>a. ucast a) 100 101 3 100 = 101"
  using memmove_copies [of 101 3 100 "\<lambda>a. ucast a" 103] memmove_copies [of 100 3 101 "\<lambda>a. ucast a" 100] by simp

text \<open>\<open>memcmp\<close> is zero exactly when the first \<open>n\<close> bytes agree, and otherwise has the sign of the first
  difference, bytes being compared unsigned.\<close>

theorem memcmp_first_difference:
  "(memcmp m s1 s2 n = 0 \<longleftrightarrow> (\<forall>j < unat n. m (s1 + of_nat j) = m (s2 + of_nat j))) \<and>
   (memcmp m s1 s2 n \<noteq> 0 \<longrightarrow>
     (\<exists>k < unat n. (\<forall>j < k. m (s1 + of_nat j) = m (s2 + of_nat j)) \<and> m (s1 + of_nat k) \<noteq> m (s2 + of_nat k) \<and>
        (memcmp m s1 s2 n = -1 \<longleftrightarrow> m (s1 + of_nat k) < m (s2 + of_nat k)) \<and>
        (memcmp m s1 s2 n = 1 \<longleftrightarrow> m (s2 + of_nat k) < m (s1 + of_nat k))))"
  using memcmp_zero_iff [of m s1 s2 n] memcmp_cases [of m s1 s2 n] by (auto split: if_splits)

theorem memcmp_first_difference_witness:
  "memcmp (\<lambda>a. if a = 7 then 255 else 1) 4 10 8 \<noteq> 0"
  using memcmp_first_difference [of "\<lambda>a. if a = 7 then 255 else 1" 4 10 8]
  by (auto intro!: exI [of _ 3])

text \<open>\<open>strnlen\<close> returns the offset of the first zero byte, or the limit when there is none before it, and
  always ends.\<close>

theorem strnlen_first_zero:
  "unat (strnlen m s maxlen) \<le> unat maxlen \<and>
   (\<forall>j < unat (strnlen m s maxlen). m (s + of_nat j) \<noteq> 0) \<and>
   (strnlen m s maxlen \<noteq> maxlen \<longrightarrow> m (s + strnlen m s maxlen) = 0)"
  using strnlen_loop_scan [of m s maxlen]
  by (auto simp: strnlen_def scan_len_def word_unat_eq_iff algebra_simps)

theorem strnlen_first_zero_witness:
  "strnlen (\<lambda>a. if a < 5 then 65 else 0) 2 10 = 3 \<and> \<not> (2 + (3 :: u64) < 5)"
proof -
  have "strnlen (\<lambda>a. if a < 5 then 65 else 0) 2 10 = 3"
    by (simp add: strnlen_def strnlen_loop.simps)
  with strnlen_first_zero [of "\<lambda>a. if a < 5 then 65 else 0" 2 10] show ?thesis by simp
qed

end
