(* ===== verification/Block.thy ===== *)
theory Block
  imports Memory
begin

unbundle bit_operations_syntax

text \<open>
  Boundary-tag blocks (\<^verbatim>\<open>mm/alloc/block.hpp\<close>) and allocation areas (\<^verbatim>\<open>mm/alloc/area.hpp\<close>).

  A block is known by the pointer to its payload. The word before the payload (head) and the word after
  it (tail) both hold the payload size, a multiple of 16, with flags in the low bits: \<open>FREE_FLAG\<close>,
  and \<open>SIZE_FLAG\<close> for blocks of a 2M area. An area starts and ends with a word carrying
  \<open>AREA_FLAG\<close>, so that neighbour lookups stop there.

  The definitions follow the source's macros and functions one by one, on the byte memory. The second part
  relates them to an abstract area: \<open>layout c k bs\<close> says that the cell array \<open>c\<close> holds the blocks
  \<open>bs\<close> one after the other, the first payload at cell \<open>k\<close>. Each operation is an update of
  that list: \<open>blk_split\<close> replaces one block by two, merging replaces two by one.
\<close>

definition FREE_FLAG :: u64 where "FREE_FLAG = 1"
definition AREA_FLAG :: u64 where "AREA_FLAG = 2"
definition SIZE_FLAG :: u64 where "SIZE_FLAG = 4"
definition FLAG_BITS :: u64 where "FLAG_BITS = 7"

definition SIZE_4k :: u64 where "SIZE_4k = 4096"
definition SIZE_16k :: u64 where "SIZE_16k = 16384"
definition SIZE_2M :: u64 where "SIZE_2M = 2 * 1024 * 1024"

definition PADDING :: "u64 \<Rightarrow> u64" where
  "PADDING s = (s + 2 * 8 - 1) AND NOT (2 * 8 - 1)"

definition PADDING_4k :: "u64 \<Rightarrow> u64" where
  "PADDING_4k s = (s + SIZE_4k - 1) AND NOT (SIZE_4k - 1)"

definition PADDING_16k :: "u64 \<Rightarrow> u64" where
  "PADDING_16k s = (s + SIZE_16k - 1) AND NOT (SIZE_16k - 1)"

definition blk_prevtail :: "mem \<Rightarrow> u64 \<Rightarrow> u64" where
  "blk_prevtail m p = rd64 m (p - 16)"

definition blk_head :: "mem \<Rightarrow> u64 \<Rightarrow> u64" where
  "blk_head m p = rd64 m (p - 8)"

definition blk_tail :: "mem \<Rightarrow> u64 \<Rightarrow> u64 \<Rightarrow> u64" where
  "blk_tail m p s = rd64 m (p + s)"

definition blk_nexthead :: "mem \<Rightarrow> u64 \<Rightarrow> u64 \<Rightarrow> u64" where
  "blk_nexthead m p s = rd64 m (p + s + 8)"

definition blk_noprev :: "mem \<Rightarrow> u64 \<Rightarrow> bool" where
  "blk_noprev m p = (blk_prevtail m p AND AREA_FLAG \<noteq> 0)"

definition blk_nonext :: "mem \<Rightarrow> u64 \<Rightarrow> u64 \<Rightarrow> bool" where
  "blk_nonext m p s = (blk_nexthead m p s AND AREA_FLAG \<noteq> 0)"

definition blk_freed :: "mem \<Rightarrow> u64 \<Rightarrow> bool" where
  "blk_freed m p = (blk_head m p AND FREE_FLAG \<noteq> 0)"

definition blk_setalloced :: "mem \<Rightarrow> u64 \<Rightarrow> u64 \<Rightarrow> mem" where
  "blk_setalloced m p s =
     (let m1 = wr64 m (p - 8) (blk_head m p AND NOT FREE_FLAG)
      in wr64 m1 (p + s) (blk_tail m1 p s AND NOT FREE_FLAG))"

definition blk_setfreed :: "mem \<Rightarrow> u64 \<Rightarrow> u64 \<Rightarrow> mem" where
  "blk_setfreed m p s =
     (let m1 = wr64 m (p - 8) (blk_head m p OR FREE_FLAG)
      in wr64 m1 (p + s) (blk_tail m1 p s OR FREE_FLAG))"

definition blk_size :: "mem \<Rightarrow> u64 \<Rightarrow> u64" where
  "blk_size m p = blk_head m p AND NOT FLAG_BITS"

definition blk_setsize :: "mem \<Rightarrow> u64 \<Rightarrow> u64 \<Rightarrow> mem" where
  "blk_setsize m p s = wr64 (wr64 m (p - 8) s) (p + s) s"

definition blk_area_is_2M :: "mem \<Rightarrow> u64 \<Rightarrow> bool" where
  "blk_area_is_2M m p = (blk_head m p AND SIZE_FLAG \<noteq> 0)"

definition blk_set_area_4k :: "mem \<Rightarrow> u64 \<Rightarrow> u64 \<Rightarrow> mem" where
  "blk_set_area_4k m p s =
     (let m1 = wr64 m (p - 8) (blk_head m p AND NOT SIZE_FLAG)
      in wr64 m1 (p + s) (blk_tail m1 p s AND NOT SIZE_FLAG))"

definition blk_set_area_2M :: "mem \<Rightarrow> u64 \<Rightarrow> u64 \<Rightarrow> mem" where
  "blk_set_area_2M m p s =
     (let m1 = wr64 m (p - 8) (blk_head m p OR SIZE_FLAG)
      in wr64 m1 (p + s) (blk_tail m1 p s OR SIZE_FLAG))"

definition blk_areaptr :: "mem \<Rightarrow> u64 \<Rightarrow> u64" where
  "blk_areaptr m p =
     (if blk_area_is_2M m p then p AND NOT (SIZE_2M - 1) else p AND NOT (SIZE_4k - 1))"

definition blk_poolptr :: "mem \<Rightarrow> u64 \<Rightarrow> u64" where
  "blk_poolptr m p = rd64 m (blk_areaptr m p) AND NOT FLAG_BITS"

definition blk_prev :: "mem \<Rightarrow> u64 \<Rightarrow> u64" where
  "blk_prev m p =
     (if blk_noprev m p then 0
      else let prevsize = blk_prevtail m p AND NOT FLAG_BITS in p - 2 * 8 - prevsize)"

definition blk_next :: "mem \<Rightarrow> u64 \<Rightarrow> u64" where
  "blk_next m p =
     (let s = blk_size m p in if blk_nonext m p s then 0 else p + s + 2 * 8)"

text \<open>The detach callback takes the data it was registered with and the neighbour's pointer.\<close>

type_synonym 'd blk_detach = "'d \<times> mem \<Rightarrow> u64 \<Rightarrow> 'd \<times> mem"

definition run_detach :: "'d blk_detach option \<Rightarrow> 'd \<times> mem \<Rightarrow> u64 \<Rightarrow> 'd \<times> mem" where
  "run_detach detach dm p = (case detach of None \<Rightarrow> dm | Some f \<Rightarrow> f dm p)"

definition blk_mergeprev :: "u64 \<Rightarrow> 'd blk_detach option \<Rightarrow> 'd \<times> mem \<Rightarrow> u64 \<times> 'd \<times> mem" where
  "blk_mergeprev p detach dm =
     (let m = snd dm;
          prev = blk_prev m p;
          s = blk_size m p + blk_size m prev + 2 * 8;
          (d', m') = run_detach detach dm prev
      in (prev, d', blk_setsize m' prev s))"

definition blk_mergenext :: "u64 \<Rightarrow> 'd blk_detach option \<Rightarrow> 'd \<times> mem \<Rightarrow> u64 \<times> 'd \<times> mem" where
  "blk_mergenext p detach dm =
     (let m = snd dm;
          next = blk_next m p;
          s = blk_size m p + blk_size m next + 2 * 8;
          (d', m') = run_detach detach dm next
      in (p, d', blk_setsize m' p s))"

definition blk_trymerge :: "u64 \<Rightarrow> 'd blk_detach option \<Rightarrow> 'd \<times> mem \<Rightarrow> u64 \<times> 'd \<times> mem" where
  "blk_trymerge p detach dm =
     (let is_2M = blk_area_is_2M (snd dm) p;
          s = blk_size (snd dm) p;
          (p1, dm1) = (if \<not> blk_nonext (snd dm) p s \<and> blk_nexthead (snd dm) p s AND FREE_FLAG \<noteq> 0
                       then blk_mergenext p detach dm else (p, dm));
          (p2, dm2) = (if \<not> blk_noprev (snd dm1) p1 \<and> blk_prevtail (snd dm1) p1 AND FREE_FLAG \<noteq> 0
                       then blk_mergeprev p1 detach dm1 else (p1, dm1));
          m3 = (if is_2M then blk_set_area_2M (snd dm2) p2 (blk_size (snd dm2) p2) else snd dm2)
      in (p2, fst dm2, m3))"

definition blk_split :: "mem \<Rightarrow> u64 \<Rightarrow> u64 \<Rightarrow> u64 \<times> mem" where
  "blk_split m p s =
     (let is_2M = blk_area_is_2M m p;
          oldsize = blk_size m p;
          m1 = blk_setsize m p s;
          m2 = (if is_2M then blk_set_area_2M m1 p s else m1);
          offset = s + 2 * 8;
          m3 = blk_setsize m2 (p + offset) (oldsize - offset);
          m4 = (if is_2M then blk_set_area_2M m3 (p + offset) (oldsize - offset) else m3)
      in (p + offset, m4))"

definition allocarea_size :: "mem \<Rightarrow> u64 \<Rightarrow> u64" where
  "allocarea_size m p = (if rd64 m p AND SIZE_FLAG \<noteq> 0 then SIZE_2M else SIZE_4k)"

definition allocarea_init :: "mem \<Rightarrow> u64 \<Rightarrow> u64 \<Rightarrow> u64 \<Rightarrow> mem" where
  "allocarea_init m addr sz pdata =
     (let size_flag = (if sz = SIZE_2M then SIZE_FLAG else 0);
          len = sz div 8;
          data = pdata OR AREA_FLAG OR size_flag;
          m1 = wr64 (wr64 m (addr + (len - 1) * 8) data) addr data;
          p = addr + 2 * 8;
          s = sz - 4 * 8;
          m2 = blk_setsize m1 p s;
          m3 = blk_setfreed m2 p s
      in if size_flag \<noteq> 0 then blk_set_area_2M m3 p s else blk_set_area_4k m3 p s)"

definition allocarea_reinit :: "mem \<Rightarrow> u64 \<Rightarrow> u64 \<Rightarrow> u64 \<Rightarrow> u64 \<times> mem" where
  "allocarea_reinit m addr oldsize newsize =
     (if newsize = oldsize then (0, m)
      else
        let len = newsize div 8;
            data = (rd64 m addr AND NOT FLAG_BITS) OR AREA_FLAG OR
                   (if newsize = SIZE_2M then SIZE_FLAG else 0);
            m1 = wr64 (wr64 m (addr + (len - 1) * 8) data) addr data
        in
        if newsize < oldsize then (0, m1)
        else
          let blk = addr + oldsize + 8
          in (blk, blk_setsize m1 blk (newsize - oldsize - 2 * 8)))"

section \<open>Pointers and sizes in units of cells\<close>

text \<open>\<open>adr k\<close> is both the address of cell \<open>k\<close> and the size in bytes of \<open>k\<close> cells.\<close>

definition adr :: "nat \<Rightarrow> u64" where
  "adr k = of_nat (8 * k)"

lemma adr_add [simp]: "adr j + adr k = adr (j + k)"
  by (simp add: adr_def)

lemma adr_numerals: "8 = adr 1" "16 = adr 2" "24 = adr 3" "32 = adr 4" "64 = adr 8"
  by (simp_all add: adr_def)

lemma adr_plus [simp]: "adr k + 8 = adr (k + 1)" "adr k + 16 = adr (k + 2)" "adr k + 64 = adr (k + 8)"
  "16 + adr k = adr (k + 2)"
  by (simp_all add: adr_def)

lemma adr_diff: "j \<le> k \<Longrightarrow> adr k - adr j = adr (k - j)"
  by (simp add: adr_def of_nat_diff)

lemma adr_minus [simp]: "1 \<le> k \<Longrightarrow> adr k - 8 = adr (k - 1)" "2 \<le> k \<Longrightarrow> adr k - 16 = adr (k - 2)"
  using adr_diff [of 1 k] adr_diff [of 2 k] by (simp_all add: adr_numerals)

lemma unat_adr: "k < 2 ^ 61 \<Longrightarrow> unat (adr k) = 8 * k"
  unfolding adr_def by (rule unat_of_nat64) simp

lemma adr_eq_iff [simp]: "j < 2 ^ 61 \<Longrightarrow> k < 2 ^ 61 \<Longrightarrow> (adr j = adr k) = (j = k)"
  by (simp add: word_unat_eq_iff unat_adr)

lemma adr_eq_0_iff [simp]: "k < 2 ^ 61 \<Longrightarrow> (adr k = 0) = (k = 0)" "k < 2 ^ 61 \<Longrightarrow> (0 = adr k) = (k = 0)"
  using unat_adr [of k] by (auto simp: word_unat_eq_iff)

lemma adr_le_iff: "j < 2 ^ 61 \<Longrightarrow> k < 2 ^ 61 \<Longrightarrow> (adr j \<le> adr k) = (j \<le> k)"
  by (simp add: word_le_nat_alt unat_adr)

lemma rd64_adr: "k < 2 ^ 61 \<Longrightarrow> rd64 m (adr k) = cells m k"
  by (simp add: adr_def cells_rd64 del: of_nat_mult)

lemma cells_wr64_adr: "k < 2 ^ 61 \<Longrightarrow> cells (wr64 m (adr k) v) = (cells m)(k := v)"
  by (simp add: adr_def cells_wr64 del: of_nat_mult)

lemmas cell_simps = rd64_adr cells_wr64_adr

section \<open>Header words\<close>

datatype blk = Blk (bw: nat) (bfree: bool) (b2M: bool)

definition hdr :: "blk \<Rightarrow> u64" where
  "hdr b = adr (bw b) OR (if bfree b then FREE_FLAG else 0) OR (if b2M b then SIZE_FLAG else 0)"

lemma bit_adrD: "bit (adr n) i \<Longrightarrow> 3 \<le> i"
proof -
  have e: "adr n = push_bit 3 (of_nat n)" by (simp add: adr_def push_bit_eq_mult)
  assume "bit (adr n) i"
  then show ?thesis unfolding e by (simp add: bit_push_bit_iff)
qed

lemma bit_adr: "i < 3 \<Longrightarrow> \<not> bit (adr n) i"
  using bit_adrD by fastforce

lemma flag_powers: "FREE_FLAG = 2 ^ 0" "AREA_FLAG = 2 ^ 1" "SIZE_FLAG = 2 ^ 2"
  by (simp_all add: FREE_FLAG_def AREA_FLAG_def SIZE_FLAG_def)

lemma bit_flags [simp]:
  "bit FREE_FLAG i = (i = 0)" "bit AREA_FLAG i = (i = 1)" "bit SIZE_FLAG i = (i = 2)"
  unfolding flag_powers by (rule bit_exp64, simp)+

lemma flag_tests [simp]:
  "(w AND FREE_FLAG = 0) = (\<not> bit w 0)" "(w AND AREA_FLAG = 0) = (\<not> bit w 1)"
  "(w AND SIZE_FLAG = 0) = (\<not> bit w 2)"
  using and_exp_neq_0 [of 0 w] and_exp_neq_0 [of 1 w] and_exp_neq_0 [of 2 w]
  unfolding flag_powers by auto

lemma FLAG_BITS_mask: "FLAG_BITS = mask 3"
  by (simp add: FLAG_BITS_def mask_eq_exp_minus_1)

lemma hdr_size [simp]: "hdr b AND NOT FLAG_BITS = adr (bw b)"
  unfolding FLAG_BITS_mask hdr_def
  by (rule bit_word_eqI)
     (auto simp: bit_and_iff bit_or_iff bit_not_iff bit_mask_iff not_less dest: bit_adrD)

lemma hdr_bits [simp]: "bit (hdr b) 0 = bfree b" "bit (hdr b) 1 = False" "bit (hdr b) 2 = b2M b"
  "bit (hdr b) (Suc 0) = False"
  by (simp_all add: hdr_def bit_or_iff bit_adr)

lemma bit_hdr: "bit (hdr b) i = (bit (adr (bw b)) i \<or> (i = 0 \<and> bfree b) \<or> (i = 2 \<and> b2M b))"
  by (auto simp: hdr_def bit_or_iff)

lemma hdr_set_flags [simp]:
  "hdr b OR FREE_FLAG = hdr (Blk (bw b) True (b2M b))"
  "hdr b AND NOT FREE_FLAG = hdr (Blk (bw b) False (b2M b))"
  "hdr b OR SIZE_FLAG = hdr (Blk (bw b) (bfree b) True)"
  "hdr b AND NOT SIZE_FLAG = hdr (Blk (bw b) (bfree b) False)"
  by (rule bit_word_eqI, auto simp: bit_hdr bit_or_iff bit_and_iff bit_not_iff dest: bit_adrD)+

lemma adr_hdr: "adr n = hdr (Blk n False False)"
  by (simp add: hdr_def)

section \<open>Areas as lists of blocks\<close>

fun span :: "blk list \<Rightarrow> nat" where
  "span [] = 0"
| "span (b # bs) = bw b + 2 + span bs"

fun layout :: "(nat \<Rightarrow> u64) \<Rightarrow> nat \<Rightarrow> blk list \<Rightarrow> bool" where
  "layout c k [] = True"
| "layout c k (b # bs) = (c (k - 1) = hdr b \<and> c (k + bw b) = hdr b \<and> layout c (k + bw b + 2) bs)"

fun place :: "nat \<Rightarrow> blk list \<Rightarrow> (nat \<times> blk) list" where
  "place k [] = []"
| "place k (b # bs) = (k, b) # place (k + bw b + 2) bs"

lemma span_append [simp]: "span (xs @ ys) = span xs + span ys"
  by (induction xs) simp_all

lemma layout_append: "layout c k (xs @ ys) = (layout c k xs \<and> layout c (k + span xs) ys)"
  by (induction xs arbitrary: k) (auto simp: algebra_simps)

lemma place_append: "place k (xs @ ys) = place k xs @ place (k + span xs) ys"
  by (induction xs arbitrary: k) (auto simp: algebra_simps)

lemma layout_cong:
  "1 \<le> k \<Longrightarrow> (\<And>x. k - 1 \<le> x \<Longrightarrow> x < k - 1 + span bs \<Longrightarrow> c x = c' x) \<Longrightarrow> layout c k bs = layout c' k bs"
  by (induction bs arbitrary: k) auto

lemma place_decomp:
  "(p, b) \<in> set (place k bs) \<longleftrightarrow> (\<exists>xs ys. bs = xs @ b # ys \<and> p = k + span xs)"
proof
  assume "(p, b) \<in> set (place k bs)"
  then show "\<exists>xs ys. bs = xs @ b # ys \<and> p = k + span xs"
  proof (induction bs arbitrary: k)
    case (Cons d bs)
    then consider "p = k" "b = d" | "(p, b) \<in> set (place (k + bw d + 2) bs)" by auto
    then show ?case
    proof cases
      case 1
      then show ?thesis by - (rule exI [of _ "[]"], auto)
    next
      case 2
      from Cons.IH [OF this] obtain xs ys where "bs = xs @ b # ys" "p = k + bw d + 2 + span xs" by blast
      then show ?thesis by - (rule exI [of _ "d # xs"], simp)
    qed
  qed simp
next
  assume "\<exists>xs ys. bs = xs @ b # ys \<and> p = k + span xs"
  then show "(p, b) \<in> set (place k bs)" by (auto simp: place_append)
qed

lemma place_bounds: "(q, d) \<in> set (place k bs) \<Longrightarrow> k \<le> q \<and> q + bw d + 2 \<le> k + span bs"
  by (auto simp: place_decomp)

text \<open>Two blocks of an area are the same block or lie apart, head and tail included.\<close>

lemma place_apart:
  assumes "(p, b) \<in> set (place k bs)" "(q, d) \<in> set (place k bs)"
  shows "(p = q \<and> b = d) \<or> p + bw b + 2 \<le> q \<or> q + bw d + 2 \<le> p"
proof -
  obtain xs ys where bs: "bs = xs @ b # ys" "p = k + span xs" using assms(1) by (auto simp: place_decomp)
  from assms(2) consider "(q, d) \<in> set (place k xs)" | "q = p" "d = b"
    | "(q, d) \<in> set (place (p + bw b + 2) ys)"
    unfolding bs by (auto simp: place_append)
  then show ?thesis using bs(2) by cases (auto dest: place_bounds)
qed

lemma layout_blk: "layout c k bs \<Longrightarrow> (p, b) \<in> set (place k bs) \<Longrightarrow> c (p - 1) = hdr b \<and> c (p + bw b) = hdr b"
  by (auto simp: place_decomp layout_append)

text \<open>Replacing a stretch of blocks by another of the same length, all else in place.\<close>

lemma layout_replace:
  assumes "layout c k (xs @ bs @ ys)" "1 \<le> k" "span bs' = span bs"
    and out: "\<And>x. x + 1 < k + span xs \<or> k + span xs + span bs \<le> x + 1 \<Longrightarrow> c' x = c x"
    and new: "layout c' (k + span xs) bs'"
  shows "layout c' k (xs @ bs' @ ys)"
proof -
  have "layout c' k xs = layout c k xs"
    using assms(2) by (intro layout_cong out) auto
  moreover have "layout c' (k + span xs + span bs) ys = layout c (k + span xs + span bs) ys"
    using assms(2) by (intro layout_cong out) auto
  ultimately show ?thesis using assms(1,3) new by (simp add: layout_append)
qed

text \<open>\<open>area c a bs\<close>: an area whose first word is cell \<open>a\<close>, with its two sentinels, tiled by \<open>bs\<close>.
  Blocks have an even number of words, at least two, so that payloads are 16-byte aligned and hold the two
  links of a free list.\<close>

definition area :: "(nat \<Rightarrow> u64) \<Rightarrow> nat \<Rightarrow> blk list \<Rightarrow> bool" where
  "area c a bs \<longleftrightarrow> 1 \<le> a \<and> even a \<and> a + 2 + span bs < 2 ^ 61 \<and> span bs + 2 < 2 ^ 60 \<and> (\<forall>b\<in>set bs. even (bw b) \<and> 2 \<le> bw b) \<and>
     bit (c a) 1 \<and> bit (c (a + 1 + span bs)) 1 \<and> layout c (a + 2) bs"

abbreviation blks :: "nat \<Rightarrow> blk list \<Rightarrow> (nat \<times> blk) set" where
  "blks a bs \<equiv> set (place (a + 2) bs)"

lemma area_blk:
  assumes "area c a bs" "(p, b) \<in> blks a bs"
  shows "c (p - 1) = hdr b" "c (p + bw b) = hdr b" "a + 2 \<le> p" "p + bw b + 2 < 2 ^ 61"
    "p + bw b + 2 \<le> a + 2 + span bs" "even (bw b)" "2 \<le> bw b"
proof -
  have "b \<in> set bs" using assms(2) by (auto simp: place_decomp)
  with assms layout_blk [of c "a + 2" bs p b] place_bounds [OF assms(2)]
  show "c (p - 1) = hdr b" "c (p + bw b) = hdr b" "a + 2 \<le> p" "p + bw b + 2 < 2 ^ 61"
    "p + bw b + 2 \<le> a + 2 + span bs" "even (bw b)" "2 \<le> bw b" by (auto simp: area_def)
qed

lemma even_span: "\<forall>b\<in>set bs. even (bw b) \<Longrightarrow> even (span bs)"
  by (induction bs) auto

lemma area_blk_even: "area c a bs \<Longrightarrow> (p, b) \<in> blks a bs \<Longrightarrow> even p"
  by (auto simp: place_decomp area_def intro!: even_span)

lemma area_replace:
  assumes "area c a (xs @ bs @ ys)" "span bs' = span bs" "\<forall>b\<in>set bs'. even (bw b) \<and> 2 \<le> bw b"
    and out: "\<And>x. x + 1 < a + 2 + span xs \<or> a + 2 + span xs + span bs \<le> x + 1 \<Longrightarrow> c' x = c x"
    and new: "layout c' (a + 2 + span xs) bs'"
  shows "area c' a (xs @ bs' @ ys)"
proof -
  have "layout c' (a + 2) (xs @ bs' @ ys)"
  proof (rule layout_replace [where c = c and bs = bs])
    show "layout c (a + 2) (xs @ bs @ ys)" using assms(1) by (simp add: area_def)
  qed (use assms(2) out new in simp_all)
  moreover have "c' a = c a" by (rule out) simp
  moreover have "c' (a + 1 + span (xs @ bs @ ys)) = c (a + 1 + span (xs @ bs @ ys))" by (rule out) simp
  moreover have "span (xs @ bs' @ ys) = span (xs @ bs @ ys)" using assms(2) by simp
  ultimately show ?thesis using assms(1,3) unfolding area_def by (simp add: ball_Un)
qed

section \<open>Effect of the primitives on cells\<close>

text \<open>\<open>tag_blk c k n w\<close> writes the word \<open>w\<close> to the head and the tail of the block of \<open>n\<close> words at \<open>k\<close>.\<close>

definition tag_blk :: "(nat \<Rightarrow> u64) \<Rightarrow> nat \<Rightarrow> nat \<Rightarrow> u64 \<Rightarrow> nat \<Rightarrow> u64" where
  "tag_blk c k n w = c(k - 1 := w, k + n := w)"

lemma tag_blk_out: "x \<noteq> k - 1 \<Longrightarrow> x \<noteq> k + n \<Longrightarrow> tag_blk c k n w x = c x"
  by (simp add: tag_blk_def)

lemma layout_tag_blk: "layout (tag_blk c k (bw b) (hdr b)) k [b]"
  by (simp add: tag_blk_def)

lemma tag_blk_tag_blk [simp]: "tag_blk (tag_blk c k n v) k n w = tag_blk c k n w"
  by (auto simp: tag_blk_def fun_eq_iff)

lemma blk_head_cells: "1 \<le> k \<Longrightarrow> k < 2 ^ 61 \<Longrightarrow> blk_head m (adr k) = cells m (k - 1)"
  by (simp add: blk_head_def rd64_adr)

lemma blk_setsize_cells:
  "1 \<le> k \<Longrightarrow> k + n < 2 ^ 61 \<Longrightarrow> cells (blk_setsize m (adr k) (adr n)) = tag_blk (cells m) k n (adr n)"
  by (simp add: blk_setsize_def cell_simps tag_blk_def)

lemma flag_op_cells:
  assumes "1 \<le> k" "k + bw b < 2 ^ 61" "cells m (k - 1) = hdr b" "cells m (k + bw b) = hdr b"
  shows "cells (blk_setalloced m (adr k) (adr (bw b))) = tag_blk (cells m) k (bw b) (hdr (Blk (bw b) False (b2M b)))"
    "cells (blk_setfreed m (adr k) (adr (bw b))) = tag_blk (cells m) k (bw b) (hdr (Blk (bw b) True (b2M b)))"
    "cells (blk_set_area_4k m (adr k) (adr (bw b))) = tag_blk (cells m) k (bw b) (hdr (Blk (bw b) (bfree b) False))"
    "cells (blk_set_area_2M m (adr k) (adr (bw b))) = tag_blk (cells m) k (bw b) (hdr (Blk (bw b) (bfree b) True))"
  using assms
  by (simp_all add: blk_setalloced_def blk_setfreed_def blk_set_area_4k_def blk_set_area_2M_def
      blk_head_def blk_tail_def cell_simps tag_blk_def)

lemma tagged [simp]: "tag_blk c k n w (k - 1) = w" "tag_blk c k n w (k + n) = w" "tag_blk c k n w (k - Suc 0) = w"
  by (auto simp: tag_blk_def)

text \<open>Resetting the size of a block and restoring its area mark, as splitting and merging do.\<close>

lemma resize_cells:
  assumes "1 \<le> k" "k + n < 2 ^ 61"
  shows "cells (if g then blk_set_area_2M (blk_setsize m (adr k) (adr n)) (adr k) (adr n)
                else blk_setsize m (adr k) (adr n)) = tag_blk (cells m) k n (hdr (Blk n False g))"
proof -
  have c: "cells (blk_setsize m (adr k) (adr n)) = tag_blk (cells m) k n (hdr (Blk n False False))"
    using assms by (simp add: blk_setsize_cells adr_hdr [of n, symmetric])
  show ?thesis
    using flag_op_cells(4) [of k "Blk n False False" "blk_setsize m (adr k) (adr n)"] assms c by simp
qed

section \<open>Reading blocks of an area\<close>

lemma area_reads:
  assumes "area (cells m) a bs" "(p, b) \<in> blks a bs"
  shows "blk_size m (adr p) = adr (bw b)" "blk_freed m (adr p) = bfree b"
    "blk_area_is_2M m (adr p) = b2M b"
  using area_blk [OF assms] assms(1)
  by (simp_all add: blk_size_def blk_freed_def blk_area_is_2M_def blk_head_cells area_def)

lemma area_next:
  assumes "area (cells m) a (xs @ b # ys)" "p = a + 2 + span xs"
  shows "blk_nonext m (adr p) (adr (bw b)) = (ys = [])"
    "blk_next m (adr p) = (if ys = [] then 0 else adr (p + bw b + 2))"
    "ys \<noteq> [] \<Longrightarrow> blk_nexthead m (adr p) (adr (bw b)) = hdr (hd ys)"
proof -
  have pb: "(p, b) \<in> blks a (xs @ b # ys)" using assms(2) by (auto simp: place_append)
  note B = area_blk [OF assms(1) pb] and R = area_reads [OF assms(1) pb]
  have h: "blk_nexthead m (adr p) (adr (bw b)) = cells m (p + bw b + 1)"
    using B(4) by (simp add: blk_nexthead_def rd64_adr)
  show n: "ys \<noteq> [] \<Longrightarrow> blk_nexthead m (adr p) (adr (bw b)) = hdr (hd ys)"
    using assms h by (cases ys) (auto simp: area_def layout_append algebra_simps)
  show nonext: "blk_nonext m (adr p) (adr (bw b)) = (ys = [])"
  proof (cases "ys = []")
    case True
    then have "cells m (p + bw b + 1) = cells m (a + 1 + span (xs @ b # ys))"
      using assms(2) by (simp add: algebra_simps)
    with True assms(1) h show ?thesis by (simp add: blk_nonext_def area_def)
  next
    case False
    with n show ?thesis by (simp add: blk_nonext_def)
  qed
  show "blk_next m (adr p) = (if ys = [] then 0 else adr (p + bw b + 2))"
    using nonext R(1) by (simp add: blk_next_def)
qed

lemma area_prev:
  assumes "area (cells m) a (xs @ b # ys)" "p = a + 2 + span xs"
  shows "blk_noprev m (adr p) = (xs = [])"
    "blk_prev m (adr p) = (if xs = [] then 0 else adr (a + 2 + span (butlast xs)))"
    "xs \<noteq> [] \<Longrightarrow> blk_prevtail m (adr p) = hdr (last xs)"
proof -
  have pb: "(p, b) \<in> blks a (xs @ b # ys)" using assms(2) by (auto simp: place_append)
  note B = area_blk [OF assms(1) pb]
  have h: "blk_prevtail m (adr p) = cells m (p - 2)"
    using B(3,4) by (simp add: blk_prevtail_def rd64_adr)
  have sp: "span xs = span (butlast xs) + bw (last xs) + 2" if "xs \<noteq> []"
    using span_append [of "butlast xs" "[last xs]"] that by simp
  show n: "xs \<noteq> [] \<Longrightarrow> blk_prevtail m (adr p) = hdr (last xs)"
  proof -
    assume ne: "xs \<noteq> []"
    have "(a + 2 + span (butlast xs), last xs) \<in> blks a (xs @ b # ys)"
      using ne append_butlast_last_id [OF ne] unfolding place_decomp
      by (metis append.assoc append_Cons append_Nil)
    from area_blk(2) [OF assms(1) this] show ?thesis
      using h sp [OF ne] assms(2) by (simp add: algebra_simps)
  qed
  show noprev: "blk_noprev m (adr p) = (xs = [])"
  proof (cases "xs = []")
    case True
    with h assms show ?thesis by (simp add: blk_noprev_def area_def)
  next
    case False
    with n show ?thesis by (simp add: blk_noprev_def)
  qed
  show "blk_prev m (adr p) = (if xs = [] then 0 else adr (a + 2 + span (butlast xs)))"
  proof (cases "xs = []")
    case False
    then have "adr p - 2 * 8 - adr (bw (last xs)) = adr (p - 2 - bw (last xs))"
      using sp assms(2) by (simp add: adr_diff)
    with False noprev n sp assms(2) show ?thesis by (simp add: blk_prev_def)
  qed (simp add: blk_prev_def noprev)
qed

section \<open>Splitting and merging\<close>

lemma blk_split_cells:
  assumes "blk_area_is_2M m (adr p) = g" "blk_size m (adr p) = adr n"
    and "1 \<le> p" "p + n < 2 ^ 61" "s + 2 \<le> n"
  shows "fst (blk_split m (adr p) (adr s)) = adr (p + s + 2)"
    "cells (snd (blk_split m (adr p) (adr s))) =
       tag_blk (tag_blk (cells m) p s (hdr (Blk s False g))) (p + s + 2) (n - s - 2) (hdr (Blk (n - s - 2) False g))"
proof -
  have off: "adr p + (adr s + 2 * 8) = adr (p + s + 2)" by (simp add: algebra_simps)
  have rest: "adr n - (adr s + 2 * 8) = adr (n - s - 2)"
    using assms(5) adr_diff [of "s + 2" n] by (simp add: diff_diff_add)
  show "fst (blk_split m (adr p) (adr s)) = adr (p + s + 2)"
    unfolding blk_split_def Let_def assms(1,2) off by simp
  have b1: "p + s < 2 ^ 61" and b2: "p + s + 2 + (n - s - 2) < 2 ^ 61" using assms by simp_all
  show "cells (snd (blk_split m (adr p) (adr s))) =
       tag_blk (tag_blk (cells m) p s (hdr (Blk s False g))) (p + s + 2) (n - s - 2) (hdr (Blk (n - s - 2) False g))"
    unfolding blk_split_def Let_def assms(1,2) off rest snd_conv
      resize_cells [OF _ b2, simplified] resize_cells [OF assms(3) b1] by simp
qed

lemma area_split:
  assumes ar: "area c a (xs @ b # ys)" and p: "p = a + 2 + span xs"
    and s: "even s" "2 \<le> s" "s + 4 \<le> bw b"
  shows "area (tag_blk (tag_blk c p s (hdr (Blk s f g))) (p + s + 2) (bw b - s - 2) (hdr (Blk (bw b - s - 2) f' g'))) a
    (xs @ Blk s f g # Blk (bw b - s - 2) f' g' # ys)"
    (is "area ?c a (xs @ ?b1 # ?b2 # ys)")
proof -
  have "(p, b) \<in> blks a (xs @ b # ys)" using p by (auto simp: place_append)
  note B = area_blk [OF ar this]
  obtain r where r: "bw b = s + 2 + r" using s(3) by (metis add.assoc add_leE le_iff_add numeral_Bit0)
  have "area ?c a (xs @ [?b1, ?b2] @ ys)"
  proof (rule area_replace [where c = c and bs = "[b]"])
    show "area c a (xs @ [b] @ ys)" using ar by simp
    show "\<forall>d\<in>set [?b1, ?b2]. even (bw d) \<and> 2 \<le> bw d" using s B(6) by simp
    show "layout ?c (a + 2 + span xs) [?b1, ?b2]"
      using s p by (simp add: tag_blk_def r)
  qed (use s p in \<open>auto intro!: tag_blk_out [THEN trans]\<close>)
  then show ?thesis by simp
qed

lemma area_merge:
  assumes ar: "area c a (xs @ b1 # b2 # ys)" and p: "p = a + 2 + span xs" and n: "n = bw b1 + bw b2 + 2"
  shows "area (tag_blk c p n (hdr (Blk n f g))) a (xs @ Blk n f g # ys)"
proof -
  have "area (tag_blk c p n (hdr (Blk n f g))) a (xs @ [Blk n f g] @ ys)"
  proof (rule area_replace [where c = c and bs = "[b1, b2]"])
    show "area c a (xs @ [b1, b2] @ ys)" using ar by simp
    show "\<forall>d\<in>set [Blk n f g]. even (bw d) \<and> 2 \<le> bw d" using ar n by (auto simp: area_def)
    show "layout (tag_blk c p n (hdr (Blk n f g))) (a + 2 + span xs) [Blk n f g]"
      using p by (simp add: tag_blk_def)
  qed (use n p in \<open>auto intro!: tag_blk_out\<close>)
  then show ?thesis by simp
qed

lemma area_retag:
  assumes ar: "area c a (xs @ b # ys)" and p: "p = a + 2 + span xs"
  shows "area (tag_blk c p (bw b) (hdr (Blk (bw b) f g))) a (xs @ Blk (bw b) f g # ys)"
proof -
  have "area (tag_blk c p (bw b) (hdr (Blk (bw b) f g))) a (xs @ [Blk (bw b) f g] @ ys)"
  proof (rule area_replace [where c = c and bs = "[b]"])
    show "area c a (xs @ [b] @ ys)" using ar by simp
    show "\<forall>d\<in>set [Blk (bw b) f g]. even (bw d) \<and> 2 \<le> bw d" using ar by (auto simp: area_def)
    show "layout (tag_blk c p (bw b) (hdr (Blk (bw b) f g))) (a + 2 + span xs) [Blk (bw b) f g]"
      using p by (simp add: tag_blk_def)
  qed (use p in \<open>auto intro!: tag_blk_out\<close>)
  then show ?thesis by simp
qed

text \<open>Writes to payloads leave the area as it is.\<close>

definition payload :: "nat \<Rightarrow> blk \<Rightarrow> nat set" where
  "payload p b = {x. p \<le> x \<and> x < p + bw b}"

lemma payload_not_header:
  assumes "(p, b) \<in> set (place k bs)" "(q, d) \<in> set (place k bs)" "x \<in> payload p b" "1 \<le> k"
  shows "x \<noteq> q - 1" "x \<noteq> q + bw d"
  using place_apart [OF assms(1,2)] place_bounds [OF assms(2)] assms(3,4) by (auto simp: payload_def)

lemma layout_iff: "layout c k bs = (\<forall>(p, b)\<in>set (place k bs). c (p - 1) = hdr b \<and> c (p + bw b) = hdr b)"
  by (induction bs arbitrary: k) auto

lemma area_payload_cong:
  assumes "area c a bs"
    and "\<And>x. \<forall>(p, b)\<in>blks a bs. x \<notin> payload p b \<Longrightarrow> c' x = c x"
  shows "area c' a bs"
proof -
  have hd: "\<forall>(p, b)\<in>blks a bs. x \<notin> payload p b" if "(q, d) \<in> blks a bs" "x = q - 1 \<or> x = q + bw d" for x q d
    using payload_not_header [OF _ that(1), where x = x] that(2) by auto
  have "layout c' (a + 2) bs"
    unfolding layout_iff
  proof (clarify)
    fix q d assume qd: "(q, d) \<in> blks a bs"
    have "c' (q - 1) = c (q - 1)" "c' (q + bw d) = c (q + bw d)"
      using hd [OF qd] by (intro assms(2); blast)+
    with area_blk(1,2) [OF assms(1) qd] show "c' (q - 1) = hdr d \<and> c' (q + bw d) = hdr d" by simp
  qed
  moreover have "c' a = c a" by (rule assms(2)) (auto simp: payload_def dest: place_bounds)
  moreover have "c' (a + 1 + span bs) = c (a + 1 + span bs)"
    by (rule assms(2)) (auto simp: payload_def dest!: place_bounds)
  ultimately show ?thesis using assms(1) by (simp add: area_def)
qed

end
