(* ===== verification/Freelist.thy ===== *)
theory Freelist
  imports Block "HOL-Library.Monad_Syntax"
begin

unbundle bit_operations_syntax

text \<open>
  The doubly linked free lists of \<^verbatim>\<open>mm/alloc/freelist.hpp\<close>. A node is the payload of a free block: its
  first word is \<open>next\<close>, its second \<open>prev\<close>. Blocks below 16 KiB are spread over eight lists by
  \<open>freelists_size2id\<close>; larger ones have a list of their own.

  The searches follow \<open>next\<close> until a null pointer, which memory alone does not promise: they are
  \<open>partial_function\<close>s, \<open>None\<close> meaning that the loop does not end. On memory that holds a list
  (\<open>dll\<close>) they return, which \<open>freelist_scan_dll\<close> states as an equation.

  \<open>dll c h ps\<close> says that from the head pointer \<open>h\<close> the list visits the nodes \<open>ps\<close>, and that every
  node but the first points back. The first node's \<open>prev\<close> is not constrained: detaching the head
  leaves it stale in the source.
\<close>

definition FREELIST_NUM :: nat where "FREELIST_NUM = 8"
definition FREELIST_MAXBLKSIZE :: u64 where "FREELIST_MAXBLKSIZE = 16384"

text \<open>\<^verbatim>\<open>__builtin_clz\<close> counts the leading zero bits of a 32-bit value.\<close>

definition clz32 :: "u32 \<Rightarrow> nat" where
  "clz32 w = length (takeWhile (\<lambda>i. \<not> bit w i) (rev [0..<32]))"

definition freelists_size2id :: "u64 \<Rightarrow> int" where
  "freelists_size2id s =
     (if s < 64 then 0
      else if s < 256 then 1
      else if s \<ge> FREELIST_MAXBLKSIZE then - 1
      else (32 - 9) - int (clz32 (ucast s)) + 2)"

definition freelist_detach :: "mem \<Rightarrow> u64 \<Rightarrow> u64 \<Rightarrow> u64 \<times> mem" where
  "freelist_detach m list p =
     (if list = p then (rd64 m p, m)
      else
        let m1 = (if rd64 m p \<noteq> 0 then wr64 m (rd64 m p + 8) (rd64 m (p + 8)) else m);
            m2 = (if rd64 m1 (p + 8) \<noteq> 0 then wr64 m1 (rd64 m1 (p + 8)) (rd64 m1 p) else m1)
        in (list, m2))"

definition freelists_detach :: "mem \<Rightarrow> u64 list \<Rightarrow> nat \<Rightarrow> u64 \<Rightarrow> u64 list \<times> mem" where
  "freelists_detach m fls idx p =
     (if fls ! idx = p then (fls[idx := rd64 m p], m)
      else
        let m1 = (if rd64 m p \<noteq> 0 then wr64 m (rd64 m p + 8) (rd64 m (p + 8)) else m);
            m2 = (if rd64 m1 (p + 8) \<noteq> 0 then wr64 m1 (rd64 m1 (p + 8)) (rd64 m1 p) else m1)
        in (fls, m2))"

partial_function (option) freelist_scan :: "(u64 \<Rightarrow> bool) \<Rightarrow> mem \<Rightarrow> u64 \<Rightarrow> u64 option" where
  "freelist_scan fits m list =
     (if list = 0 then Some 0
      else if fits list then Some list
      else freelist_scan fits m (rd64 m list))"

declare freelist_scan.simps [code]

definition freelist_take :: "(u64 \<Rightarrow> bool) \<Rightarrow> mem \<Rightarrow> u64 \<Rightarrow> (u64 \<times> u64 \<times> mem) option" where
  "freelist_take fits m list_p = do {
     list \<leftarrow> freelist_scan fits m list_p;
     if list = 0 then Some (0, list_p, m)
     else let (list_p', m') = freelist_detach m list_p list in Some (list, list_p', m') }"

function freelists_take ::
  "(u64 \<Rightarrow> bool) \<Rightarrow> mem \<Rightarrow> u64 list \<Rightarrow> nat \<Rightarrow> (u64 \<times> u64 list \<times> mem) option" where
  "freelists_take fits m fls idx =
     (if idx < FREELIST_NUM then do {
        list \<leftarrow> freelist_scan fits m (fls ! idx);
        if list \<noteq> 0 then (let (fls', m') = freelists_detach m fls idx list in Some (list, fls', m'))
        else freelists_take fits m fls (idx + 1) }
      else Some (0, fls, m))"
  by pat_completeness auto
termination
  by (relation "measure (\<lambda>(fits, m, fls, idx). FREELIST_NUM - idx)") auto

definition freelist_match :: "mem \<Rightarrow> u64 \<Rightarrow> u64 \<Rightarrow> (u64 \<times> u64 \<times> mem) option" where
  "freelist_match m list_p s = freelist_take (\<lambda>list. blk_size m list \<ge> s) m list_p"

definition freelists_match :: "mem \<Rightarrow> u64 list \<Rightarrow> u64 \<Rightarrow> (u64 \<times> u64 list \<times> mem) option" where
  "freelists_match m fls s =
     (let idx = freelists_size2id s in
      if idx < 0 then Some (0, fls, m)
      else freelists_take (\<lambda>list. blk_size m list \<ge> s) m fls (nat idx))"

definition PADDING_DOWN :: "u64 \<Rightarrow> u64 \<Rightarrow> u64" where
  "PADDING_DOWN s to = s div to * to"

definition PADDING_UP :: "u64 \<Rightarrow> u64 \<Rightarrow> u64" where
  "PADDING_UP s to = PADDING_DOWN (s + to - 1) to"

definition aligned_size_of :: "mem \<Rightarrow> u64 \<Rightarrow> u64 \<Rightarrow> int" where
  "aligned_size_of m p align = sint (blk_size m p - (PADDING_UP p align - p))"

definition freelist_aligned_match :: "mem \<Rightarrow> u64 \<Rightarrow> u64 \<Rightarrow> u64 \<Rightarrow> (u64 \<times> u64 \<times> mem) option" where
  "freelist_aligned_match m list_p s align =
     freelist_take (\<lambda>list. aligned_size_of m list align \<ge> sint s) m list_p"

definition freelists_aligned_match :: "mem \<Rightarrow> u64 list \<Rightarrow> u64 \<Rightarrow> u64 \<Rightarrow> (u64 \<times> u64 list \<times> mem) option" where
  "freelists_aligned_match m fls s align =
     (let idx = freelists_size2id s in
      if idx < 0 then Some (0, fls, m)
      else freelists_take (\<lambda>list. aligned_size_of m list align \<ge> sint s) m fls (nat idx))"

definition freelist_put :: "mem \<Rightarrow> u64 \<Rightarrow> u64 \<Rightarrow> u64 \<times> mem" where
  "freelist_put m list_p p =
     (let m1 = wr64 m p list_p;
          m2 = wr64 m1 (p + 8) 0;
          m3 = (if rd64 m2 p \<noteq> 0 then wr64 m2 (rd64 m2 p + 8) p else m2)
      in (p, m3))"

definition freelists_put :: "mem \<Rightarrow> u64 list \<Rightarrow> u64 \<Rightarrow> bool \<times> u64 list \<times> mem" where
  "freelists_put m fls p =
     (let s = blk_size m p; idx = freelists_size2id s in
      if idx < 0 then (False, fls, m)
      else
        let m1 = wr64 m p (fls ! nat idx);
            m2 = wr64 m1 (p + 8) 0;
            m3 = (if rd64 m2 p \<noteq> 0 then wr64 m2 (rd64 m2 p + 8) p else m2)
        in (True, fls[nat idx := p], m3))"

declare freelists_take.simps [simp del]

lemma freelists_detach_eq:
  "freelists_detach m fls idx p =
     (let (h, m') = freelist_detach m (fls ! idx) p in (fls[idx := h], m'))"
  by (simp add: freelists_detach_def freelist_detach_def Let_def)

lemma freelists_put_eq:
  "freelists_put m fls p =
     (let idx = freelists_size2id (blk_size m p) in
      if idx < 0 then (False, fls, m)
      else let (h, m') = freelist_put m (fls ! nat idx) p in (True, fls[nat idx := h], m'))"
  by (simp add: freelists_put_def freelist_put_def Let_def)

section \<open>Size classes\<close>

lemma bit_unat: "bit (w :: 'a::len word) n = bit (unat w) n"
  by (auto simp: bit_unsigned_iff)

lemma clz32_eq:
  assumes "j < 32" "2 ^ j \<le> unat w" "unat w < 2 ^ (j + 1)"
  shows "clz32 w = 31 - j"
proof -
  have "unat w div 2 ^ j = 1" using assms by (intro div_nat_eqI) simp_all
  then have top: "bit w j" by (simp add: bit_unat bit_iff_odd)
  have high: "\<not> bit w i" if "j < i" for i
  proof -
    have "(2 :: nat) ^ (j + 1) \<le> 2 ^ i" using that by (intro power_increasing) simp_all
    with assms(3) have "unat w div 2 ^ i = 0" by simp
    then show ?thesis by (simp add: bit_unat bit_iff_odd)
  qed
  have split: "[0..<32] = [0..<j] @ j # [Suc j..<32]"
    using assms(1) upt_add_eq_append [of 0 j "32 - j"] upt_conv_Cons [of j 32] by simp
  have "takeWhile (\<lambda>i. \<not> bit w i) (rev [0..<32]) = rev [Suc j..<32]"
    unfolding split using top high by (simp add: takeWhile_append)
  then show ?thesis unfolding clz32_def by simp
qed

lemma size2id_mid:
  assumes "8 \<le> j" "j < 14" "2 ^ j \<le> unat s" "unat s < 2 ^ (j + 1)"
  shows "freelists_size2id s = int j - 6"
proof -
  have lo: "256 \<le> unat s" using power_increasing [of 8 j "2 :: nat"] assms by simp
  have hi: "unat s < 16384" using power_increasing [of "j + 1" 14 "2 :: nat"] assms by simp
  have "unat (ucast s :: u32) = unat s"
    using hi by (simp add: unsigned_ucast_eq take_bit_nat_eq_self)
  then have "clz32 (ucast s) = 31 - j" using assms by (intro clz32_eq) simp_all
  then show ?thesis
    using lo hi assms(1,2) by (simp add: freelists_size2id_def FREELIST_MAXBLKSIZE_def
        word_less_nat_alt word_le_nat_alt)
qed

text \<open>The class of a block of \<open>n\<close> words; class 8 stands for the list of large blocks.\<close>

definition cls :: "nat \<Rightarrow> nat" where
  "cls n = (if n < 8 then 0 else if n < 32 then 1 else if n < 64 then 2 else if n < 128 then 3
            else if n < 256 then 4 else if n < 512 then 5 else if n < 1024 then 6
            else if n < 2048 then 7 else 8)"

lemma cls_mono: "i \<le> j \<Longrightarrow> cls i \<le> cls j"
  by (simp add: cls_def)

lemma cls_le: "cls n \<le> 8"
  by (simp add: cls_def)

lemma cls_large: "cls n = 8 \<longleftrightarrow> 2048 \<le> n"
  by (simp add: cls_def)

lemma size2id_adr:
  assumes "n < 2 ^ 61"
  shows "freelists_size2id (adr n) = (if cls n = 8 then - 1 else int (cls n))"
proof -
  note u = unat_adr [OF assms]
  consider "n < 8" | "8 \<le> n" "n < 32" | "2048 \<le> n" | "32 \<le> n" "n < 2048" by linarith
  then show ?thesis
  proof cases
    case 4
    have mid: "freelists_size2id (adr n) = int j - 6"
      if "8 \<le> j" "j < 14" "2 ^ j \<le> 8 * n" "8 * n < 2 ^ (j + 1)" for j
      using that by (intro size2id_mid) (simp_all add: u)
    have "(32 \<le> n \<and> n < 64) \<or> (64 \<le> n \<and> n < 128) \<or> (128 \<le> n \<and> n < 256) \<or>
      (256 \<le> n \<and> n < 512) \<or> (512 \<le> n \<and> n < 1024) \<or> (1024 \<le> n \<and> n < 2048)"
      using 4 by linarith
    then show ?thesis
      using mid [of 8] mid [of 9] mid [of 10] mid [of 11] mid [of 12] mid [of 13]
      by (auto simp: cls_def)
  qed (simp_all add: freelists_size2id_def cls_def word_less_nat_alt word_le_nat_alt u
      FREELIST_MAXBLKSIZE_def)
qed

section \<open>Doubly linked lists\<close>

fun dll :: "(nat \<Rightarrow> u64) \<Rightarrow> u64 \<Rightarrow> nat list \<Rightarrow> bool" where
  "dll c h [] = (h = 0)"
| "dll c h (p # ps) = (h = adr p \<and> (case ps of [] \<Rightarrow> True | q # _ \<Rightarrow> c (q + 1) = adr p) \<and> dll c (c p) ps)"

definition links :: "nat set \<Rightarrow> nat set" where
  "links S = S \<union> Suc ` S"

text \<open>Nodes are even cells, so the two links of different nodes never overlap.\<close>

definition nodes_ok :: "nat set \<Rightarrow> bool" where
  "nodes_ok S \<longleftrightarrow> (\<forall>p\<in>S. even p \<and> 0 < p \<and> p + 1 < 2 ^ 61)"

lemma nodes_ok_simps [simp]:
  "nodes_ok {}" "nodes_ok (insert p S) = (even p \<and> 0 < p \<and> p + 1 < 2 ^ 61 \<and> nodes_ok S)"
  "nodes_ok (A \<union> B) = (nodes_ok A \<and> nodes_ok B)"
  by (auto simp: nodes_ok_def)

lemma nodes_ok_subset: "nodes_ok S \<Longrightarrow> T \<subseteq> S \<Longrightarrow> nodes_ok T"
  by (auto simp: nodes_ok_def)

lemma links_simps [simp]: "links {} = {}" "links (insert p S) = {p, p + 1} \<union> links S"
  "links (A \<union> B) = links A \<union> links B"
  by (auto simp: links_def)

lemma links_mono: "A \<subseteq> B \<Longrightarrow> links A \<subseteq> links B"
  by (auto simp: links_def)

lemma not_in_links:
  "nodes_ok S \<Longrightarrow> even p \<Longrightarrow> p \<notin> S \<Longrightarrow> p \<notin> links S \<and> Suc p \<notin> links S"
  by (auto simp: links_def nodes_ok_def)

lemma links_disjoint: "nodes_ok A \<Longrightarrow> nodes_ok B \<Longrightarrow> A \<inter> B = {} \<Longrightarrow> links A \<inter> links B = {}"
  by (auto simp: links_def nodes_ok_def)

lemma dll_cong: "(\<And>x. x \<in> links (set ps) \<Longrightarrow> c x = c' x) \<Longrightarrow> dll c h ps = dll c' h ps"
  by (induction c h ps rule: dll.induct) (auto split: list.splits)

lemma dll_scan:
  "dll (cells m) h ps \<Longrightarrow> nodes_ok (set ps) \<Longrightarrow>
   freelist_scan fits m h = Some (case List.find (\<lambda>p. fits (adr p)) ps of None \<Rightarrow> 0 | Some p \<Rightarrow> adr p)"
  by (induction ps arbitrary: h) (auto simp: freelist_scan.simps rd64_adr)

lemma dll_head_prev:
  assumes "Suc q \<notin> links (set qs)"
  shows "dll (c(Suc q := v)) h (q # qs) = dll c h (q # qs)"
proof -
  have rest: "dll (c(Suc q := v)) x qs = dll c x qs" for x
    using assms by (intro dll_cong) auto
  show ?thesis
  proof (cases qs)
    case (Cons r rs)
    then have "r \<noteq> q" using assms by (auto simp: links_def)
    with rest Cons show ?thesis by (simp del: dll.simps add: dll.simps(2) [of _ _ q])
  qed simp
qed

lemma dll_Cons2: "dll c h (p # q # qs) = (h = adr p \<and> c (Suc q) = adr p \<and> dll c (c p) (q # qs))"
  by simp

lemma dll_put:
  assumes "dll (cells m) h ps" "nodes_ok (insert p (set ps))" "p \<notin> set ps" "distinct ps"
  defines "r \<equiv> freelist_put m h (adr p)"
  shows "fst r = adr p" "dll (cells (snd r)) (adr p) (p # ps)"
    "\<And>x. x \<notin> links (insert p (set ps)) \<Longrightarrow> cells (snd r) x = cells m x"
proof -
  have p: "even p" "0 < p" "p + 1 < 2 ^ 61" using assms(2) by auto
  show "fst r = adr p" by (simp add: r_def freelist_put_def Let_def)
  have np: "p \<notin> links (set ps)" "Suc p \<notin> links (set ps)"
    using not_in_links [of "set ps" p] assms(2,3) p by auto
  have "dll (cells (snd r)) (adr p) (p # ps) \<and>
     (\<forall>x. x \<notin> links (insert p (set ps)) \<longrightarrow> cells (snd r) x = cells m x)"
  proof (cases ps)
    case Nil
    then have "cells (snd r) = (cells m)(p := 0, p + 1 := 0)"
      using assms(1) p by (simp add: r_def freelist_put_def Let_def cell_simps)
    with Nil show ?thesis by simp
  next
    case (Cons q qs)
    then have h: "h = adr q" and q: "even q" "0 < q" "q + 1 < 2 ^ 61" "q \<noteq> p"
      using assms by auto
    have c: "cells (snd r) = (cells m)(p := adr q, Suc p := 0, Suc q := adr p)"
      using p q h by (simp add: r_def freelist_put_def Let_def cell_simps)
    have "Suc q \<notin> links (set qs)"
      using not_in_links [of "set qs" q] assms(2,4) q Cons by auto
    then have "dll (cells (snd r)) h ps = dll ((cells m)(p := adr q, Suc p := 0)) h ps"
      unfolding c Cons by (rule dll_head_prev)
    also have "\<dots> = dll (cells m) h ps" using np by (intro dll_cong) auto
    finally have "dll (cells (snd r)) h ps" using assms(1) by simp
    moreover have "cells (snd r) p = adr q" "cells (snd r) (q + 1) = adr p" unfolding c using p q by auto
    ultimately have "dll (cells (snd r)) (adr p) (p # ps)" using Cons h by simp
    moreover have "\<forall>x. x \<notin> links (insert p (set ps)) \<longrightarrow> cells (snd r) x = cells m x"
      unfolding c Cons by simp
    ultimately show ?thesis by blast
  qed
  then show "dll (cells (snd r)) (adr p) (p # ps)"
    "\<And>x. x \<notin> links (insert p (set ps)) \<Longrightarrow> cells (snd r) x = cells m x" by auto
qed

definition relink :: "(nat \<Rightarrow> u64) \<Rightarrow> nat \<Rightarrow> u64 \<Rightarrow> nat list \<Rightarrow> nat \<Rightarrow> u64" where
  "relink c r nxt ys = (case ys of [] \<Rightarrow> c(r := nxt) | q # _ \<Rightarrow> c(Suc q := adr r, r := nxt))"

lemma dll_relink:
  "dll c h (zs @ r # p # ys) \<Longrightarrow> nodes_ok (set (zs @ r # p # ys)) \<Longrightarrow> distinct (zs @ r # p # ys) \<Longrightarrow>
   c p = nxt \<Longrightarrow> dll (relink c r nxt ys) h (zs @ r # ys)"
proof (induction zs arbitrary: h)
  case Nil
  have r: "r \<notin> links (set ys)" using not_in_links [of "set ys" r] Nil.prems by auto
  have h: "h = adr r" and nd: "dll c nxt ys" using Nil.prems by auto
  show ?case
  proof (cases ys)
    case Nil
    with nd h show ?thesis by (simp add: relink_def)
  next
    case (Cons q qs)
    have "Suc q \<notin> links (set qs)" using not_in_links [of "set qs" q] Nil.prems Cons by auto
    then have "dll (relink c r nxt ys) nxt ys = dll (c(r := nxt)) nxt ys"
      using dll_head_prev [of q qs "c(r := nxt)" "adr r" nxt] r Cons
      by (simp add: relink_def fun_upd_twist del: dll.simps)
    also have "\<dots> = dll c nxt ys" using r by (intro dll_cong) auto
    finally have *: "dll (relink c r nxt ys) nxt ys" using nd by simp
    have "relink c r nxt ys r = nxt" "relink c r nxt ys (Suc q) = adr r"
      using r Cons by (auto simp: relink_def)
    with * h show ?thesis unfolding append_Nil Cons dll_Cons2 by (simp only: simp_thms)
  qed
next
  case (Cons z zs)
  obtain n ns where n: "zs @ r # ys = n # ns" by (cases "zs @ r # ys") auto
  obtain ns' where n': "zs @ r # p # ys = n # ns'" using n by (cases zs) auto
  have ev: "even z" "z \<noteq> r" "even r" "\<forall>y\<in>set ys. even y" using Cons.prems by (auto simp: nodes_ok_def)
  have evh: "even (hd ys)" if "ys \<noteq> []" using ev(4) that by simp
  have z: "relink c r nxt ys z = c z" using ev(1,2) evh by (cases ys) (auto simp: relink_def)
  have "even n" "n \<notin> set ys"
    using n n' Cons.prems by (cases zs; auto simp: nodes_ok_def)+
  then have sn: "relink c r nxt ys (Suc n) = c (Suc n)"
    using ev(3) by (cases ys) (auto simp: relink_def)
  have c: "c (Suc n) = adr z" "h = adr z" "dll c (c z) (zs @ r # p # ys)"
    using Cons.prems(1) n' by auto
  have "dll (relink c r nxt ys) (c z) (zs @ r # ys)"
    using Cons.prems c(3) by (intro Cons.IH) auto
  then show ?case using z sn c(1,2) n by simp
qed

lemma detach_relink:
  assumes "dll (cells m) h (zs @ r # p # ys)" "nodes_ok (set (zs @ r # p # ys))" "distinct (zs @ r # p # ys)"
  shows "fst (freelist_detach m h (adr p)) = h"
    "cells (snd (freelist_detach m h (adr p))) = relink (cells m) r (cells m p) ys"
proof -
  have ok: "0 < r" "r + 1 < 2 ^ 61" "even r" "0 < p" "p + 1 < 2 ^ 61" "even p" "r \<noteq> p"
    "\<And>y. y \<in> set ys \<Longrightarrow> y \<noteq> p \<and> y \<noteq> r \<and> even y \<and> 0 < y \<and> y + 1 < 2 ^ 61"
    using assms(2,3) by (auto simp: nodes_ok_def)
  have mid: "cells m (Suc p) = adr r" "dll (cells m) (cells m p) ys"
    using assms(1) by (induction zs arbitrary: h) auto
  have "h \<noteq> adr p"
    using assms by (cases zs) auto
  note d = this [THEN not_sym] freelist_detach_def Let_def cell_simps mid(1) relink_def
  show "fst (freelist_detach m h (adr p)) = h" using d(1) by (auto simp: freelist_detach_def Let_def)
  show "cells (snd (freelist_detach m h (adr p))) = relink (cells m) r (cells m p) ys"
  proof (cases ys)
    case Nil
    then have "cells m p = 0" using mid(2) by simp
    with ok(1-7) Nil d(1) \<open>h \<noteq> adr p\<close> show ?thesis by (simp add: d(2-))
  next
    case (Cons q qs)
    then have q: "q \<noteq> p" "q \<noteq> r" "even q" "0 < q" "q + 1 < 2 ^ 61" using ok(8) by auto
    have "p \<noteq> Suc q" "r \<noteq> Suc q" using q(3) ok(3,6) by auto
    moreover have "cells m p = adr q" using mid(2) Cons by simp
    ultimately show ?thesis
      using ok(1-7) q Cons \<open>h \<noteq> adr p\<close> by (simp add: d(2-))
  qed
qed

lemma relink_out: "x \<notin> links (insert r (set ys)) \<Longrightarrow> relink c r v ys x = c x"
  by (auto simp: relink_def links_def split: list.splits)

lemma dll_detach:
  assumes "dll (cells m) h ps" "nodes_ok (set ps)" "distinct ps" "p \<in> set ps"
  defines "r \<equiv> freelist_detach m h (adr p)"
  shows "dll (cells (snd r)) (fst r) (remove1 p ps)"
    "\<And>x. x \<notin> links (set ps - {p}) \<Longrightarrow> cells (snd r) x = cells m x"
proof -
  have p: "p + 1 < 2 ^ 61" using assms(2,4) by (auto simp: nodes_ok_def)
  obtain zs ys where ps: "ps = zs @ p # ys" "p \<notin> set zs" using split_list_first [OF assms(4)] by blast
  have rm: "remove1 p ps = zs @ ys" using ps by (simp add: remove1_append)
  have "dll (cells (snd r)) (fst r) (zs @ ys) \<and> (\<forall>x. x \<notin> links (set ps - {p}) \<longrightarrow> cells (snd r) x = cells m x)"
  proof (cases zs rule: rev_cases)
    case Nil
    then have "h = adr p" "r = (cells m p, m)"
      using assms(1) ps p by (auto simp: r_def freelist_detach_def rd64_adr)
    with Nil assms(1) ps show ?thesis by simp
  next
    case (snoc zs' z)
    then have e: "ps = zs' @ z # p # ys" using ps by simp
    note D = detach_relink [OF assms(1-3) [unfolded e], folded r_def]
    have "dll (cells (snd r)) (fst r) (zs' @ z # ys)"
      unfolding D using assms(1-3) by (intro dll_relink [of _ _ _ _ p]) (simp_all add: e)
    moreover have "links (insert z (set ys)) \<subseteq> links (set ps - {p})"
      using assms(3) by (intro links_mono) (auto simp: e)
    moreover have "cells (snd r) x = cells m x" if "x \<notin> links (set ps - {p})" for x
      using that calculation(2) unfolding D(2) by (intro relink_out) blast
    ultimately show ?thesis using snoc by simp
  qed
  then show "dll (cells (snd r)) (fst r) (remove1 p ps)"
    "\<And>x. x \<notin> links (set ps - {p}) \<Longrightarrow> cells (snd r) x = cells m x" unfolding rm by auto
qed

section \<open>Searching the lists\<close>

text \<open>A search in one list finds the first node that fits and detaches it.\<close>

lemma freelist_take_dll:
  assumes "dll (cells m) h ps" "nodes_ok (set ps)"
  shows "freelist_take fits m h = Some (case List.find (\<lambda>p. fits (adr p)) ps of
      None \<Rightarrow> (0, h, m) | Some p \<Rightarrow> (adr p, freelist_detach m h (adr p)))"
proof (cases "List.find (\<lambda>p. fits (adr p)) ps")
  case None
  with dll_scan [OF assms] show ?thesis by (simp add: freelist_take_def)
next
  case (Some p)
  then have "p \<in> set ps" by (auto simp: find_Some_iff)
  with assms(2) have "adr p \<noteq> 0" by (auto simp: nodes_ok_def)
  with dll_scan [OF assms] Some show ?thesis by (simp add: freelist_take_def split_beta)
qed

text \<open>A search over the size classes starts at the class of the request and goes up.\<close>

definition miss :: "(u64 \<Rightarrow> bool) \<Rightarrow> (nat \<Rightarrow> nat list) \<Rightarrow> nat \<Rightarrow> bool" where
  "miss fits fl idx \<longleftrightarrow> (\<forall>i p. idx \<le> i \<longrightarrow> i < FREELIST_NUM \<longrightarrow> p \<in> set (fl i) \<longrightarrow> \<not> fits (adr p))"

lemma freelists_take_dlls:
  assumes "\<And>i. i < FREELIST_NUM \<Longrightarrow> dll (cells m) (fls ! i) (fl i) \<and> nodes_ok (set (fl i))"
  shows "(miss fits fl idx \<and> freelists_take fits m fls idx = Some (0, fls, m)) \<or>
    (\<exists>i p. idx \<le> i \<and> i < FREELIST_NUM \<and> p \<in> set (fl i) \<and> fits (adr p) \<and>
       freelists_take fits m fls idx = Some (adr p, freelists_detach m fls i (adr p)))"
proof (induction "FREELIST_NUM - idx" arbitrary: idx)
  case 0
  then show ?case by (auto simp: freelists_take.simps [of fits m fls idx] miss_def)
next
  case (Suc k)
  then have lt: "idx < FREELIST_NUM" by simp
  note sc = dll_scan [where fits = fits, OF conjunct1 [OF assms [OF lt]] conjunct2 [OF assms [OF lt]]]
  show ?case
  proof (cases "List.find (\<lambda>p. fits (adr p)) (fl idx)")
    case None
    then have no: "\<not> fits (adr p)" if "p \<in> set (fl idx)" for p using that by (auto simp: find_None_iff)
    have eq: "freelists_take fits m fls idx = freelists_take fits m fls (idx + 1)"
      using None lt sc by (simp add: freelists_take.simps [of fits m fls idx])
    have mi: "miss fits fl idx" if "miss fits fl (idx + 1)"
      using that no unfolding miss_def by (metis Suc_eq_plus1 Suc_leI le_neq_implies_less)
    have "k = FREELIST_NUM - (idx + 1)" using Suc.hyps(2) by simp
    from Suc.hyps(1) [OF this] show ?thesis unfolding eq using mi by (meson add_leD1)
  next
    case (Some p)
    then have p: "p \<in> set (fl idx)" "fits (adr p)" by (auto simp: find_Some_iff)
    then have "adr p \<noteq> 0" using assms [OF lt] by (auto simp: nodes_ok_def)
    with Some lt sc have "freelists_take fits m fls idx = Some (adr p, freelists_detach m fls idx (adr p))"
      by (simp add: freelists_take.simps [of fits m fls idx] split_beta)
    with p lt show ?thesis by blast
  qed
qed

end
