(* ===== verification/Pool.thy ===== *)
theory Pool
  imports Freelist
begin

unbundle bit_operations_syntax

text \<open>
  The memory pool behind the kernel heap (\<^verbatim>\<open>mm/heap/pool.cpp\<close>).

  A pool manages one area of boundary-tag blocks. Its free blocks are in eight lists by size class and
  one list for blocks of 16 KiB and more. The pool structure is the record \<open>mpool\<close>; the area itself,
  headers and list links included, is in the byte memory, and every operation takes and returns both.
  A null \<open>mpool_t\<close> is \<open>None\<close> where the source tests for it. The two callbacks, which the embedder
  supplies, are fields of the record and may change memory. Operations that walk a free list are in the option
  monad, \<open>None\<close> being a walk that never ends.

  The second half states when a pool is in order. \<open>pool_inv a bs pl m\<close>: memory holds an area at cell
  \<open>a\<close> tiled by the blocks \<open>bs\<close>, and the nine lists hold exactly the free blocks, each in the
  list of its size class. Every operation is then a change of \<open>bs\<close>.
\<close>

record mpool =
  mp_ptr :: u64
  mp_size :: u64
  mp_alloced_size :: u64
  mp_cb_reqmem :: "(u64 \<Rightarrow> u64 \<Rightarrow> mem \<Rightarrow> u64 \<times> mem) option"
  mp_cb_delmem :: "(u64 \<Rightarrow> u64 \<Rightarrow> mem \<Rightarrow> mem) option"
  mp_large_blk :: u64
  mp_freed :: "u64 list"

type_synonym pmem = "mpool \<times> mem"

definition pool_detach :: "pmem \<Rightarrow> u64 \<Rightarrow> pmem" where
  "pool_detach pm p =
     (let pool = fst pm; m = snd pm; idx = freelists_size2id (blk_size m p) in
      if idx < 0 then
        let (h, m') = freelist_detach m (mp_large_blk pool) p in (pool\<lparr>mp_large_blk := h\<rparr>, m')
      else
        let (fls, m') = freelists_detach m (mp_freed pool) (nat idx) p in (pool\<lparr>mp_freed := fls\<rparr>, m'))"

definition put_large :: "pmem \<Rightarrow> u64 \<Rightarrow> pmem" where
  "put_large pm p =
     (let (h, m') = freelist_put (snd pm) (mp_large_blk (fst pm)) p in ((fst pm)\<lparr>mp_large_blk := h\<rparr>, m'))"

definition mpool_init :: "mpool option \<Rightarrow> u64 \<Rightarrow> u64 \<Rightarrow> mem \<Rightarrow> bool \<times> mpool option \<times> mem" where
  "mpool_init pool p s m =
     (if pool = None \<or> p = 0 \<or> s = 0 then (False, pool, m)
      else if s AND (2 * 8 - 1) \<noteq> 0 then (False, pool, m)
      else
        let pl = \<lparr>mp_ptr = p, mp_size = s, mp_alloced_size = 0, mp_cb_reqmem = None, mp_cb_delmem = None,
                  mp_large_blk = 0, mp_freed = replicate FREELIST_NUM 0\<rparr>;
            m1 = allocarea_init m p s 0;
            (pl', m2) = put_large (pl, m1) (p + 2 * 8)
        in (True, Some pl', m2))"

definition mpool_deinit :: "mpool option \<Rightarrow> mem \<Rightarrow> mpool option \<times> mem" where
  "mpool_deinit pool m =
     (case pool of None \<Rightarrow> (None, m)
      | Some pl \<Rightarrow>
          (Some \<lparr>mp_ptr = 0, mp_size = 0, mp_alloced_size = 0, mp_cb_reqmem = None, mp_cb_delmem = None,
                 mp_large_blk = 0, mp_freed = replicate FREELIST_NUM 0\<rparr>,
           case mp_cb_delmem pl of None \<Rightarrow> m | Some f \<Rightarrow> f (mp_ptr pl) (mp_size pl) m))"

definition mpool_alloced_size :: "mpool option \<Rightarrow> u64" where
  "mpool_alloced_size pool = (case pool of None \<Rightarrow> 0 | Some pl \<Rightarrow> mp_alloced_size pl)"

definition mpool_total_size :: "mpool option \<Rightarrow> u64" where
  "mpool_total_size pool = (case pool of None \<Rightarrow> 0 | Some pl \<Rightarrow> mp_size pl)"

definition mpool_setcb ::
  "mpool option \<Rightarrow> (u64 \<Rightarrow> u64 \<Rightarrow> mem \<Rightarrow> u64 \<times> mem) option \<Rightarrow> (u64 \<Rightarrow> u64 \<Rightarrow> mem \<Rightarrow> mem) option \<Rightarrow> mpool option" where
  "mpool_setcb pool reqmem delmem =
     (case pool of None \<Rightarrow> None | Some pl \<Rightarrow> Some (pl\<lparr>mp_cb_reqmem := reqmem, mp_cb_delmem := delmem\<rparr>))"

definition mpool_reqmem :: "pmem \<Rightarrow> u64 \<Rightarrow> bool \<times> pmem" where
  "mpool_reqmem pm s =
     (let pool = fst pm in
      case mp_cb_reqmem pool of
        None \<Rightarrow> (False, pm)
      | Some reqmem \<Rightarrow>
          let memsize = PADDING_16k s;
              (mem, m1) = reqmem (mp_ptr pool + mp_size pool) memsize (snd pm)
          in
          if mem = 0 then (False, pool, m1)
          else if mem \<noteq> mp_ptr pool then
            (False, pool, case mp_cb_delmem pool of None \<Rightarrow> m1 | Some delmem \<Rightarrow> delmem mem memsize m1)
          else
            let (p1, m2) = allocarea_reinit m1 (mp_ptr pool) (mp_size pool) (mp_size pool + memsize);
                pool2 = pool\<lparr>mp_size := mp_size pool + memsize\<rparr>;
                (p2, pool3, m3) = blk_trymerge p1 (Some pool_detach) (pool2, m2);
                m4 = blk_setfreed m3 p2 (blk_size m3 p2)
            in (True, put_large (pool3, m4) p2))"

definition do_free :: "pmem \<Rightarrow> u64 \<Rightarrow> pmem" where
  "do_free pm p =
     (let m1 = blk_setfreed (snd pm) p (blk_size (snd pm) p);
          (puted, fls, m2) = freelists_put m1 (mp_freed (fst pm)) p;
          pm' = ((fst pm)\<lparr>mp_freed := fls\<rparr>, m2)
      in if \<not> puted then put_large pm' p else pm')"

definition try_split_and_free :: "pmem \<Rightarrow> u64 \<Rightarrow> u64 \<Rightarrow> bool \<times> pmem" where
  "try_split_and_free pm p s =
     (if blk_size (snd pm) p \<ge> s + 8 * 8
      then let (new_ptr, m') = blk_split (snd pm) p s in (True, do_free (fst pm, m') new_ptr)
      else (False, pm))"

text \<open>The two list searches the allocation functions try in turn: \<^verbatim>\<open>a ?: b\<close> runs the second when the first
  gives a null pointer.\<close>

definition pool_match_small :: "pmem \<Rightarrow> u64 \<Rightarrow> (u64 \<times> pmem) option" where
  "pool_match_small pm s = do {
     (p, fls, m') \<leftarrow> freelists_match (snd pm) (mp_freed (fst pm)) s;
     Some (p, (fst pm)\<lparr>mp_freed := fls\<rparr>, m') }"

definition pool_match_large :: "pmem \<Rightarrow> u64 \<Rightarrow> (u64 \<times> pmem) option" where
  "pool_match_large pm s = do {
     (p, h, m') \<leftarrow> freelist_match (snd pm) (mp_large_blk (fst pm)) s;
     Some (p, (fst pm)\<lparr>mp_large_blk := h\<rparr>, m') }"

definition pool_match :: "pmem \<Rightarrow> u64 \<Rightarrow> (u64 \<times> pmem) option" where
  "pool_match pm s = do {
     (p, pm1) \<leftarrow> pool_match_small pm s;
     if p \<noteq> 0 then Some (p, pm1) else pool_match_large pm1 s }"

definition take_blk :: "pmem \<Rightarrow> u64 \<Rightarrow> u64 \<Rightarrow> u64 \<times> pmem" where
  "take_blk pm p s =
     (let (_, pm1) = try_split_and_free pm p s;
          sz = blk_size (snd pm1) p;
          m2 = blk_setalloced (snd pm1) p sz
      in (p, (fst pm1)\<lparr>mp_alloced_size := mp_alloced_size (fst pm1) + sz\<rparr>, m2))"

definition req_size :: "u64 \<Rightarrow> u64" where
  "req_size s = (if s = 0 then 2 * 8 else PADDING s)"

definition mpool_alloc :: "pmem \<Rightarrow> u64 \<Rightarrow> (u64 \<times> pmem) option" where
  "mpool_alloc pm s0 = do {
     let s = req_size s0;
     (p, pm1) \<leftarrow> pool_match pm s;
     if p = 0 then
       (let (ok, pm2) = mpool_reqmem pm1 s in
        if \<not> ok then Some (0, pm2)
        else do { (p', pm3) \<leftarrow> pool_match_large pm2 s; Some (take_blk pm3 p' s) })
     else Some (take_blk pm1 p s) }"

definition pool_aligned_match_large :: "pmem \<Rightarrow> u64 \<Rightarrow> u64 \<Rightarrow> (u64 \<times> pmem) option" where
  "pool_aligned_match_large pm s align = do {
     (p, h, m') \<leftarrow> freelist_aligned_match (snd pm) (mp_large_blk (fst pm)) s align;
     Some (p, (fst pm)\<lparr>mp_large_blk := h\<rparr>, m') }"

definition pool_aligned_match :: "pmem \<Rightarrow> u64 \<Rightarrow> u64 \<Rightarrow> (u64 \<times> pmem) option" where
  "pool_aligned_match pm s align = do {
     (p, fls, m') \<leftarrow> freelists_aligned_match (snd pm) (mp_freed (fst pm)) s align;
     let pm1 = ((fst pm)\<lparr>mp_freed := fls\<rparr>, m');
     if p \<noteq> 0 then Some (p, pm1) else pool_aligned_match_large pm1 s align }"

definition aligned_take :: "pmem \<Rightarrow> u64 \<Rightarrow> u64 \<Rightarrow> u64 \<Rightarrow> u64 \<times> pmem" where
  "aligned_take pm p s align =
     (let offset = PADDING_UP p align - p in
      if offset > 0 then
        let (new_ptr, m1) = blk_split (snd pm) p (offset - 2 * 8)
        in take_blk (do_free (fst pm, m1) p) new_ptr s
      else take_blk pm p s)"

definition mpool_aligned_alloc :: "pmem \<Rightarrow> u64 \<Rightarrow> u64 \<Rightarrow> (u64 \<times> pmem) option" where
  "mpool_aligned_alloc pm s0 align =
     (if align AND (align - 1) \<noteq> 0 then Some (0, pm)
      else if align < 2 * 8 then mpool_alloc pm s0
      else do {
        let s = req_size s0;
        (p, pm1) \<leftarrow> pool_aligned_match pm s align;
        if p = 0 then
          (let (ok, pm2) = mpool_reqmem pm1 (s + align) in
           if \<not> ok then Some (0, pm2)
           else do { (p', pm3) \<leftarrow> pool_aligned_match_large pm2 s align; Some (aligned_take pm3 p' s align) })
        else Some (aligned_take pm1 p s align) })"

definition mpool_free :: "pmem \<Rightarrow> u64 \<Rightarrow> pmem" where
  "mpool_free pm p =
     (if p = 0 then pm
      else
        let pool1 = (fst pm)\<lparr>mp_alloced_size := mp_alloced_size (fst pm) - blk_size (snd pm) p\<rparr>;
            (p', pm') = blk_trymerge p (Some pool_detach) (pool1, snd pm)
        in do_free pm' p')"

definition mpool_msize :: "pmem \<Rightarrow> u64 \<Rightarrow> u64" where
  "mpool_msize pm p = (if p = 0 then 0 else blk_size (snd pm) p)"

text \<open>What the two \<open>realloc\<close> functions share: reuse the block, grow into a free successor, or \<open>None\<close>.\<close>

definition realloc_in_place :: "pmem \<Rightarrow> u64 \<Rightarrow> u64 \<Rightarrow> (u64 \<times> pmem) option" where
  "realloc_in_place pm p newsize =
     (let m = snd pm; sz = blk_size m p in
      if sz \<ge> newsize then Some (p, snd (try_split_and_free pm p newsize))
      else
        let nxt = blk_next m p in
        if nxt \<noteq> 0 \<and> blk_freed m nxt \<and> sz + 2 * 8 + blk_size m nxt \<ge> newsize then
          let (p', pm') = blk_mergenext p (Some pool_detach) pm
          in Some (p', snd (try_split_and_free pm' p' newsize))
        else None)"

definition mpool_realloc :: "pmem \<Rightarrow> u64 \<Rightarrow> u64 \<Rightarrow> (u64 \<times> pmem) option" where
  "mpool_realloc pm p newsize0 =
     (if p = 0 then mpool_alloc pm newsize0
      else
        let newsize = req_size newsize0; sz = blk_size (snd pm) p in
        case realloc_in_place pm p newsize of
          Some r \<Rightarrow> Some r
        | None \<Rightarrow> do {
            (new_ptr, pl1, m1) \<leftarrow> mpool_alloc pm newsize;
            Some (new_ptr, mpool_free (pl1, memcpy m1 new_ptr p sz) p) })"

definition mpool_aligned_realloc :: "pmem \<Rightarrow> u64 \<Rightarrow> u64 \<Rightarrow> u64 \<Rightarrow> (u64 \<times> pmem) option" where
  "mpool_aligned_realloc pm p newsize0 align =
     (if p = 0 then mpool_aligned_alloc pm newsize0 align
      else if align AND (align - 1) \<noteq> 0 then Some (0, pm)
      else if align < 2 * 8 then mpool_realloc pm p newsize0
      else
        let newsize = req_size newsize0; sz = blk_size (snd pm) p in
        case realloc_in_place pm p newsize of
          Some r \<Rightarrow> Some r
        | None \<Rightarrow> do {
            (new_ptr, pl1, m1) \<leftarrow> mpool_aligned_alloc pm newsize align;
            Some (new_ptr, mpool_free (pl1, memcpy m1 new_ptr p sz) p) })"

section \<open>The nine lists together\<close>

text \<open>List 8 is the list of large blocks. \<open>N\<close> maps each listed node to the index of its list.\<close>

definition pool_head :: "mpool \<Rightarrow> nat \<Rightarrow> u64" where
  "pool_head pl i = (if i < 8 then mp_freed pl ! i else mp_large_blk pl)"

definition set_head :: "mpool \<Rightarrow> nat \<Rightarrow> u64 \<Rightarrow> mpool" where
  "set_head pl i h = (if i < 8 then pl\<lparr>mp_freed := (mp_freed pl)[i := h]\<rparr> else pl\<lparr>mp_large_blk := h\<rparr>)"

definition members :: "(nat \<rightharpoonup> nat) \<Rightarrow> nat \<Rightarrow> nat set" where
  "members N i = {p. N p = Some i}"

definition flists :: "(nat \<Rightarrow> u64) \<Rightarrow> mpool \<Rightarrow> (nat \<rightharpoonup> nat) \<Rightarrow> bool" where
  "flists c pl N \<longleftrightarrow> length (mp_freed pl) = 8 \<and> nodes_ok (dom N) \<and> ran N \<subseteq> {..8} \<and>
     (\<forall>i\<le>8. \<exists>ps. dll c (pool_head pl i) ps \<and> distinct ps \<and> set ps = members N i)"

lemma set_head_fields [simp]:
  "mp_ptr (set_head pl i h) = mp_ptr pl" "mp_size (set_head pl i h) = mp_size pl"
  "mp_alloced_size (set_head pl i h) = mp_alloced_size pl"
  "mp_cb_reqmem (set_head pl i h) = mp_cb_reqmem pl" "mp_cb_delmem (set_head pl i h) = mp_cb_delmem pl"
  "length (mp_freed (set_head pl i h)) = length (mp_freed pl)"
  by (simp_all add: set_head_def)

lemma pool_head_set:
  "i \<le> 8 \<Longrightarrow> j \<le> 8 \<Longrightarrow> length (mp_freed pl) = 8 \<Longrightarrow>
   pool_head (set_head pl i h) j = (if j = i then h else pool_head pl j)"
  by (auto simp: pool_head_def set_head_def)

lemma members_dom: "members N i \<subseteq> dom N"
  by (auto simp: members_def)

lemma members_disjoint: "i \<noteq> j \<Longrightarrow> members N i \<inter> members N j = {}"
  by (auto simp: members_def)

lemma flistsE:
  assumes "flists c pl N" "i \<le> 8"
  obtains ps where "dll c (pool_head pl i) ps" "distinct ps" "set ps = members N i" "nodes_ok (set ps)"
  using assms nodes_ok_subset [OF _ members_dom] unfolding flists_def by metis

lemma flists_cong:
  assumes "flists c pl N" "\<And>x. x \<in> links (dom N) \<Longrightarrow> c' x = c x"
  shows "flists c' pl N"
proof -
  have "dll c' h ps = dll c h ps" if "set ps = members N i" for h ps i
    using that members_dom [of N i] by (intro dll_cong assms(2)) (auto simp: links_def)
  with assms(1) show ?thesis unfolding flists_def by metis
qed

lemma flists_fields:
  "mp_freed pl' = mp_freed pl \<Longrightarrow> mp_large_blk pl' = mp_large_blk pl \<Longrightarrow> flists c pl' N = flists c pl N"
  by (simp add: flists_def pool_head_def)

lemma flists_update:
  assumes fl: "flists c pl N" and i: "i \<le> 8"
    and ps: "dll c' h ps" "distinct ps" "set ps = members N' i"
    and N': "nodes_ok (dom N')" "\<And>j. j \<noteq> i \<Longrightarrow> members N' j = members N j"
    and out: "\<And>x. x \<notin> links (members N i \<union> members N' i) \<Longrightarrow> c' x = c x"
  shows "flists c' (set_head pl i h) N'"
  unfolding flists_def
proof (intro conjI allI impI)
  have len: "length (mp_freed pl) = 8" using fl by (simp add: flists_def)
  then show "length (mp_freed (set_head pl i h)) = 8" by simp
  show "nodes_ok (dom N')" by (rule N')
  show "ran N' \<subseteq> {..8}"
  proof
    fix j assume j: "j \<in> ran N'"
    then obtain p where p: "p \<in> members N' j" by (auto simp: ran_def members_def)
    show "j \<in> {..8}"
    proof (cases "j = i")
      case False
      with p N'(2) have "j \<in> ran N" by (auto simp: ran_def members_def)
      with fl show ?thesis by (auto simp: flists_def)
    qed (use i in simp)
  qed
  fix j :: nat assume j: "j \<le> 8"
  show "\<exists>qs. dll c' (pool_head (set_head pl i h) j) qs \<and> distinct qs \<and> set qs = members N' j"
  proof (cases "j = i")
    case True
    with ps i len show ?thesis by (auto simp: pool_head_set)
  next
    case False
    obtain qs where qs: "dll c (pool_head pl j) qs" "distinct qs" "set qs = members N j" "nodes_ok (set qs)"
      using flistsE [OF fl j] .
    have "nodes_ok (members N i \<union> members N' i)"
      using fl N'(1) members_dom [of N i] members_dom [of N' i] nodes_ok_subset by (auto simp: flists_def)
    moreover have "set qs \<inter> (members N i \<union> members N' i) = {}"
      using False members_disjoint [of i j N] members_disjoint [of i j N'] N'(2) [OF False] qs(3) by blast
    ultimately have "links (set qs) \<inter> links (members N i \<union> members N' i) = {}"
      using qs(4) by (intro links_disjoint) auto
    then have "dll c' (pool_head pl j) qs = dll c (pool_head pl j) qs"
      by (intro dll_cong out) blast
    with qs False i j len N'(2) show ?thesis by (auto simp: pool_head_set)
  qed
qed

lemma flists_detach:
  assumes fl: "flists (cells m) pl N" and p: "N p = Some i"
  defines "r \<equiv> freelist_detach m (pool_head pl i) (adr p)"
  shows "flists (cells (snd r)) (set_head pl i (fst r)) (N(p := None))"
    "\<And>x. x \<notin> links (dom N - {p}) \<Longrightarrow> cells (snd r) x = cells m x"
proof -
  have i: "i \<le> 8" using fl p by (auto simp: flists_def ran_def)
  obtain ps where ps: "dll (cells m) (pool_head pl i) ps" "distinct ps" "set ps = members N i" "nodes_ok (set ps)"
    using flistsE [OF fl i] .
  have "p \<in> set ps" using p ps(3) by (simp add: members_def)
  note D = dll_detach [OF ps(1,4,2) this, folded r_def]
  have sub: "set ps - {p} \<subseteq> dom N - {p}" using ps(3) members_dom [of N i] by blast
  show out: "cells (snd r) x = cells m x" if "x \<notin> links (dom N - {p})" for x
    using that links_mono [OF sub] by (intro D(2)) blast
  show "flists (cells (snd r)) (set_head pl i (fst r)) (N(p := None))"
  proof (rule flists_update [OF fl i D(1)])
    show "nodes_ok (dom (N(p := None)))" using fl by (auto simp: flists_def nodes_ok_def)
    show "set (remove1 p ps) = members (N(p := None)) i" using ps(2,3) by (auto simp: members_def)
    show "cells (snd r) x = cells m x" if "x \<notin> links (members N i \<union> members (N(p := None)) i)" for x
      using that links_mono [of "set ps - {p}" "members N i"] ps(3) by (intro D(2)) auto
  qed (use ps(2) p in \<open>auto simp: members_def\<close>)
qed

lemma flists_put:
  assumes fl: "flists (cells m) pl N" and p: "p \<notin> dom N" "even p" "0 < p" "p + 1 < 2 ^ 61" and i: "i \<le> 8"
  defines "r \<equiv> freelist_put m (pool_head pl i) (adr p)"
  shows "flists (cells (snd r)) (set_head pl i (fst r)) (N(p \<mapsto> i))"
    "\<And>x. x \<notin> links (insert p (dom N)) \<Longrightarrow> cells (snd r) x = cells m x"
proof -
  obtain ps where ps: "dll (cells m) (pool_head pl i) ps" "distinct ps" "set ps = members N i" "nodes_ok (set ps)"
    using flistsE [OF fl i] .
  have np: "p \<notin> set ps" using p(1) ps(3) by (auto simp: members_def)
  have ok: "nodes_ok (insert p (set ps))" using ps(4) p by simp
  note P = dll_put [OF ps(1) ok np ps(2), folded r_def]
  have sub: "insert p (set ps) \<subseteq> insert p (dom N)" using ps(3) members_dom [of N i] by blast
  show out: "cells (snd r) x = cells m x" if "x \<notin> links (insert p (dom N))" for x
    using that links_mono [OF sub] by (intro P(3)) blast
  show "flists (cells (snd r)) (set_head pl i (fst r)) (N(p \<mapsto> i))"
  proof (rule flists_update [OF fl i])
    show "dll (cells (snd r)) (fst r) (p # ps)" using P(1,2) by simp
    show "nodes_ok (dom (N(p \<mapsto> i)))" using fl p by (auto simp: flists_def nodes_ok_def)
    show "set (p # ps) = members (N(p \<mapsto> i)) i" using ps(3) by (auto simp: members_def)
    have e: "members N i \<union> members (N(p \<mapsto> i)) i = insert p (set ps)" using ps(3) by (auto simp: members_def)
    show "cells (snd r) x = cells m x" if "x \<notin> links (members N i \<union> members (N(p \<mapsto> i)) i)" for x
      using that unfolding e by (intro P(3)) blast
    show "members (N(p \<mapsto> i)) j = members N j" if "j \<noteq> i" for j using that p(1) by (auto simp: members_def)
  qed (use np ps(2) in simp)
qed

section \<open>Area and lists together\<close>

abbreviation starts :: "nat \<Rightarrow> blk list \<Rightarrow> nat set" where
  "starts a bs \<equiv> fst ` blks a bs"

text \<open>An area and nine lists whose nodes are blocks of the area.\<close>

definition pool_st :: "nat \<Rightarrow> blk list \<Rightarrow> (nat \<rightharpoonup> nat) \<Rightarrow> mpool \<Rightarrow> mem \<Rightarrow> bool" where
  "pool_st a bs N pl m \<longleftrightarrow> area (cells m) a bs \<and> flists (cells m) pl N \<and> dom N \<subseteq> starts a bs"

text \<open>Only cells in \<open>S\<close> change.\<close>

definition chg :: "nat set \<Rightarrow> mem \<Rightarrow> mem \<Rightarrow> bool" where
  "chg S m m' \<longleftrightarrow> (\<forall>x. x \<notin> S \<longrightarrow> cells m' x = cells m x)"

lemma chg_trans: "chg S m m1 \<Longrightarrow> chg S m1 m2 \<Longrightarrow> chg S m m2"
  by (auto simp: chg_def)

lemma chg_mono: "chg S m m' \<Longrightarrow> S \<subseteq> T \<Longrightarrow> chg T m m'"
  by (auto simp: chg_def)

lemma chg_refl [simp]: "chg S m m"
  by (simp add: chg_def)

text \<open>The fields of the pool that the list operations leave alone.\<close>

definition same_base :: "mpool \<Rightarrow> mpool \<Rightarrow> bool" where
  "same_base pl pl' \<longleftrightarrow> mp_ptr pl' = mp_ptr pl \<and> mp_size pl' = mp_size pl \<and> mp_alloced_size pl' = mp_alloced_size pl \<and>
     mp_cb_reqmem pl' = mp_cb_reqmem pl \<and> mp_cb_delmem pl' = mp_cb_delmem pl"

lemma same_base_simps [simp]: "same_base pl pl" "same_base pl (set_head pl i h)"
  by (simp_all add: same_base_def)

lemma same_base_trans: "same_base p q \<Longrightarrow> same_base q r \<Longrightarrow> same_base p r"
  by (simp add: same_base_def)

definition zone :: "nat \<Rightarrow> blk \<Rightarrow> nat set" where
  "zone p b = {x. p \<le> x + 1 \<and> x \<le> p + bw b}"

lemma zone_not_link:
  assumes "area c a bs" "dom N \<subseteq> starts a bs" "(p, b) \<in> blks a bs" "p \<notin> dom N" "x \<in> zone p b"
  shows "x \<notin> links (dom N)"
proof
  assume "x \<in> links (dom N)"
  then obtain q where q: "q \<in> dom N" "x = q \<or> x = q + 1" by (auto simp: links_def)
  then obtain d where d: "(q, d) \<in> blks a bs" using assms(2) by force
  show False
    using place_apart [OF assms(3) d] assms(4,5) q area_blk(3,7) [OF assms(1) d] by (auto simp: zone_def)
qed

lemma zone_frame:
  assumes "pool_st a bs N pl m" "(p, b) \<in> blks a bs" "p \<notin> dom N" "chg (zone p b) m m'"
    "area (cells m') a bs'" "dom N \<subseteq> starts a bs'"
  shows "pool_st a bs' N pl m'"
proof -
  have "cells m' x = cells m x" if "x \<in> links (dom N)" for x
    using that assms zone_not_link [of "cells m" a bs N p b x] by (auto simp: chg_def pool_st_def)
  then show ?thesis using assms(1,5,6) flists_cong unfolding pool_st_def by blast
qed

lemma link_payload:
  assumes "area c a bs" "dom N \<subseteq> starts a bs" "x \<in> links (dom N)"
  obtains p b where "p \<in> dom N" "(p, b) \<in> blks a bs" "x \<in> payload p b"
proof -
  obtain p where p: "p \<in> dom N" "x = p \<or> x = p + 1" using assms(3) by (auto simp: links_def)
  then obtain b where b: "(p, b) \<in> blks a bs" using assms(2) by force
  have "x \<in> payload p b" using p(2) area_blk(7) [OF assms(1) b] by (auto simp: payload_def)
  with p b that show ?thesis by blast
qed

lemma area_links_cong:
  assumes "area (cells m) a bs" "dom N \<subseteq> starts a bs" "chg (links (dom N)) m m'"
  shows "area (cells m') a bs"
proof (rule area_payload_cong [OF assms(1)])
  fix x assume x: "\<forall>(p, b)\<in>blks a bs. x \<notin> payload p b"
  have "x \<notin> links (dom N)" using x by (blast elim: link_payload [OF assms(1,2)])
  with assms(3) show "cells m' x = cells m x" by (simp add: chg_def)
qed

lemma size2id_blk:
  assumes "area (cells m) a bs" "(p, b) \<in> blks a bs"
  shows "freelists_size2id (blk_size m (adr p)) = (if cls (bw b) = 8 then - 1 else int (cls (bw b)))"
  using area_reads(1) [OF assms] area_blk(4) [OF assms] by (simp add: size2id_adr)

lemma pool_detach_eq:
  assumes "area (cells m) a bs" "(p, b) \<in> blks a bs" "i = cls (bw b)"
  shows "pool_detach (pl, m) (adr p) =
    (set_head pl i (fst (freelist_detach m (pool_head pl i) (adr p))), snd (freelist_detach m (pool_head pl i) (adr p)))"
  using cls_le [of "bw b"] assms(3)
  by (auto simp: pool_detach_def size2id_blk [OF assms(1,2)] Let_def split_beta freelists_detach_eq
      pool_head_def set_head_def)

lemma pool_detach_st:
  assumes st: "pool_st a bs N pl m" and b: "(p, b) \<in> blks a bs" and N: "N p = Some (cls (bw b))"
  obtains pl' m' where "pool_detach (pl, m) (adr p) = (pl', m')" "pool_st a bs (N(p := None)) pl' m'"
    "chg (links (dom N - {p})) m m'" "same_base pl pl'"
proof -
  have ar: "area (cells m) a bs" and fl: "flists (cells m) pl N" and dm: "dom N \<subseteq> starts a bs"
    using st by (auto simp: pool_st_def)
  define r where "r = freelist_detach m (pool_head pl (cls (bw b))) (adr p)"
  note D = flists_detach [OF fl N, folded r_def]
  have ch: "chg (links (dom N - {p})) m (snd r)" using D(2) by (simp add: chg_def)
  then have "chg (links (dom N)) m (snd r)" by (rule chg_mono) (auto simp: links_def)
  from area_links_cong [OF ar dm this] D(1) dm
  have "pool_st a bs (N(p := None)) (set_head pl (cls (bw b)) (fst r)) (snd r)"
    by (auto simp: pool_st_def)
  with ch that pool_detach_eq [OF ar b refl] r_def show ?thesis by (simp add: same_base_def)
qed

lemma put_st:
  assumes st: "pool_st a bs N pl m" and b: "(p, b) \<in> blks a bs" and N: "p \<notin> dom N" and i: "i \<le> 8"
  defines "r \<equiv> freelist_put m (pool_head pl i) (adr p)"
  shows "pool_st a bs (N(p \<mapsto> i)) (set_head pl i (fst r)) (snd r)" "chg (links (insert p (dom N))) m (snd r)"
proof -
  have ar: "area (cells m) a bs" and fl: "flists (cells m) pl N" and dm: "dom N \<subseteq> starts a bs"
    using st by (auto simp: pool_st_def)
  note B = area_blk [OF ar b]
  have "even p" "0 < p" "p + 1 < 2 ^ 61" using area_blk_even [OF ar b] B by auto
  note P = flists_put [OF fl N this i, folded r_def]
  show ch: "chg (links (insert p (dom N))) m (snd r)" using P(2) by (simp add: chg_def)
  have dm': "dom (N(p \<mapsto> i)) \<subseteq> starts a bs" using dm b by force
  have "area (cells (snd r)) a bs" using ch by (intro area_links_cong [OF ar dm']) simp
  with P(1) dm' show "pool_st a bs (N(p \<mapsto> i)) (set_head pl i (fst r)) (snd r)" by (simp add: pool_st_def)
qed

lemma starts_mid:
  "fst ` set (place k (xs @ b # ys)) =
     fst ` set (place k xs) \<union> insert (k + span xs) (fst ` set (place (k + span xs + bw b + 2) ys))"
  by (simp add: place_append image_Un)

lemma blks_mid: "p = a + 2 + span xs \<Longrightarrow> (p, b) \<in> blks a (xs @ b # ys)"
  by (simp add: place_append)

lemma tag_zone: "1 \<le> p \<Longrightarrow> cells m' = tag_blk (cells m) p (bw b) w \<Longrightarrow> chg (zone p b) m m'"
  by (auto simp: chg_def zone_def tag_blk_def)

lemma retag_st:
  assumes st: "pool_st a (xs @ b # ys) N pl m" and p: "p = a + 2 + span xs" "p \<notin> dom N"
    and m': "cells m' = tag_blk (cells m) p (bw b) (hdr (Blk (bw b) f g))"
  shows "pool_st a (xs @ Blk (bw b) f g # ys) N pl m'" "chg (zone p b) m m'"
proof -
  have ar: "area (cells m) a (xs @ b # ys)" using st by (simp add: pool_st_def)
  show ch: "chg (zone p b) m m'" using p(1) m' by (intro tag_zone) auto
  show "pool_st a (xs @ Blk (bw b) f g # ys) N pl m'"
  proof (rule zone_frame [OF st blks_mid [OF p(1)] p(2) ch])
    show "area (cells m') a (xs @ Blk (bw b) f g # ys)" unfolding m' by (rule area_retag [OF ar p(1)])
    show "dom N \<subseteq> starts a (xs @ Blk (bw b) f g # ys)"
      using st unfolding pool_st_def starts_mid blk.sel by blast
  qed
qed

lemma do_free_st:
  assumes st: "pool_st a (xs @ b # ys) N pl m" and p: "p = a + 2 + span xs" "p \<notin> dom N"
  obtains pl' m' where "do_free (pl, m) (adr p) = (pl', m')"
    "pool_st a (xs @ Blk (bw b) True (b2M b) # ys) (N(p \<mapsto> cls (bw b))) pl' m'"
    "chg (zone p b \<union> links (dom N)) m m'" "same_base pl pl'"
proof -
  let ?bs = "xs @ Blk (bw b) True (b2M b) # ys" and ?i = "cls (bw b)"
  have ar: "area (cells m) a (xs @ b # ys)" using st by (simp add: pool_st_def)
  note B = area_blk [OF ar blks_mid [OF p(1)]] and R = area_reads [OF ar blks_mid [OF p(1)]]
  define m1 where "m1 = blk_setfreed m (adr p) (adr (bw b))"
  have "cells m1 = tag_blk (cells m) p (bw b) (hdr (Blk (bw b) True (b2M b)))"
    unfolding m1_def using B by (intro flag_op_cells) auto
  note T = retag_st [OF st p this]
  have b': "(p, Blk (bw b) True (b2M b)) \<in> blks a ?bs" by (rule blks_mid [OF p(1)])
  have ar1: "area (cells m1) a ?bs" using T(1) by (simp add: pool_st_def)
  define r where "r = freelist_put m1 (pool_head pl ?i) (adr p)"
  note P = put_st [OF T(1) b' p(2) cls_le, of "bw b", folded r_def]
  have eq: "do_free (pl, m) (adr p) = (set_head pl ?i (fst r), snd r)"
    using size2id_blk [OF ar1 b'] cls_le [of "bw b"]
    by (auto simp: do_free_def put_large_def R(1) m1_def [symmetric] freelists_put_eq Let_def split_beta
        r_def pool_head_def set_head_def)
  have "links (insert p (dom N)) \<subseteq> zone p b \<union> links (dom N)" using B(7) by (auto simp: zone_def)
  then have "chg (zone p b \<union> links (dom N)) m (snd r)"
    by (intro chg_trans [OF chg_mono [OF T(2)] chg_mono [OF P(2)]]) auto
  with that eq P(1) show ?thesis by simp
qed

lemma split_st:
  assumes st: "pool_st a (xs @ b # ys) N pl m" and p: "p = a + 2 + span xs" "p \<notin> dom N"
    and s: "even s" "2 \<le> s" "s + 4 \<le> bw b"
  defines "r \<equiv> blk_split m (adr p) (adr s)"
  shows "fst r = adr (p + s + 2)" "chg (zone p b) m (snd r)"
    "pool_st a (xs @ Blk s False (b2M b) # Blk (bw b - s - 2) False (b2M b) # ys) N pl (snd r)"
    "p + s + 2 \<notin> dom N"
proof -
  have ar: "area (cells m) a (xs @ b # ys)" using st by (simp add: pool_st_def)
  note B = area_blk [OF ar blks_mid [OF p(1)]] and R = area_reads [OF ar blks_mid [OF p(1)]]
  have "1 \<le> p" "p + bw b < 2 ^ 61" "s + 2 \<le> bw b" using B s by auto
  note C = blk_split_cells [OF R(3,1) this, folded r_def]
  show "fst r = adr (p + s + 2)" by (rule C(1))
  show ch: "chg (zone p b) m (snd r)"
    unfolding chg_def C(2) using s p by (auto simp: zone_def intro!: tag_blk_out [THEN trans])
  let ?bs = "xs @ Blk s False (b2M b) # Blk (bw b - s - 2) False (b2M b) # ys"
  show "pool_st a ?bs N pl (snd r)"
  proof (rule zone_frame [OF st blks_mid [OF p(1)] p(2) ch])
    show "area (cells (snd r)) a ?bs" unfolding C(2) by (rule area_split [OF ar p(1) s])
    have e: "k + s + 2 + (bw b - s - 2) + 2 = k + bw b + 2" for k using s by simp
    have "dom N \<subseteq> starts a (xs @ b # ys)" using st by (simp add: pool_st_def)
    also have "\<dots> \<subseteq> starts a ?bs" unfolding starts_mid place.simps blk.sel e by auto
    finally show "dom N \<subseteq> starts a ?bs" .
  qed
  have "p + s + 2 \<in> zone p b" using s by (simp add: zone_def)
  with zone_not_link [OF ar _ blks_mid [OF p(1)] p(2)] st show "p + s + 2 \<notin> dom N"
    by (auto simp: pool_st_def links_def)
qed

text \<open>Splitting off and freeing what a request leaves over, and what a block becomes when it is handed out.\<close>

definition trim :: "blk \<Rightarrow> nat \<Rightarrow> blk list" where
  "trim b w = (if w + 8 \<le> bw b then [Blk w False (b2M b), Blk (bw b - w - 2) True (b2M b)] else [b])"

definition carve :: "blk \<Rightarrow> nat \<Rightarrow> blk list" where
  "carve b w = trim (Blk (bw b) False (b2M b)) w"

definition trim_node :: "nat \<Rightarrow> blk \<Rightarrow> nat \<Rightarrow> (nat \<rightharpoonup> nat) \<Rightarrow> (nat \<rightharpoonup> nat)" where
  "trim_node p b w N = (if w + 8 \<le> bw b then N(p + w + 2 \<mapsto> cls (bw b - w - 2)) else N)"

lemma try_split_st:
  assumes st: "pool_st a (xs @ b # ys) N pl m" and p: "p = a + 2 + span xs" "p \<notin> dom N"
    and w: "even w" "2 \<le> w" "w \<le> bw b"
  obtains pl' m' where "try_split_and_free (pl, m) (adr p) (adr w) = (w + 8 \<le> bw b, pl', m')"
    "pool_st a (xs @ trim b w @ ys) (trim_node p b w N) pl' m'"
    "chg (zone p b \<union> links (dom N)) m m'" "same_base pl pl'"
proof -
  have ar: "area (cells m) a (xs @ b # ys)" using st by (simp add: pool_st_def)
  note B = area_blk [OF ar blks_mid [OF p(1)]] and R = area_reads [OF ar blks_mid [OF p(1)]]
  have "bw b + 2 < 2 ^ 60" using ar by (simp add: area_def)
  then have cond: "(blk_size m (adr p) \<ge> adr w + 8 * 8) = (w + 8 \<le> bw b)"
    using w(3) by (simp add: R(1) adr_le_iff)
  show thesis
  proof (cases "w + 8 \<le> bw b")
    case False
    with that [of pl m] st cond show ?thesis
      by (simp add: try_split_and_free_def trim_def trim_node_def)
  next
    case True
    let ?b1 = "Blk w False (b2M b)" and ?b2 = "Blk (bw b - w - 2) False (b2M b)"
    have "w + 4 \<le> bw b" using True by simp
    note S = split_st [OF st p w(1,2) this]
    define m1 where "m1 = snd (blk_split m (adr p) (adr w))"
    have st1: "pool_st a ((xs @ [?b1]) @ ?b2 # ys) N pl m1" using S(3) by (simp add: m1_def)
    have q: "p + w + 2 = a + 2 + span (xs @ [?b1])" using p(1) by simp
    obtain pl' m' where F: "do_free (pl, m1) (adr (p + w + 2)) = (pl', m')"
      "pool_st a ((xs @ [?b1]) @ Blk (bw ?b2) True (b2M ?b2) # ys) (N(p + w + 2 \<mapsto> cls (bw ?b2))) pl' m'"
      "chg (zone (p + w + 2) ?b2 \<union> links (dom N)) m1 m'" "same_base pl pl'"
      by (rule do_free_st [OF st1 q S(4)])
    have "zone (p + w + 2) ?b2 \<subseteq> zone p b" using True by (auto simp: zone_def)
    then have "chg (zone p b \<union> links (dom N)) m m'"
      using S(2) [folded m1_def] F(3) by (blast intro: chg_trans [of _ m m1] chg_mono)
    moreover have "try_split_and_free (pl, m) (adr p) (adr w) = (True, pl', m')"
      using cond True F(1) S(1) by (simp add: try_split_and_free_def split_beta m1_def)
    ultimately show ?thesis using that F(2,4) True by (simp add: trim_def trim_node_def)
  qed
qed

lemma take_blk_st:
  assumes st: "pool_st a (xs @ b # ys) N pl m" and p: "p = a + 2 + span xs" "p \<notin> dom N"
    and w: "even w" "2 \<le> w" "w \<le> bw b"
  obtains pl' m' where "take_blk (pl, m) (adr p) (adr w) = (adr p, pl', m')"
    "pool_st a (xs @ carve b w @ ys) (trim_node p b w N) pl' m'"
    "chg (zone p b \<union> links (dom N)) m m'"
    "same_base (pl\<lparr>mp_alloced_size := mp_alloced_size pl + adr (bw (hd (carve b w)))\<rparr>) pl'"
proof -
  obtain pl1 m1 where T: "try_split_and_free (pl, m) (adr p) (adr w) = (w + 8 \<le> bw b, pl1, m1)"
    "pool_st a (xs @ trim b w @ ys) (trim_node p b w N) pl1 m1"
    "chg (zone p b \<union> links (dom N)) m m1" "same_base pl pl1"
    by (rule try_split_st [OF st p w])
  obtain b1 zs where b1: "trim b w = b1 # zs" "bw b1 \<le> bw b" "b2M b1 = b2M b"
    "carve b w = Blk (bw b1) False (b2M b) # zs"
    using w(3) by (cases "w + 8 \<le> bw b") (simp_all add: trim_def carve_def)
  have st1: "pool_st a (xs @ b1 # zs @ ys) (trim_node p b w N) pl1 m1" using T(2) b1(1) by simp
  have pN: "p \<notin> dom (trim_node p b w N)" using p(2) by (simp add: trim_node_def)
  have ar1: "area (cells m1) a (xs @ b1 # zs @ ys)" using st1 by (simp add: pool_st_def)
  note B1 = area_blk [OF ar1 blks_mid [OF p(1)]] and R1 = area_reads [OF ar1 blks_mid [OF p(1)]]
  define m2 where "m2 = blk_setalloced m1 (adr p) (adr (bw b1))"
  have "cells m2 = tag_blk (cells m1) p (bw b1) (hdr (Blk (bw b1) False (b2M b1)))"
    unfolding m2_def using B1 by (intro flag_op_cells) auto
  note A = retag_st [OF st1 p(1) pN this]
  let ?pl = "pl1\<lparr>mp_alloced_size := mp_alloced_size pl1 + adr (bw b1)\<rparr>"
  have "pool_st a (xs @ carve b w @ ys) (trim_node p b w N) ?pl m2"
    using A(1) flists_fields [of ?pl pl1] by (simp add: pool_st_def b1)
  moreover have "zone p b1 \<subseteq> zone p b" using b1(2) by (auto simp: zone_def)
  then have "chg (zone p b \<union> links (dom N)) m m2"
    using T(3) A(2) by (blast intro: chg_trans [of _ m m1] chg_mono)
  moreover have "take_blk (pl, m) (adr p) (adr w) = (adr p, ?pl, m2)"
    by (simp add: take_blk_def T(1) R1(1) m2_def Let_def)
  moreover have "same_base (pl\<lparr>mp_alloced_size := mp_alloced_size pl + adr (bw (hd (carve b w)))\<rparr>) ?pl"
    using T(4) by (simp add: same_base_def b1(4))
  ultimately show ?thesis by (intro that)
qed

section \<open>The pool in order\<close>

text \<open>\<open>bmap g k bs\<close> collects a value of each block, by the cell its payload starts at.\<close>

fun bmap :: "(blk \<Rightarrow> 'v option) \<Rightarrow> nat \<Rightarrow> blk list \<Rightarrow> (nat \<rightharpoonup> 'v)" where
  "bmap g k [] = Map.empty"
| "bmap g k (b # bs) = (bmap g (k + bw b + 2) bs)(k := g b)"

definition free_cls :: "blk \<Rightarrow> nat option" where
  "free_cls b = (if bfree b then Some (cls (bw b)) else None)"

lemma free_cls_simps [simp]:
  "free_cls (Blk n f g) = (if f then Some (cls n) else None)"
  "bfree b \<Longrightarrow> free_cls b = Some (cls (bw b))" "\<not> bfree b \<Longrightarrow> free_cls b = None"
  by (simp_all add: free_cls_def)

abbreviation fnodes :: "nat \<Rightarrow> blk list \<Rightarrow> (nat \<rightharpoonup> nat)" where
  "fnodes \<equiv> bmap free_cls"

definition pool_inv :: "nat \<Rightarrow> blk list \<Rightarrow> mpool \<Rightarrow> mem \<Rightarrow> bool" where
  "pool_inv a bs pl m \<longleftrightarrow> pool_st a bs (fnodes (a + 2) bs) pl m \<and> mp_ptr pl = adr a \<and> mp_size pl = adr (span bs + 2)"

lemma bmap_iff: "bmap g k bs q = Some i \<longleftrightarrow> (\<exists>d. (q, d) \<in> set (place k bs) \<and> g d = Some i)"
  by (induction bs arbitrary: k) (auto dest: place_bounds)

lemma fnodes_iff: "fnodes k bs q = Some i \<longleftrightarrow> (\<exists>d. (q, d) \<in> set (place k bs) \<and> bfree d \<and> i = cls (bw d))"
  unfolding bmap_iff by (auto simp: free_cls_def split: if_splits)

lemma bmap_below: "q < k \<Longrightarrow> bmap g k bs q = None"
  using bmap_iff [of g k bs q] place_bounds [of q _ k bs] by (metis not_less not_Some_eq)

lemma bmap_above: "k + span bs \<le> q \<Longrightarrow> bmap g k bs q = None"
  using bmap_iff [of g k bs q] place_bounds [of q _ k bs] by (cases "bmap g k bs q") fastforce+

lemma bmap_append: "bmap g k (xs @ ys) = bmap g k xs ++ bmap g (k + span xs) ys"
proof (induction xs arbitrary: k)
  case (Cons b xs)
  have "bmap g (k + (bw b + 2 + span xs)) ys k = None" by (rule bmap_below) simp
  with Cons show ?case by (auto simp: fun_eq_iff map_add_def add.assoc split: option.splits)
qed simp

lemma bmap_mid:
  assumes "p = k + span xs"
  shows "bmap g k (xs @ bs @ ys) = (\<lambda>q. if p \<le> q \<and> q < p + span bs then bmap g p bs q
     else (bmap g k xs ++ bmap g (p + span bs) ys) q)"
proof
  fix q
  show "bmap g k (xs @ bs @ ys) q = (if p \<le> q \<and> q < p + span bs then bmap g p bs q
     else (bmap g k xs ++ bmap g (p + span bs) ys) q)"
    using assms bmap_below [of q "p + span bs" g ys] bmap_above [of k xs q g] bmap_below [of q p g bs]
      bmap_above [of p bs q g]
    by (auto simp: bmap_append map_add_def split: option.splits)
qed

lemmas fnodes_mid = bmap_mid [where g = free_cls]

lemma fnodes_dom: "dom (fnodes k bs) \<subseteq> fst ` set (place k bs)"
  using fnodes_iff [of k bs] by force

section \<open>Request sizes\<close>

definition req_words :: "u64 \<Rightarrow> nat" where
  "req_words s = (if s = 0 then 2 else 2 * ((unat s + 15) div 16))"

lemma and_not_15: "w AND NOT (15 :: u64) = of_nat (16 * (unat w div 16))"
proof -
  have m: "(15 :: u64) = mask 4" by (simp add: mask_eq_exp_minus_1)
  have "w AND NOT (15 :: u64) = push_bit 4 (drop_bit 4 w)" unfolding m by (rule and_not_mask_eq)
  also have "\<dots> = 16 * (w div 16)" by (simp add: push_bit_eq_mult drop_bit_eq_div mult.commute)
  also have "\<dots> = of_nat (16 * (unat w div 16))"
    by (simp add: word_arith_nat_div)
  finally show ?thesis .
qed

lemma req_size_eq:
  assumes "unat s + 15 < 2 ^ 64"
  shows "req_size s = adr (req_words s)"
proof (cases "s = 0")
  case False
  have "unat (s + 15) = unat s + 15" using assms by (simp add: unat_word_ariths)
  moreover have "PADDING s = (s + 15) AND NOT 15" unfolding PADDING_def by (simp add: add.commute)
  ultimately have "PADDING s = of_nat (16 * ((unat s + 15) div 16))" by (simp only: and_not_15)
  with False show ?thesis by (simp add: req_size_def req_words_def adr_def)
qed (simp add: req_size_def req_words_def adr_def)

lemma req_words_ok:
  "even (req_words s)" "2 \<le> req_words s" "unat s + 15 < 2 ^ 64 \<Longrightarrow> req_words s < 2 ^ 61" "unat s \<le> 8 * req_words s"
proof -
  show "2 \<le> req_words s" using unat_gt_0 [of s] by (cases "s = 0") (auto simp: req_words_def)
  have "unat s + 15 < 16 * ((unat s + 15) div 16) + 16"
    using div_mult_mod_eq [of "unat s + 15" 16] mod_less_divisor [of 16 "unat s + 15"] by linarith
  then show "unat s \<le> 8 * req_words s" by (simp add: req_words_def)
  assume "unat s + 15 < 2 ^ 64"
  then show "req_words s < 2 ^ 61" by (auto simp: req_words_def)
qed (simp add: req_words_def)

section \<open>Searching for a block\<close>

text \<open>The search returns a free block that is large enough, detached from its list, or finds that there is
  none. Skipping the classes below that of the request loses nothing, because the class is monotone in the size.\<close>

definition found :: "nat \<Rightarrow> blk list \<Rightarrow> mpool \<Rightarrow> mem \<Rightarrow> nat \<Rightarrow> (u64 \<times> pmem) option \<Rightarrow> bool" where
  "found a bs pl m w r \<longleftrightarrow>
     (\<exists>p b. (p, b) \<in> blks a bs \<and> bfree b \<and> w \<le> bw b \<and> r = Some (adr p, pool_detach (pl, m) (adr p)))"

definition no_fit :: "nat \<Rightarrow> blk list \<Rightarrow> (nat \<Rightarrow> bool) \<Rightarrow> nat \<Rightarrow> bool" where
  "no_fit a bs C w \<longleftrightarrow> (\<forall>p b. (p, b) \<in> blks a bs \<longrightarrow> bfree b \<longrightarrow> C (cls (bw b)) \<longrightarrow> bw b < w)"

definition pool_fl :: "nat \<Rightarrow> blk list \<Rightarrow> mpool \<Rightarrow> mem \<Rightarrow> (nat \<Rightarrow> nat list) \<Rightarrow> bool" where
  "pool_fl a bs pl m fl \<longleftrightarrow> (\<forall>i\<le>8. dll (cells m) (pool_head pl i) (fl i) \<and> nodes_ok (set (fl i)) \<and>
     (\<forall>p. p \<in> set (fl i) \<longleftrightarrow> (\<exists>b. (p, b) \<in> blks a bs \<and> bfree b \<and> i = cls (bw b))))"

lemma pool_lists:
  assumes "pool_inv a bs pl m"
  obtains fl where "pool_fl a bs pl m fl"
proof -
  have "flists (cells m) pl (fnodes (a + 2) bs)" using assms by (simp add: pool_inv_def pool_st_def)
  then have "\<forall>i\<le>8. \<exists>ps. dll (cells m) (pool_head pl i) ps \<and> set ps = members (fnodes (a + 2) bs) i \<and> nodes_ok (set ps)"
    using flistsE by metis
  then obtain fl where fl: "\<And>i. i \<le> 8 \<Longrightarrow> dll (cells m) (pool_head pl i) (fl i) \<and>
      set (fl i) = members (fnodes (a + 2) bs) i \<and> nodes_ok (set (fl i))" by metis
  have "p \<in> members (fnodes (a + 2) bs) i \<longleftrightarrow> (\<exists>b. (p, b) \<in> blks a bs \<and> bfree b \<and> i = cls (bw b))" for p i
    unfolding members_def mem_Collect_eq by (rule fnodes_iff)
  with fl that show ?thesis unfolding pool_fl_def by metis
qed

lemma fits_blk:
  assumes "area (cells m) a bs" "(p, b) \<in> blks a bs" "w < 2 ^ 61"
  shows "(blk_size m (adr p) \<ge> adr w) = (w \<le> bw b)"
  using area_reads(1) [OF assms(1,2)] area_blk(4) [OF assms(1,2)] assms(3) by (simp add: adr_le_iff)

lemma pool_match_large_st:
  assumes inv: "pool_inv a bs pl m" and w: "w < 2 ^ 61"
  shows "(no_fit a bs (\<lambda>i. i = 8) w \<and> pool_match_large (pl, m) (adr w) = Some (0, pl, m)) \<or>
    found a bs pl m w (pool_match_large (pl, m) (adr w))"
proof -
  have ar: "area (cells m) a bs" using inv by (auto simp: pool_inv_def pool_st_def)
  obtain fl where "pool_fl a bs pl m fl" by (rule pool_lists [OF inv])
  then have fl: "\<And>i. i \<le> 8 \<Longrightarrow> dll (cells m) (pool_head pl i) (fl i) \<and> nodes_ok (set (fl i))"
    and mem: "\<And>i p. i \<le> 8 \<Longrightarrow> p \<in> set (fl i) \<longleftrightarrow> (\<exists>b. (p, b) \<in> blks a bs \<and> bfree b \<and> i = cls (bw b))"
    unfolding pool_fl_def by blast+
  let ?fits = "\<lambda>x. blk_size m x \<ge> adr w"
  have hd: "mp_large_blk pl = pool_head pl 8" by (simp add: pool_head_def)
  have sc: "freelist_take ?fits m (pool_head pl 8) = Some (case List.find (\<lambda>p. ?fits (adr p)) (fl 8) of
      None \<Rightarrow> (0, pool_head pl 8, m) | Some p \<Rightarrow> (adr p, freelist_detach m (pool_head pl 8) (adr p)))"
    using fl [of 8] by (intro freelist_take_dll) auto
  show ?thesis
  proof (cases "List.find (\<lambda>p. ?fits (adr p)) (fl 8)")
    case None
    then have "\<forall>p\<in>set (fl 8). \<not> ?fits (adr p)" by (auto simp: find_None_iff)
    then have "no_fit a bs (\<lambda>i. i = 8) w"
      unfolding no_fit_def using fits_blk [OF ar _ w] mem [of 8] by (metis not_le order_refl)
    moreover have "pool_match_large (pl, m) (adr w) = Some (0, pl, m)"
      using sc None by (simp add: pool_match_large_def freelist_match_def hd [symmetric])
    ultimately show ?thesis by blast
  next
    case (Some p)
    then have "p \<in> set (fl 8)" "?fits (adr p)" by (auto simp: find_Some_iff)
    then obtain b where b: "(p, b) \<in> blks a bs" "bfree b" "8 = cls (bw b)" "w \<le> bw b"
      using mem [of 8 p] fits_blk [OF ar _ w] by auto
    have "pool_match_large (pl, m) (adr w) = Some (adr p, pool_detach (pl, m) (adr p))"
      using sc Some by (simp add: pool_match_large_def freelist_match_def hd split_beta
          pool_detach_eq [OF ar b(1,3)] set_head_def)
    with b show ?thesis unfolding found_def by blast
  qed
qed

lemma pool_match_small_st:
  assumes inv: "pool_inv a bs pl m" and w: "w < 2 ^ 61"
  shows "(no_fit a bs (\<lambda>i. i < 8) w \<and> pool_match_small (pl, m) (adr w) = Some (0, pl, m)) \<or>
    found a bs pl m w (pool_match_small (pl, m) (adr w))"
proof (cases "cls w = 8")
  case True
  then have "pool_match_small (pl, m) (adr w) = Some (0, pl, m)"
    using size2id_adr [OF w] by (simp add: pool_match_small_def freelists_match_def)
  moreover have "no_fit a bs (\<lambda>i. i < 8) w"
    unfolding no_fit_def using cls_mono [of w] True by (metis not_le)
  ultimately show ?thesis by blast
next
  case False
  have ar: "area (cells m) a bs" using inv by (auto simp: pool_inv_def pool_st_def)
  obtain fl where "pool_fl a bs pl m fl" by (rule pool_lists [OF inv])
  then have fl: "\<And>i. i \<le> 8 \<Longrightarrow> dll (cells m) (pool_head pl i) (fl i) \<and> nodes_ok (set (fl i))"
    and mem: "\<And>i p. i \<le> 8 \<Longrightarrow> p \<in> set (fl i) \<longleftrightarrow> (\<exists>b. (p, b) \<in> blks a bs \<and> bfree b \<and> i = cls (bw b))"
    unfolding pool_fl_def by blast+
  let ?fits = "\<lambda>x. blk_size m x \<ge> adr w"
  have eq: "freelists_match m (mp_freed pl) (adr w) = freelists_take ?fits m (mp_freed pl) (cls w)"
    using False size2id_adr [OF w] by (simp add: freelists_match_def)
  have lt: "i < FREELIST_NUM \<Longrightarrow> i \<le> 8 \<and> pool_head pl i = mp_freed pl ! i" for i
    by (simp add: FREELIST_NUM_def pool_head_def)
  consider "miss ?fits fl (cls w)" "freelists_take ?fits m (mp_freed pl) (cls w) = Some (0, mp_freed pl, m)"
    | i p where "i < FREELIST_NUM" "p \<in> set (fl i)" "?fits (adr p)"
      "freelists_take ?fits m (mp_freed pl) (cls w) = Some (adr p, freelists_detach m (mp_freed pl) i (adr p))"
    using freelists_take_dlls [of m "mp_freed pl" fl ?fits "cls w"] fl lt by metis
  then show ?thesis
  proof cases
    case 1
    have "no_fit a bs (\<lambda>i. i < 8) w"
      unfolding no_fit_def
      using 1(1) mem fits_blk [OF ar _ w] cls_mono [of w] unfolding miss_def FREELIST_NUM_def
      by (metis le_less not_le)
    with 1(2) show ?thesis by (simp add: pool_match_small_def eq)
  next
    case 2
    then obtain b where b: "(p, b) \<in> blks a bs" "bfree b" "i = cls (bw b)" "w \<le> bw b"
      using mem [of i p] fits_blk [OF ar _ w] lt by blast
    have "pool_match_small (pl, m) (adr w) = Some (adr p, pool_detach (pl, m) (adr p))"
      using 2 lt [OF 2(1)] by (simp add: pool_match_small_def eq freelists_detach_eq split_beta
          pool_detach_eq [OF ar b(1,3)] set_head_def FREELIST_NUM_def)
    with b show ?thesis unfolding found_def by blast
  qed
qed

lemma pool_match_st:
  assumes inv: "pool_inv a bs pl m" and w: "w < 2 ^ 61"
  shows "(no_fit a bs (\<lambda>_. True) w \<and> pool_match (pl, m) (adr w) = Some (0, pl, m)) \<or>
    found a bs pl m w (pool_match (pl, m) (adr w))"
  using pool_match_small_st [OF assms]
proof
  assume f: "found a bs pl m w (pool_match_small (pl, m) (adr w))"
  then have "pool_match (pl, m) (adr w) = pool_match_small (pl, m) (adr w)"
    using area_blk(3,4) [of "cells m" a bs] inv
    by (fastforce simp: found_def pool_match_def pool_inv_def pool_st_def split_beta)
  with f show ?thesis by simp
next
  assume n: "no_fit a bs (\<lambda>i. i < 8) w \<and> pool_match_small (pl, m) (adr w) = Some (0, pl, m)"
  then have "pool_match (pl, m) (adr w) = pool_match_large (pl, m) (adr w)" by (simp add: pool_match_def)
  with n pool_match_large_st [OF assms] show ?thesis
    using cls_le unfolding no_fit_def by (metis le_neq_implies_less)
qed

section \<open>What an operation may touch\<close>

text \<open>\<open>slack a xs n ys\<close>: the cells of an area with blocks \<open>xs\<close>, then \<open>n\<close> cells, then blocks \<open>ys\<close>, less the
  payloads of the allocated blocks of \<open>xs\<close> and \<open>ys\<close>. An operation on the middle stretch changes no other cell.\<close>

definition live_cells :: "nat \<Rightarrow> blk list \<Rightarrow> nat set" where
  "live_cells k bs = {x. \<exists>q d. (q, d) \<in> set (place k bs) \<and> \<not> bfree d \<and> x \<in> payload q d}"

definition slack :: "nat \<Rightarrow> blk list \<Rightarrow> nat \<Rightarrow> blk list \<Rightarrow> nat set" where
  "slack a xs n ys = {a + 1..<a + 2 + span xs + n + span ys} - live_cells (a + 2) xs - live_cells (a + 2 + span xs + n) ys"

lemma live_cells_append: "live_cells k (xs @ ys) = live_cells k xs \<union> live_cells (k + span xs) ys"
  by (auto simp: live_cells_def place_append)

lemma live_cells_free: "bfree d \<Longrightarrow> live_cells k [d] = {}"
  by (simp add: live_cells_def)

lemma live_cells_bounds: "x \<in> live_cells k bs \<Longrightarrow> k \<le> x \<and> x + 2 < k + span bs + 1"
  by (auto simp: live_cells_def payload_def dest!: place_bounds)

lemma slack_free_next: "bfree d \<Longrightarrow> slack a xs n (d # ys) = slack a xs (n + bw d + 2) ys"
  using live_cells_append [of _ "[d]" ys] by (simp add: slack_def live_cells_free add.assoc)

lemma slack_free_prev: "bfree d \<Longrightarrow> slack a (xs @ [d]) n ys = slack a xs (n + bw d + 2) ys"
  by (simp add: slack_def live_cells_append live_cells_free ac_simps)

lemma mid_slack:
  assumes "k = a + 2 + span xs"
  shows "{x. k \<le> x + 1 \<and> x + 1 < k + n} \<subseteq> slack a xs n ys"
proof
  fix x assume "x \<in> {x. k \<le> x + 1 \<and> x + 1 < k + n}"
  then have x: "k \<le> x + 1" "x + 1 < k + n" by auto
  have "x \<notin> live_cells (a + 2) xs" using live_cells_bounds [of x "a + 2" xs] x assms by fastforce
  moreover have "x \<notin> live_cells (k + n) ys" using live_cells_bounds [of x "k + n" ys] x by fastforce
  ultimately show "x \<in> slack a xs n ys" using x assms by (auto simp: slack_def)
qed

lemma zone_slack:
  assumes "(p, b) \<in> set (place (a + 2 + span xs) mid)"
  shows "zone p b \<subseteq> slack a xs (span mid) ys"
  using place_bounds [OF assms] by (intro subset_trans [OF _ mid_slack [OF refl]]) (auto simp: zone_def)

lemma links_slack:
  assumes ar: "area c a (xs @ mid @ ys)"
  shows "links (dom (fnodes (a + 2) (xs @ mid @ ys))) \<subseteq> slack a xs (span mid) ys"
proof
  let ?bs = "xs @ mid @ ys" and ?N = "fnodes (a + 2) (xs @ mid @ ys)"
  fix x assume "x \<in> links (dom ?N)"
  then obtain p where p: "p \<in> dom ?N" "x = p \<or> x = p + 1" by (auto simp: links_def)
  then obtain b where b: "(p, b) \<in> blks a ?bs" "bfree b" using fnodes_iff [of "a + 2" ?bs p] by blast
  note B = area_blk [OF ar b(1)]
  have "x \<notin> payload q d" if "(q, d) \<in> blks a ?bs" "\<not> bfree d" for q d
    using place_apart [OF b(1) that(1)] b(2) that(2) p(2) B(7) area_blk(3) [OF ar that(1)]
    by (auto simp: payload_def)
  then have "x \<notin> live_cells (a + 2) ?bs" by (auto simp: live_cells_def)
  moreover have "a + 1 \<le> x" "x < a + 2 + span ?bs" using B p(2) by auto
  ultimately show "x \<in> slack a xs (span mid) ys"
    by (simp add: slack_def live_cells_append ac_simps)
qed

lemma live_not_slack:
  "(q, d) \<in> set (place (a + 2) xs) \<union> set (place (a + 2 + span xs + n) ys) \<Longrightarrow> \<not> bfree d \<Longrightarrow> x \<in> payload q d \<Longrightarrow>
   x \<notin> slack a xs n ys"
  by (auto simp: slack_def live_cells_def)

section \<open>Allocation\<close>

lemma span_trim: "w \<le> bw b \<Longrightarrow> span (trim b w) = bw b + 2"
  by (cases "w + 8 \<le> bw b") (simp_all add: trim_def)

lemma span_carve: "w \<le> bw b \<Longrightarrow> span (carve b w) = bw b + 2"
  by (simp add: carve_def span_trim)

lemma fnodes_trim:
  assumes "p = k + span xs" "w \<le> bw b" "\<not> bfree b"
  shows "fnodes k (xs @ trim b w @ ys) = trim_node p b w (fnodes k (xs @ [b] @ ys))"
  unfolding fnodes_mid [OF assms(1)] span_trim [OF assms(2)] using assms(3)
  by (auto simp: fun_eq_iff trim_def trim_node_def)

lemma fnodes_set_free:
  assumes "p = k + span xs"
  shows "fnodes k (xs @ [Blk (bw b) False g] @ ys) = (fnodes k (xs @ [b] @ ys))(p := None)"
  unfolding fnodes_mid [OF assms] by (auto simp: fun_eq_iff)

lemma mpool_alloc_st:
  assumes inv: "pool_inv a bs pl m" and cb: "mp_cb_reqmem pl = None" and s: "unat s + 15 < 2 ^ 64"
  defines "w \<equiv> req_words s"
  shows "(no_fit a bs (\<lambda>_. True) w \<and> mpool_alloc (pl, m) s = Some (0, pl, m)) \<or>
    (\<exists>xs b ys pl' m'. bs = xs @ b # ys \<and> bfree b \<and> w \<le> bw b \<and>
       mpool_alloc (pl, m) s = Some (adr (a + 2 + span xs), pl', m') \<and> pool_inv a (xs @ carve b w @ ys) pl' m' \<and>
       chg (slack a xs (bw b + 2) ys) m m' \<and>
       same_base (pl\<lparr>mp_alloced_size := mp_alloced_size pl + adr (bw (hd (carve b w)))\<rparr>) pl')"
proof -
  note W = req_words_ok [of s, folded w_def]
  have st: "pool_st a bs (fnodes (a + 2) bs) pl m" using inv by (simp add: pool_inv_def)
  have rs: "req_size s = adr w" unfolding w_def by (rule req_size_eq [OF s])
  from pool_match_st [OF inv W(3) [OF s]] show ?thesis
  proof
    assume "no_fit a bs (\<lambda>_. True) w \<and> pool_match (pl, m) (adr w) = Some (0, pl, m)"
    then show ?thesis using cb by (simp add: mpool_alloc_def rs mpool_reqmem_def)
  next
    assume "found a bs pl m w (pool_match (pl, m) (adr w))"
    then obtain p b where b: "(p, b) \<in> blks a bs" "bfree b" "w \<le> bw b"
      and r: "pool_match (pl, m) (adr w) = Some (adr p, pool_detach (pl, m) (adr p))"
      unfolding found_def by blast
    obtain xs ys where bs: "bs = xs @ b # ys" and p: "p = a + 2 + span xs"
      using b(1) by (auto simp: place_decomp)
    have ar: "area (cells m) a bs" using st by (simp add: pool_st_def)
    have "fnodes (a + 2) bs p = Some (cls (bw b))" using b fnodes_iff by blast
    from pool_detach_st [OF st b(1) this] obtain pl1 m1 where D: "pool_detach (pl, m) (adr p) = (pl1, m1)"
      "pool_st a bs ((fnodes (a + 2) bs)(p := None)) pl1 m1"
      "chg (links (dom (fnodes (a + 2) bs) - {p})) m m1" "same_base pl pl1" .
    let ?N = "(fnodes (a + 2) bs)(p := None)"
    obtain pl2 m2 where T: "take_blk (pl1, m1) (adr p) (adr w) = (adr p, pl2, m2)"
      "pool_st a (xs @ carve b w @ ys) (trim_node p b w ?N) pl2 m2" "chg (zone p b \<union> links (dom ?N)) m1 m2"
      "same_base (pl1\<lparr>mp_alloced_size := mp_alloced_size pl1 + adr (bw (hd (carve b w)))\<rparr>) pl2"
      by (rule take_blk_st [OF D(2) [unfolded bs] p _ W(1,2) b(3), folded bs]) auto
    have N: "trim_node p b w ?N = fnodes (a + 2) (xs @ carve b w @ ys)"
      unfolding carve_def bs using fnodes_trim [OF p, of w "Blk (bw b) False (b2M b)" ys] b(3)
        fnodes_set_free [OF p, of b "b2M b" ys] by (simp add: trim_node_def)
    have sl: "zone p b \<union> links (dom (fnodes (a + 2) bs)) \<subseteq> slack a xs (bw b + 2) ys"
      using zone_slack [of p b a xs "[b]" ys] links_slack [of "cells m" a xs "[b]" ys] ar p by (simp add: bs)
    have "links (dom ?N) \<subseteq> links (dom (fnodes (a + 2) bs))" "links (dom (fnodes (a + 2) bs) - {p}) \<subseteq> links (dom (fnodes (a + 2) bs))"
      by (auto intro!: links_mono)
    then have "chg (slack a xs (bw b + 2) ys) m m2"
      using D(3) T(3) sl by (blast intro: chg_trans [of _ m m1] chg_mono)
    moreover have "pool_inv a (xs @ carve b w @ ys) pl2 m2"
      using T(2) [unfolded N] T(4) D(4) inv span_carve [OF b(3)] by (simp add: pool_inv_def same_base_def bs)
    moreover have "mpool_alloc (pl, m) s = Some (adr p, pl2, m2)"
      using r D(1) T(1) area_blk(3,4) [OF ar b(1)] by (simp add: mpool_alloc_def rs)
    moreover have "same_base (pl\<lparr>mp_alloced_size := mp_alloced_size pl + adr (bw (hd (carve b w)))\<rparr>) pl2"
      using T(4) D(4) by (simp add: same_base_def)
    ultimately show ?thesis using bs b p by blast
  qed
qed

section \<open>Release\<close>

lemma frame_st:
  assumes "pool_st a bs N pl m" "chg S m m'" "S \<inter> links (dom N) = {}"
    "area (cells m') a bs'" "dom N \<subseteq> starts a bs'"
  shows "pool_st a bs' N pl m'"
proof -
  have "cells m' x = cells m x" if "x \<in> links (dom N)" for x using that assms(2,3) by (auto simp: chg_def)
  then show ?thesis using assms(1,4,5) flists_cong unfolding pool_st_def by blast
qed

text \<open>Two neighbours become one: the listed one is taken off its list, and the sum of their sizes is written
  to the outer head and tail.\<close>

lemma merge_core:
  assumes st: "pool_st a (xs @ b1 # b2 # ys) N pl m"
    and p: "p = a + 2 + span xs" and q: "q = p + bw b1 + 2" and n: "n = bw b1 + bw b2 + 2"
    and x: "(x, d) = (p, b1) \<and> q \<notin> dom N \<or> (x, d) = (q, b2) \<and> p \<notin> dom N" and N: "N x = Some (cls (bw d))"
  obtains pl' m1 where "pool_detach (pl, m) (adr x) = (pl', m1)"
    "pool_st a (xs @ Blk n False False # ys) (N(x := None)) pl' (blk_setsize m1 (adr p) (adr n))"
    "chg (zone p b1 \<union> zone q b2 \<union> links (dom N)) m (blk_setsize m1 (adr p) (adr n))" "same_base pl pl'"
proof -
  let ?bs = "xs @ b1 # b2 # ys" and ?N = "N(x := None)"
  have p1: "(p, b1) \<in> blks a ?bs" using p by (simp add: place_append)
  have p2: "(q, b2) \<in> blks a ?bs" using p q by (simp add: place_append add.assoc)
  have xd: "(x, d) \<in> blks a ?bs" using x p1 p2 by auto
  from pool_detach_st [OF st xd N] obtain pl' m1 where D: "pool_detach (pl, m) (adr x) = (pl', m1)"
    "pool_st a ?bs ?N pl' m1" "chg (links (dom N - {x})) m m1" "same_base pl pl'" .
  have ar: "area (cells m1) a ?bs" using D(2) by (simp add: pool_st_def)
  note B1 = area_blk [OF ar p1] and B2 = area_blk [OF ar p2]
  let ?m = "blk_setsize m1 (adr p) (adr n)"
  have c: "cells ?m = tag_blk (cells m1) p n (hdr (Blk n False False))"
    using B1 B2 n q by (subst blk_setsize_cells) (simp_all add: adr_hdr [symmetric])
  have ch: "chg (zone p b1 \<union> zone q b2) m1 ?m"
    using p q n unfolding chg_def c by (auto simp: zone_def intro!: tag_blk_out)
  have dm: "p \<notin> dom ?N" "q \<notin> dom ?N" using x by auto
  have sub: "dom ?N \<subseteq> starts a ?bs" using D(2) unfolding pool_st_def by blast
  have "pool_st a (xs @ Blk n False False # ys) ?N pl' ?m"
  proof (rule frame_st [OF D(2) ch])
    show "(zone p b1 \<union> zone q b2) \<inter> links (dom ?N) = {}"
      using zone_not_link [OF ar sub p1 dm(1)] zone_not_link [OF ar sub p2 dm(2)] by blast
    show "area (cells ?m) a (xs @ Blk n False False # ys)" unfolding c by (rule area_merge [OF ar p n])
    have e: "k + bw b1 + 2 + bw b2 + 2 = k + n + 2" for k using n by simp
    show "dom ?N \<subseteq> starts a (xs @ Blk n False False # ys)"
      using sub dm(2) unfolding starts_mid place.simps blk.sel e q p by auto
  qed
  moreover have "chg (zone p b1 \<union> zone q b2 \<union> links (dom N)) m ?m"
    using D(3) ch links_mono [of "dom N - {x}" "dom N"] by (blast intro: chg_trans [of _ m m1] chg_mono)
  ultimately show ?thesis using that D(1,4) by blast
qed

lemma fnodes_merge:
  assumes "p = k + span xs" "q = p + bw b1 + 2" "n = bw b1 + bw b2 + 2"
    and "(x = q \<and> \<not> bfree b1) \<or> (x = p \<and> \<not> bfree b2)"
  shows "(fnodes k (xs @ [b1, b2] @ ys))(x := None) = fnodes k (xs @ [Blk n False False] @ ys)"
proof -
  have e: "span [Blk n False False] = span [b1, b2]" using assms(3) by simp
  show ?thesis unfolding fnodes_mid [OF assms(1)] e using assms(2-4) by (auto simp: fun_eq_iff)
qed

abbreviation pool_ok :: "nat \<Rightarrow> blk list \<Rightarrow> mpool \<Rightarrow> mem \<Rightarrow> bool" where
  "pool_ok a bs pl m \<equiv> pool_st a bs (fnodes (a + 2) bs) pl m"

lemma merge_slack:
  assumes "area c a (xs @ b1 # b2 # ys)" "p = a + 2 + span xs" "q = p + bw b1 + 2" "n = bw b1 + bw b2 + 2"
  shows "zone p b1 \<union> zone q b2 \<union> links (dom (fnodes (a + 2) (xs @ b1 # b2 # ys))) \<subseteq> slack a xs (n + 2) ys"
proof -
  have n: "span [b1, b2] = n + 2" using assms(4) by simp
  have "zone p b1 \<subseteq> slack a xs (n + 2) ys" "zone q b2 \<subseteq> slack a xs (n + 2) ys"
    unfolding n [symmetric] using assms by (intro zone_slack; simp)+
  moreover have "links (dom (fnodes (a + 2) (xs @ b1 # b2 # ys))) \<subseteq> slack a xs (n + 2) ys"
    using links_slack [of c a xs "[b1, b2]" ys] assms(1) n by simp
  ultimately show ?thesis by blast
qed

lemma mergenext_st:
  assumes ok: "pool_ok a (xs @ b # d # ys) pl m" and p: "p = a + 2 + span xs" and n: "n = bw b + bw d + 2"
    and f: "\<not> bfree b" "bfree d"
  obtains pl' m' where "blk_mergenext (adr p) (Some pool_detach) (pl, m) = (adr p, pl', m')"
    "pool_ok a (xs @ Blk n False False # ys) pl' m'" "chg (slack a xs (n + 2) ys) m m'" "same_base pl pl'"
proof -
  let ?bs = "xs @ b # d # ys" and ?q = "p + bw b + 2"
  have ar: "area (cells m) a ?bs" using ok by (simp add: pool_st_def)
  have pb: "(p, b) \<in> blks a ?bs" using p by (simp add: place_append)
  have qd: "(?q, d) \<in> blks a ?bs" using p by (simp add: place_append add.assoc)
  have N: "fnodes (a + 2) ?bs ?q = Some (cls (bw d))" using qd f(2) fnodes_iff by blast
  have pN: "p \<notin> dom (fnodes (a + 2) ?bs)"
    using fnodes_mid [OF p, of "[b]" "d # ys"] f(1) by (simp add: domIff)
  obtain pl' m1 where M: "pool_detach (pl, m) (adr ?q) = (pl', m1)"
    "pool_st a (xs @ Blk n False False # ys) ((fnodes (a + 2) ?bs)(?q := None)) pl' (blk_setsize m1 (adr p) (adr n))"
    "chg (zone p b \<union> zone ?q d \<union> links (dom (fnodes (a + 2) ?bs))) m (blk_setsize m1 (adr p) (adr n))" "same_base pl pl'"
    by (rule merge_core [OF ok p refl n _ N]) (use pN in auto)
  have "blk_mergenext (adr p) (Some pool_detach) (pl, m) = (adr p, pl', blk_setsize m1 (adr p) (adr n))"
    using area_next(2) [OF ar p] area_reads(1) [OF ar pb] area_reads(1) [OF ar qd] M(1) n
    by (simp add: blk_mergenext_def run_detach_def)
  moreover have "pool_ok a (xs @ Blk n False False # ys) pl' (blk_setsize m1 (adr p) (adr n))"
    using M(2) fnodes_merge [OF p refl n, of ?q ys] f(1) by simp
  ultimately show ?thesis
    using that M(4) chg_mono [OF M(3) merge_slack [OF ar p refl n]] by blast
qed

lemma mergeprev_st:
  assumes ok: "pool_ok a (xs @ d # b # ys) pl m" and q: "q = a + 2 + span xs" and p: "p = q + bw d + 2"
    and n: "n = bw d + bw b + 2" and f: "\<not> bfree b" "bfree d"
  obtains pl' m' where "blk_mergeprev (adr p) (Some pool_detach) (pl, m) = (adr q, pl', m')"
    "pool_ok a (xs @ Blk n False False # ys) pl' m'" "chg (slack a xs (n + 2) ys) m m'" "same_base pl pl'"
proof -
  let ?bs = "xs @ d # b # ys"
  have ar: "area (cells m) a ?bs" using ok by (simp add: pool_st_def)
  have p': "p = a + 2 + span (xs @ [d])" using p q by simp
  have qd: "(q, d) \<in> blks a ?bs" using q by (simp add: place_append)
  have pb: "(p, b) \<in> blks a ?bs" using p q by (simp add: place_append add.assoc)
  have N: "fnodes (a + 2) ?bs q = Some (cls (bw d))" using qd f(2) fnodes_iff by blast
  have pN: "p \<notin> dom (fnodes (a + 2) ?bs)"
    using fnodes_mid [OF p', of "[b]" ys] f(1) by (simp add: domIff)
  obtain pl' m1 where M: "pool_detach (pl, m) (adr q) = (pl', m1)"
    "pool_st a (xs @ Blk n False False # ys) ((fnodes (a + 2) ?bs)(q := None)) pl' (blk_setsize m1 (adr q) (adr n))"
    "chg (zone q d \<union> zone p b \<union> links (dom (fnodes (a + 2) ?bs))) m (blk_setsize m1 (adr q) (adr n))" "same_base pl pl'"
    by (rule merge_core [OF ok q p n _ N]) (use pN in auto)
  have sz: "adr (bw b) + adr (bw d) + 16 = adr n" using n by (simp add: add.commute)
  have "blk_prev m (adr p) = adr q" using area_prev(2) [of m a "xs @ [d]" b ys p] ar p' q by simp
  then have "blk_mergeprev (adr p) (Some pool_detach) (pl, m) = (adr q, pl', blk_setsize m1 (adr q) (adr n))"
    using area_reads(1) [OF ar pb] area_reads(1) [OF ar qd] M(1) sz
    by (simp add: blk_mergeprev_def run_detach_def Let_def del: adr_add adr_plus)
  moreover have "pool_ok a (xs @ Blk n False False # ys) pl' (blk_setsize m1 (adr q) (adr n))"
    using M(2) fnodes_merge [OF q p n, of q ys] f(1) by simp
  ultimately show ?thesis
    using that M(4) chg_mono [OF M(3) merge_slack [OF ar q p n]] by blast
qed

text \<open>What freeing does to the list of blocks: a free successor and a free predecessor are absorbed.\<close>

definition absorb_next :: "nat \<Rightarrow> blk list \<Rightarrow> nat \<times> blk list" where
  "absorb_next n ys = (case ys of [] \<Rightarrow> (n, []) | d # zs \<Rightarrow> if bfree d then (n + bw d + 2, zs) else (n, ys))"

definition absorb_prev :: "blk list \<Rightarrow> nat \<Rightarrow> blk list \<times> nat" where
  "absorb_prev xs n = (if xs \<noteq> [] \<and> bfree (last xs) then (butlast xs, bw (last xs) + n + 2) else (xs, n))"

definition release :: "blk list \<Rightarrow> blk \<Rightarrow> blk list \<Rightarrow> blk list" where
  "release xs b ys =
     (let (n1, ys') = absorb_next (bw b) ys; (xs', n2) = absorb_prev xs n1 in xs' @ Blk n2 True (b2M b) # ys')"

lemma trymerge_next:
  assumes ok: "pool_ok a (xs @ b # ys) pl m" and p: "p = a + 2 + span xs" and f: "\<not> bfree b"
  defines "r \<equiv> (if \<not> blk_nonext m (adr p) (adr (bw b)) \<and> blk_nexthead m (adr p) (adr (bw b)) AND FREE_FLAG \<noteq> 0
      then blk_mergenext (adr p) (Some pool_detach) (pl, m) else (adr p, pl, m))"
  obtains pl' m' b' ys' where "r = (adr p, pl', m')" "absorb_next (bw b) ys = (bw b', ys')"
    "pool_ok a (xs @ b' # ys') pl' m'" "\<not> bfree b'" "b2M b' \<longrightarrow> b2M b"
    "slack a xs (bw b' + 2) ys' = slack a xs (bw b + 2) ys"
    "chg (slack a xs (bw b + 2) ys) m m'" "same_base pl pl'"
proof -
  have ar: "area (cells m) a (xs @ b # ys)" using ok by (simp add: pool_st_def)
  note X = area_next [OF ar p]
  show thesis
  proof (cases "ys \<noteq> [] \<and> bfree (hd ys)")
    case False
    then have "r = (adr p, pl, m)" using X(1,3) by (auto simp: r_def)
    moreover have "absorb_next (bw b) ys = (bw b, ys)" using False by (auto simp: absorb_next_def split: list.splits)
    ultimately show ?thesis using that ok f by simp
  next
    case True
    then obtain d zs where ys: "ys = d # zs" "bfree d" by (cases ys) auto
    obtain pl' m' where M: "blk_mergenext (adr p) (Some pool_detach) (pl, m) = (adr p, pl', m')"
      "pool_ok a (xs @ Blk (bw b + bw d + 2) False False # zs) pl' m'"
      "chg (slack a xs (bw b + bw d + 2 + 2) zs) m m'" "same_base pl pl'"
      by (rule mergenext_st [OF ok [unfolded ys(1)] p refl f ys(2)])
    have "slack a xs (bw b + bw d + 2 + 2) zs = slack a xs (bw b + 2) ys"
      using slack_free_next [OF ys(2), of a xs "bw b + 2" zs] by (simp add: ys(1) ac_simps)
    moreover have "r = (adr p, pl', m')" using X(1,3) ys M(1) by (simp add: r_def)
    ultimately show ?thesis
      using that [of pl' m' "Blk (bw b + bw d + 2) False False" zs] M ys by (simp add: absorb_next_def)
  qed
qed

lemma trymerge_prev:
  assumes ok: "pool_ok a (xs @ b # ys) pl m" and p: "p = a + 2 + span xs" and f: "\<not> bfree b"
  defines "r \<equiv> (if \<not> blk_noprev m (adr p) \<and> blk_prevtail m (adr p) AND FREE_FLAG \<noteq> 0
      then blk_mergeprev (adr p) (Some pool_detach) (pl, m) else (adr p, pl, m))"
  obtains pl' m' b' xs' where "r = (adr (a + 2 + span xs'), pl', m')" "absorb_prev xs (bw b) = (xs', bw b')"
    "pool_ok a (xs' @ b' # ys) pl' m'" "\<not> bfree b'" "b2M b' \<longrightarrow> b2M b"
    "slack a xs' (bw b' + 2) ys = slack a xs (bw b + 2) ys"
    "chg (slack a xs (bw b + 2) ys) m m'" "same_base pl pl'"
proof -
  have ar: "area (cells m) a (xs @ b # ys)" using ok by (simp add: pool_st_def)
  note X = area_prev [OF ar p]
  show thesis
  proof (cases "xs \<noteq> [] \<and> bfree (last xs)")
    case False
    then have "r = (adr p, pl, m)" using X(1,3) by (auto simp: r_def)
    moreover have "absorb_prev xs (bw b) = (xs, bw b)" using False by (auto simp: absorb_prev_def)
    ultimately show ?thesis using that ok f p by simp
  next
    case True
    then obtain d zs where xs: "xs = zs @ [d]" "bfree d" by (metis append_butlast_last_id)
    let ?q = "a + 2 + span zs"
    have p': "p = ?q + bw d + 2" using p xs by simp
    obtain pl' m' where M: "blk_mergeprev (adr p) (Some pool_detach) (pl, m) = (adr ?q, pl', m')"
      "pool_ok a (zs @ Blk (bw d + bw b + 2) False False # ys) pl' m'"
      "chg (slack a zs (bw d + bw b + 2 + 2) ys) m m'" "same_base pl pl'"
      by (rule mergeprev_st [OF _ refl p' refl f xs(2)]) (use ok xs in auto)
    have "slack a zs (bw d + bw b + 2 + 2) ys = slack a xs (bw b + 2) ys"
      using slack_free_prev [OF xs(2), of a zs "bw b + 2" ys] by (simp add: xs(1) ac_simps)
    moreover have "r = (adr ?q, pl', m')" using X(1,3) xs M(1) by (simp add: r_def)
    ultimately show ?thesis
      using that [of zs pl' m' "Blk (bw d + bw b + 2) False False"] M xs by (simp add: absorb_prev_def)
  qed
qed

lemma trymerge_st:
  assumes ok: "pool_ok a (xs @ b # ys) pl m" and p: "p = a + 2 + span xs" and f: "\<not> bfree b"
  obtains pl' m' xs' n ys' where "blk_trymerge (adr p) (Some pool_detach) (pl, m) = (adr (a + 2 + span xs'), pl', m')"
    "release xs b ys = xs' @ Blk n True (b2M b) # ys'"
    "pool_ok a (xs' @ Blk n False (b2M b) # ys') pl' m'"
    "slack a xs' (n + 2) ys' = slack a xs (bw b + 2) ys"
    "chg (slack a xs (bw b + 2) ys) m m'" "same_base pl pl'"
proof -
  have ar: "area (cells m) a (xs @ b # ys)" using ok by (simp add: pool_st_def)
  note R = area_reads [OF ar blks_mid [OF p]]
  note unfold = blk_trymerge_def R(1,3) snd_conv
  obtain pl1 m1 b1 ys1 where A: "(if \<not> blk_nonext m (adr p) (adr (bw b)) \<and> blk_nexthead m (adr p) (adr (bw b)) AND FREE_FLAG \<noteq> 0
      then blk_mergenext (adr p) (Some pool_detach) (pl, m) else (adr p, pl, m)) = (adr p, pl1, m1)"
    "absorb_next (bw b) ys = (bw b1, ys1)" "pool_ok a (xs @ b1 # ys1) pl1 m1" "\<not> bfree b1" "b2M b1 \<longrightarrow> b2M b"
    "slack a xs (bw b1 + 2) ys1 = slack a xs (bw b + 2) ys"
    "chg (slack a xs (bw b + 2) ys) m m1" "same_base pl pl1"
    by (rule trymerge_next [OF ok p f])
  obtain pl2 m2 b2 xs2 where B: "(if \<not> blk_noprev m1 (adr p) \<and> blk_prevtail m1 (adr p) AND FREE_FLAG \<noteq> 0
      then blk_mergeprev (adr p) (Some pool_detach) (pl1, m1) else (adr p, pl1, m1)) = (adr (a + 2 + span xs2), pl2, m2)"
    "absorb_prev xs (bw b1) = (xs2, bw b2)" "pool_ok a (xs2 @ b2 # ys1) pl2 m2" "\<not> bfree b2" "b2M b2 \<longrightarrow> b2M b1"
    "slack a xs2 (bw b2 + 2) ys1 = slack a xs (bw b1 + 2) ys1"
    "chg (slack a xs (bw b1 + 2) ys1) m1 m2" "same_base pl1 pl2"
    by (rule trymerge_prev [OF A(3) p A(4)])
  let ?q = "a + 2 + span xs2"
  define m3 where "m3 = (if b2M b then blk_set_area_2M m2 (adr ?q) (adr (bw b2)) else m2)"
  have ar2: "area (cells m2) a (xs2 @ b2 # ys1)" using B(3) by (simp add: pool_st_def)
  note R2 = area_reads [OF ar2 blks_mid [OF refl]] and B2 = area_blk [OF ar2 blks_mid [OF refl]]
  have bl: "Blk (bw b2) False (b2M b2) = b2" using B(4) by (cases b2) simp
  have "cells m3 = tag_blk (cells m2) ?q (bw b2) (hdr (Blk (bw b2) False (b2M b)))"
  proof (cases "b2M b")
    case True
    then show ?thesis using flag_op_cells(4) [of ?q b2 m2] B2 B(4) by (simp add: m3_def)
  next
    case False
    then have "hdr (Blk (bw b2) False (b2M b)) = hdr b2" using A(5) B(5) bl by (metis (full_types))
    then show ?thesis using False B2(1,2) by (auto simp: m3_def tag_blk_def fun_eq_iff)
  qed
  moreover have nN: "?q \<notin> dom (fnodes (a + 2) (xs2 @ b2 # ys1))"
    using fnodes_mid [OF refl, of "a + 2" xs2 "[b2]" ys1] B(4) by (simp add: domIff)
  ultimately have T: "pool_st a (xs2 @ Blk (bw b2) False (b2M b) # ys1) (fnodes (a + 2) (xs2 @ b2 # ys1)) pl2 m3"
      "chg (zone ?q b2) m2 m3"
    using retag_st [OF B(3) refl] by blast+
  have "fnodes (a + 2) (xs2 @ Blk (bw b2) False (b2M b) # ys1) = fnodes (a + 2) (xs2 @ b2 # ys1)"
    using fnodes_set_free [OF refl, of "a + 2" xs2 b2 "b2M b" ys1] nN by (simp add: fun_upd_idem domIff)
  with T have okT: "pool_ok a (xs2 @ Blk (bw b2) False (b2M b) # ys1) pl2 m3" by simp
  have "zone ?q b2 \<subseteq> slack a xs2 (bw b2 + 2) ys1" using zone_slack [of ?q b2 a xs2 "[b2]" ys1] by simp
  then have "chg (slack a xs (bw b + 2) ys) m m3"
    using A(6,7) B(6,7) T(2) by (metis chg_mono chg_trans)
  moreover have "blk_trymerge (adr p) (Some pool_detach) (pl, m) = (adr ?q, pl2, m3)"
    unfolding unfold Let_def A(1) prod.case snd_conv fst_conv B(1) R2(1) by (simp add: m3_def)
  moreover have "release xs b ys = xs2 @ Blk (bw b2) True (b2M b) # ys1"
    by (simp add: release_def A(2) B(2))
  ultimately show ?thesis
    using that [of xs2 pl2 m3 "bw b2" ys1] okT A(6) B(6) same_base_trans [OF A(8) B(8)] by simp
qed

lemma release_span:
  assumes "release xs b ys = xs' @ Blk n True (b2M b) # ys'"
  shows "span (release xs b ys) = span (xs @ b # ys)"
proof -
  have "span (butlast xs) + bw (last xs) + 2 = span xs" if "xs \<noteq> []"
    using span_append [of "butlast xs" "[last xs]"] that by simp
  then show ?thesis
    by (auto simp: release_def absorb_next_def absorb_prev_def split_beta Let_def split: list.splits)
qed

lemma fnodes_mark_free:
  assumes "p = k + span xs"
  shows "fnodes k (xs @ Blk n True g # ys) = (fnodes k (xs @ Blk n False g # ys))(p \<mapsto> cls n)"
  using fnodes_mid [OF assms, of "[Blk n True g]" ys] fnodes_mid [OF assms, of "[Blk n False g]" ys]
  by (auto simp: fun_eq_iff)

lemma mpool_free_st:
  assumes inv: "pool_inv a (xs @ b # ys) pl m" and p: "p = a + 2 + span xs" and f: "\<not> bfree b"
  obtains pl' m' where "mpool_free (pl, m) (adr p) = (pl', m')" "pool_inv a (release xs b ys) pl' m'"
    "chg (slack a xs (bw b + 2) ys) m m'"
    "same_base (pl\<lparr>mp_alloced_size := mp_alloced_size pl - adr (bw b)\<rparr>) pl'"
proof -
  let ?pl = "pl\<lparr>mp_alloced_size := mp_alloced_size pl - adr (bw b)\<rparr>"
  have ok: "pool_ok a (xs @ b # ys) ?pl m"
    using inv flists_fields [of ?pl pl] by (simp add: pool_inv_def pool_st_def)
  have ar: "area (cells m) a (xs @ b # ys)" using ok by (simp add: pool_st_def)
  obtain pl1 m1 xs' n ys' where T: "blk_trymerge (adr p) (Some pool_detach) (?pl, m) = (adr (a + 2 + span xs'), pl1, m1)"
    "release xs b ys = xs' @ Blk n True (b2M b) # ys'"
    "pool_ok a (xs' @ Blk n False (b2M b) # ys') pl1 m1"
    "slack a xs' (n + 2) ys' = slack a xs (bw b + 2) ys"
    "chg (slack a xs (bw b + 2) ys) m m1" "same_base ?pl pl1"
    by (rule trymerge_st [OF ok p f])
  let ?q = "a + 2 + span xs'" and ?b = "Blk n False (b2M b)"
  let ?N = "fnodes (a + 2) (xs' @ ?b # ys')"
  have nN: "?q \<notin> dom ?N" using fnodes_mid [OF refl, of "a + 2" xs' "[?b]" ys'] by (simp add: domIff)
  obtain pl' m' where F: "do_free (pl1, m1) (adr ?q) = (pl', m')"
    "pool_st a (xs' @ Blk (bw ?b) True (b2M ?b) # ys') (?N(?q \<mapsto> cls (bw ?b))) pl' m'"
    "chg (zone ?q ?b \<union> links (dom ?N)) m1 m'" "same_base pl1 pl'"
    by (rule do_free_st [OF T(3) refl nN])
  have ar1: "area (cells m1) a (xs' @ ?b # ys')" using T(3) by (simp add: pool_st_def)
  have "zone ?q ?b \<union> links (dom ?N) \<subseteq> slack a xs' (n + 2) ys'"
    using zone_slack [of ?q ?b a xs' "[?b]" ys'] links_slack [of "cells m1" a xs' "[?b]" ys'] ar1 by simp
  then have "chg (slack a xs (bw b + 2) ys) m m'"
    using T(5) chg_mono [OF F(3)] unfolding T(4) by (blast intro: chg_trans)
  moreover have "mpool_free (pl, m) (adr p) = (pl', m')"
    using T(1) F(1) area_blk(3,4) [OF ar blks_mid [OF p]] area_reads(1) [OF ar blks_mid [OF p]]
    by (simp add: mpool_free_def)
  moreover have "same_base ?pl pl'" using T(6) F(4) by (rule same_base_trans)
  moreover have "pool_ok a (release xs b ys) pl' m'"
    using F(2) fnodes_mark_free [OF refl, of "a + 2" xs' n "b2M b" ys'] by (simp add: T(2))
  then have "pool_inv a (release xs b ys) pl' m'"
    using inv \<open>same_base ?pl pl'\<close> release_span [OF T(2)] by (simp add: pool_inv_def same_base_def)
  ultimately show ?thesis using that by blast
qed

section \<open>Initialisation\<close>

lemma adr_even_and_15: "even n \<Longrightarrow> adr n AND 15 = 0"
proof -
  assume "even n"
  then obtain k where k: "n = 2 * k" by blast
  have m: "(15 :: u64) = mask 4" by (simp add: mask_eq_exp_minus_1)
  have "adr n = push_bit 4 (of_nat k)" by (simp add: adr_def k push_bit_eq_mult)
  then have "adr n AND mask 4 = 0"
    by (intro bit_word_eqI) (auto simp: bit_and_iff bit_mask_iff bit_push_bit_iff)
  then show ?thesis unfolding m .
qed

lemma adr_div8: "n < 2 ^ 61 \<Longrightarrow> adr n div 8 = of_nat n"
  by (simp add: word_unat_eq_iff unat_div unat_adr)

lemma allocarea_init_cells:
  fixes pdata :: u64
  assumes a: "1 \<le> a" "a + k + 4 < 2 ^ 61" and k: "2 \<le> k"
  defines "g \<equiv> adr (k + 4) = SIZE_2M"
  defines "d \<equiv> pdata OR AREA_FLAG OR (if g then SIZE_FLAG else 0)"
  shows "cells (allocarea_init m (adr a) (adr (k + 4)) pdata) =
    tag_blk ((cells m)(a + k + 3 := d, a := d)) (a + 2) k (hdr (Blk k True g))"
proof -
  let ?b = "Blk k False False"
  have sz: "adr (k + 4) - 4 * 8 = adr k" by (simp add: adr_def)
  have len: "adr a + (adr (k + 4) div 8 - 1) * 8 = adr (a + k + 3)"
  proof -
    have "adr (k + 4) div 8 = of_nat (k + 4)" using a by (intro adr_div8) simp
    then show ?thesis by (simp add: adr_def algebra_simps)
  qed
  define m1 where "m1 = wr64 (wr64 m (adr (a + k + 3)) d) (adr a) d"
  define m2 where "m2 = blk_setsize m1 (adr (a + 2)) (adr k)"
  define m3 where "m3 = blk_setfreed m2 (adr (a + 2)) (adr k)"
  have c1: "cells m1 = (cells m)(a + k + 3 := d, a := d)"
    using a by (simp add: m1_def cell_simps)
  have c2: "cells m2 = tag_blk (cells m1) (a + 2) k (hdr ?b)"
    using a blk_setsize_cells [of "a + 2" k m1] by (simp add: m2_def adr_hdr [symmetric])
  have c3: "cells m3 = tag_blk (cells m1) (a + 2) k (hdr (Blk k True False))"
    using a flag_op_cells(2) [of "a + 2" ?b m2] unfolding m3_def c2 blk.sel tagged tag_blk_tag_blk by simp
  have eq: "allocarea_init m (adr a) (adr (k + 4)) pdata =
    (if g then blk_set_area_2M m3 (adr (a + 2)) (adr k) else blk_set_area_4k m3 (adr (a + 2)) (adr k))"
    unfolding allocarea_init_def Let_def len sz m3_def m2_def m1_def d_def g_def
    by (simp add: SIZE_FLAG_def)
  show ?thesis
    using a flag_op_cells(3,4) [of "a + 2" "Blk k True False" m3]
    unfolding eq c3 blk.sel tagged tag_blk_tag_blk c1 by simp
qed

text \<open>A fresh area is one free block, in the list of large blocks.\<close>

lemma fresh_area:
  fixes pdata :: u64 and m :: mem
  assumes a: "2 \<le> a" "even a" "a + k + 4 < 2 ^ 61" and k: "even k" "2048 \<le> k" "k + 4 < 2 ^ 60"
    and pl: "mp_ptr pl = adr a" "mp_size pl = adr (k + 4)" "mp_large_blk pl = 0" "mp_freed pl = replicate FREELIST_NUM 0"
  defines "r \<equiv> freelist_put (allocarea_init m (adr a) (adr (k + 4)) pdata) 0 (adr (a + 2))"
  shows "pool_inv a [Blk k True (adr (k + 4) = SIZE_2M)] (pl\<lparr>mp_large_blk := fst r\<rparr>) (snd r)"
    "chg {a..<a + k + 4} m (snd r)"
    "cells (snd r) a = pdata OR AREA_FLAG OR (if adr (k + 4) = SIZE_2M then SIZE_FLAG else 0)"
proof -
  define g where "g \<longleftrightarrow> adr (k + 4) = SIZE_2M"
  let ?b = "Blk k True g"
  define m1 where "m1 = allocarea_init m (adr a) (adr (k + 4)) pdata"
  define d where "d = pdata OR AREA_FLAG OR (if g then SIZE_FLAG else 0)"
  have c1: "cells m1 = tag_blk ((cells m)(a + k + 3 := d, a := d)) (a + 2) k (hdr ?b)"
    unfolding m1_def d_def g_def using a k by (intro allocarea_init_cells) simp_all
  have bit: "bit d 1" by (simp add: d_def bit_or_iff)
  have ar: "area (cells m1) a [?b]"
    unfolding area_def c1 using a k bit by (auto simp: tag_blk_def)
  have "flists (cells m1) pl Map.empty"
    unfolding flists_def
    by (auto simp: pl FREELIST_NUM_def pool_head_def members_def intro!: exI [of _ "[]"])
  then have st: "pool_st a [?b] Map.empty pl m1" using ar by (simp add: pool_st_def)
  have pb: "(a + 2, ?b) \<in> blks a [?b]" by simp
  have r: "r = freelist_put m1 (pool_head pl 8) (adr (a + 2))" by (simp add: r_def m1_def pool_head_def pl)
  have P: "pool_st a [?b] [a + 2 \<mapsto> 8] (set_head pl 8 (fst r)) (snd r)" "chg (links {a + 2}) m1 (snd r)"
    using put_st [OF st pb, of 8] by (simp_all add: r)
  have "cls k = 8" using k by (simp add: cls_def)
  then have fn: "fnodes (a + 2) [?b] = [a + 2 \<mapsto> 8]" by simp
  have e: "span [?b] + 2 = k + 4" by simp
  show "pool_inv a [Blk k True (adr (k + 4) = SIZE_2M)] (pl\<lparr>mp_large_blk := fst r\<rparr>) (snd r)"
    using P(1) unfolding pool_inv_def g_def [symmetric] fn e by (simp add: pl set_head_def)
  show "chg {a..<a + k + 4} m (snd r)"
  proof (rule chg_trans [of _ m m1])
    show "chg {a..<a + k + 4} m m1" unfolding chg_def c1 by (auto simp: tag_blk_def)
    show "chg {a..<a + k + 4} m1 (snd r)" using P(2) k by (rule_tac chg_mono) (auto simp: links_def)
  qed
  have "cells m1 a = d" unfolding c1 using a by (simp add: tag_blk_def)
  then show "cells (snd r) a = pdata OR AREA_FLAG OR (if adr (k + 4) = SIZE_2M then SIZE_FLAG else 0)"
    using P(2) by (auto simp: chg_def links_def d_def g_def)
qed

lemma mpool_init_st:
  assumes a: "2 \<le> a" "even a" "a + k + 4 < 2 ^ 61" and k: "even k" "2048 \<le> k" "k + 4 < 2 ^ 60"
  obtains pl m' where "mpool_init (Some pl0) (adr a) (adr (k + 4)) m = (True, Some pl, m')"
    "pool_inv a [Blk k True (adr (k + 4) = SIZE_2M)] pl m'" "chg {a..<a + k + 4} m m'"
    "mp_alloced_size pl = 0" "mp_cb_reqmem pl = None"
proof -
  define pl where "pl = \<lparr>mp_ptr = adr a, mp_size = adr (k + 4), mp_alloced_size = 0, mp_cb_reqmem = None,
    mp_cb_delmem = None, mp_large_blk = 0, mp_freed = replicate FREELIST_NUM 0\<rparr>"
  define r where "r = freelist_put (allocarea_init m (adr a) (adr (k + 4)) 0) 0 (adr (a + 2))"
  have sel: "mp_ptr pl = adr a" "mp_size pl = adr (k + 4)" "mp_large_blk pl = 0" "mp_freed pl = replicate FREELIST_NUM 0"
    by (simp_all add: pl_def)
  have nz: "adr a \<noteq> 0" "adr (k + 4) \<noteq> 0" "adr (k + 4) AND (2 * 8 - 1) = 0"
    using a k adr_even_and_15 [of "k + 4"] by simp_all
  have "mpool_init (Some pl0) (adr a) (adr (k + 4)) m = (True, Some (pl\<lparr>mp_large_blk := fst r\<rparr>), snd r)"
    using nz unfolding mpool_init_def put_large_def
    by (simp add: split_beta r_def pl_def Let_def del: adr_plus) simp
  then show thesis
    using fresh_area(1,2) [OF a k sel, of m 0, folded r_def] by (rule that) (simp_all add: pl_def)
qed

end
