(* ===== verification/Allocator.thy ===== *)
theory Allocator
  imports Pool
begin

text \<open>
  The contract between the memory pool and its clients.

  The abstract heap \<open>aheap\<close> maps the address of each allocated block to its size and to the bytes the client has
  stored in it. \<open>hstep\<close> says what each of the three client actions may do to it; \<open>hrun\<close> chains them. The
  locale \<open>allocator\<close> states what a provider promises, in terms of a map \<open>L\<close> of live blocks only; its lemmas
  derive the forward simulation from a concrete provider to the abstract heap, first for one action and then for any
  sequence of them. The locale is interpreted on \<open>mpool_alloc\<close> and \<open>mpool_free\<close>.
\<close>

type_synonym aheap = "nat \<rightharpoonup> nat \<times> (nat \<rightharpoonup> u8)"

datatype cmd = Alloc nat | Free nat | Store nat nat u8

definition sizes :: "aheap \<Rightarrow> (nat \<rightharpoonup> nat)" where
  "sizes H = (\<lambda>p. map_option fst (H p))"

inductive hstep :: "aheap \<Rightarrow> cmd \<Rightarrow> nat option \<Rightarrow> aheap \<Rightarrow> bool" where
  alloc_fail: "hstep H (Alloc n) None H"
| alloc_done: "p \<notin> dom H \<Longrightarrow> n \<le> k \<Longrightarrow>
    (\<And>q j. sizes H q = Some j \<Longrightarrow> p + k \<le> q \<or> q + j \<le> p) \<Longrightarrow>
    hstep H (Alloc n) (Some p) (H(p \<mapsto> (k, Map.empty)))"
| free: "p \<in> dom H \<Longrightarrow> hstep H (Free p) None (H(p := None))"
| store: "H p = Some (k, w) \<Longrightarrow> i < k \<Longrightarrow> hstep H (Store p i v) None (H(p \<mapsto> (k, w(i \<mapsto> v))))"

inductive hrun :: "aheap \<Rightarrow> cmd list \<Rightarrow> nat option list \<Rightarrow> aheap \<Rightarrow> bool" where
  hrun_Nil: "hrun H [] [] H"
| hrun_Cons: "hstep H c r H1 \<Longrightarrow> hrun H1 cs rs H2 \<Longrightarrow> hrun H (c # cs) (r # rs) H2"

inductive_simps hrun_Nil_iff: "hrun H [] rs H'"
inductive_simps hrun_Cons_iff: "hrun H (c # cs) rs H'"
inductive_simps hstep_iff: "hstep H (Alloc n) r H'" "hstep H (Free p) r H'" "hstep H (Store p i v) r H'"

text \<open>An action is legal when it frees or writes within a block the client holds, and asks for less than \<open>lim\<close> bytes.\<close>

fun legal :: "nat \<Rightarrow> aheap \<Rightarrow> cmd \<Rightarrow> bool" where
  "legal lim H (Alloc n) = (n < lim)"
| "legal lim H (Free p) = (p \<in> dom H)"
| "legal lim H (Store p i v) = (case H p of None \<Rightarrow> False | Some (k, w) \<Rightarrow> i < k)"

definition in_live :: "(nat \<rightharpoonup> nat) \<Rightarrow> nat \<Rightarrow> bool" where
  "in_live L x \<longleftrightarrow> (\<exists>p k. L p = Some k \<and> p \<le> x \<and> x < p + k)"

text \<open>Running client actions on a provider.\<close>

fun exec :: "('s \<Rightarrow> nat \<Rightarrow> (nat option \<times> 's) option) \<Rightarrow> ('s \<Rightarrow> nat \<Rightarrow> 's option) \<Rightarrow> ('s \<Rightarrow> nat \<Rightarrow> u8 \<Rightarrow> 's) \<Rightarrow>
    's \<Rightarrow> cmd \<Rightarrow> (nat option \<times> 's) option" where
  "exec alloc dealloc store s (Alloc n) = alloc s n"
| "exec alloc dealloc store s (Free p) = map_option (Pair None) (dealloc s p)"
| "exec alloc dealloc store s (Store p i v) = Some (None, store s (p + i) v)"

fun exec_all :: "('s \<Rightarrow> cmd \<Rightarrow> (nat option \<times> 's) option) \<Rightarrow> 's \<Rightarrow> cmd list \<Rightarrow> (nat option list \<times> 's) option" where
  "exec_all ex s [] = Some ([], s)"
| "exec_all ex s (c # cs) =
     (case ex s c of None \<Rightarrow> None | Some (r, s1) \<Rightarrow>
        (case exec_all ex s1 cs of None \<Rightarrow> None | Some (rs, s2) \<Rightarrow> Some (r # rs, s2)))"

text \<open>The state represents the abstract heap, and every byte the client stored can be read back.\<close>

definition simulates :: "('s \<Rightarrow> nat \<Rightarrow> u8) \<Rightarrow> ('s \<Rightarrow> (nat \<rightharpoonup> nat) \<Rightarrow> bool) \<Rightarrow> 's \<Rightarrow> aheap \<Rightarrow> bool" where
  "simulates load repr s H \<longleftrightarrow> repr s (sizes H) \<and>
     (\<forall>p k w i v. H p = Some (k, w) \<longrightarrow> w i = Some v \<longrightarrow> i < k \<and> load s (p + i) = v)"

text \<open>A client that allocates, stores, frees what it was given, and allocates again never takes an illegal action.\<close>

definition client :: "nat \<Rightarrow> nat \<Rightarrow> nat \<Rightarrow> u8 \<Rightarrow> nat \<Rightarrow> cmd list" where
  "client n p i v j = [Alloc n, Store p i v, Free p, Alloc j]"

lemma client_legal:
  assumes "alloc s n = Some (Some p, s1)" "i < n" "n < lim" "j < lim" "client n p i v j = cs1 @ c # cs2"
    and "exec_all (exec alloc dealloc store) s cs1 = Some (rs, s2)" "hrun Map.empty cs1 rs H1"
  shows "legal lim H1 c"
proof -
  have "cs1 = [] \<and> c = Alloc n \<or> cs1 = [Alloc n] \<and> c = Store p i v \<or> cs1 = [Alloc n, Store p i v] \<and> c = Free p \<or>
      cs1 = [Alloc n, Store p i v, Free p] \<and> c = Alloc j"
    using assms(5) by (auto simp: client_def Cons_eq_append_conv)
  then show ?thesis using assms(1-4,6,7) by (elim disjE) (auto simp: hrun_Cons_iff hrun_Nil_iff hstep_iff split: option.splits)
qed

lemma client_runs:
  assumes "alloc s n = Some (Some p, s1)" "i < n" "n < lim" "j < lim"
    and "(\<exists>rs s' H'. exec_all (exec alloc dealloc store) s (client n p i v j) = Some (rs, s') \<and> hrun Map.empty (client n p i v j) rs H' \<and> P s' H') \<or>
      (\<exists>cs1 c cs2 rs s2 H1. client n p i v j = cs1 @ c # cs2 \<and> exec_all (exec alloc dealloc store) s cs1 = Some (rs, s2) \<and>
         hrun Map.empty cs1 rs H1 \<and> P s2 H1 \<and> \<not> legal lim H1 c)"
  shows "\<exists>rs s'. exec_all (exec alloc dealloc store) s [Alloc n, Store p i v, Free p, Alloc j] = Some (Some p # rs, s')"
proof -
  have "legal lim H1 c" if "client n p i v j = cs1 @ c # cs2" "exec_all (exec alloc dealloc store) s cs1 = Some (rs, s2)"
    "hrun Map.empty cs1 rs H1" for cs1 c cs2 rs s2 H1
    by (rule client_legal [where alloc = alloc, OF assms(1-4) that])
  then obtain rs s' where "exec_all (exec alloc dealloc store) s (client n p i v j) = Some (rs, s')" using assms(5) by blast
  then show ?thesis using assms(1) by (auto simp: client_def split: option.splits)
qed

locale allocator =
  fixes alloc :: "'s \<Rightarrow> nat \<Rightarrow> (nat option \<times> 's) option"
    and dealloc :: "'s \<Rightarrow> nat \<Rightarrow> 's option"
    and load :: "'s \<Rightarrow> nat \<Rightarrow> u8"
    and store :: "'s \<Rightarrow> nat \<Rightarrow> u8 \<Rightarrow> 's"
    and repr :: "'s \<Rightarrow> (nat \<rightharpoonup> nat) \<Rightarrow> bool"
    and lim :: nat
  assumes apart: "repr s L \<Longrightarrow> L p = Some i \<Longrightarrow> L q = Some j \<Longrightarrow> p \<noteq> q \<Longrightarrow> p + i \<le> q \<or> q + j \<le> p"
    and alloc_returns: "repr s L \<Longrightarrow> n < lim \<Longrightarrow> \<exists>r s'. alloc s n = Some (r, s')"
    and alloc_none: "repr s L \<Longrightarrow> n < lim \<Longrightarrow> alloc s n = Some (None, s') \<Longrightarrow> repr s' L"
    and alloc_some: "repr s L \<Longrightarrow> n < lim \<Longrightarrow> alloc s n = Some (Some p, s') \<Longrightarrow>
      p \<notin> dom L \<and> (\<exists>k\<ge>n. repr s' (L(p \<mapsto> k)))"
    and alloc_load: "repr s L \<Longrightarrow> n < lim \<Longrightarrow> alloc s n = Some (r, s') \<Longrightarrow> in_live L x \<Longrightarrow> load s' x = load s x"
    and dealloc_returns: "repr s L \<Longrightarrow> p \<in> dom L \<Longrightarrow> \<exists>s'. dealloc s p = Some s'"
    and dealloc_repr: "repr s L \<Longrightarrow> p \<in> dom L \<Longrightarrow> dealloc s p = Some s' \<Longrightarrow> repr s' (L(p := None))"
    and dealloc_load: "repr s L \<Longrightarrow> p \<in> dom L \<Longrightarrow> dealloc s p = Some s' \<Longrightarrow> in_live (L(p := None)) x \<Longrightarrow> load s' x = load s x"
    and store_repr: "repr s L \<Longrightarrow> in_live L x \<Longrightarrow> repr (store s x v) L"
    and store_load: "repr s L \<Longrightarrow> in_live L x \<Longrightarrow> in_live L y \<Longrightarrow>
      load (store s x v) y = (if y = x then v else load s y)"
begin

abbreviation sim :: "'s \<Rightarrow> aheap \<Rightarrow> bool" where
  "sim \<equiv> simulates load repr"

lemma sizes_simps: "sizes (H(p \<mapsto> (k, w))) = (sizes H)(p \<mapsto> k)" "sizes (H(p := None)) = (sizes H)(p := None)"
  "dom (sizes H) = dom H"
  by (auto simp: sizes_def fun_eq_iff)

lemma simD: "sim s H \<Longrightarrow> H p = Some (k, w) \<Longrightarrow> w i = Some v \<Longrightarrow> i < k \<and> load s (p + i) = v"
  by (auto simp: simulates_def)

lemma sim_cell_live: "H p = Some (k, w) \<Longrightarrow> i < k \<Longrightarrow> in_live (sizes H) (p + i)"
  by (force simp: in_live_def sizes_def)

lemma sim_alloc:
  assumes s: "sim s H" and n: "n < lim" and r: "alloc s n = Some (Some p, s')"
  shows "\<exists>H'. hstep H (Alloc n) (Some p) H' \<and> sim s' H'"
proof -
  have rp: "repr s (sizes H)" using s by (simp add: simulates_def)
  obtain k where k: "p \<notin> dom H" "n \<le> k" "repr s' ((sizes H)(p \<mapsto> k))"
    using alloc_some [OF rp n r] by (auto simp: sizes_simps)
  have "p + k \<le> q \<or> q + j \<le> p" if "sizes H q = Some j" for q j
    using apart [OF k(3), of p k q j] that k(1) by (cases "p = q") (auto simp: sizes_def)
  then have "hstep H (Alloc n) (Some p) (H(p \<mapsto> (k, Map.empty)))" using k by (intro hstep.alloc_done) auto
  moreover have "sim s' (H(p \<mapsto> (k, Map.empty)))"
    unfolding simulates_def sizes_simps
    using k(3) simD [OF s] alloc_load [OF rp n r] sim_cell_live by (auto split: if_splits)
  ultimately show ?thesis by blast
qed

lemma sim_free:
  assumes s: "sim s H" and p: "p \<in> dom H"
  obtains s' where "dealloc s p = Some s'" "sim s' (H(p := None))"
proof -
  have rp: "repr s (sizes H)" using s by (simp add: simulates_def)
  have p': "p \<in> dom (sizes H)" using p by (simp add: sizes_simps)
  obtain s' where d: "dealloc s p = Some s'" using dealloc_returns [OF rp p'] by blast
  have "load s' (q + i) = v" if "H q = Some (k, w)" "q \<noteq> p" "w i = Some v" for q k w i v
  proof -
    have "in_live (sizes (H(p := None))) (q + i)"
      using that simD [OF s that(1,3)] by (intro sim_cell_live [of _ _ k w]) auto
    then show ?thesis using dealloc_load [OF rp p' d] simD [OF s that(1,3)] by (simp add: sizes_simps)
  qed
  then have "sim s' (H(p := None))"
    unfolding simulates_def sizes_simps using dealloc_repr [OF rp p' d] simD [OF s] by (auto split: if_splits)
  with d show thesis by (rule that)
qed

lemma sim_store:
  assumes s: "sim s H" and p: "H p = Some (k, w)" and i: "i < k"
  shows "sim (store s (p + i) v) (H(p \<mapsto> (k, w(i \<mapsto> v))))"
proof -
  have rp: "repr s (sizes H)" using s by (simp add: simulates_def)
  have lv: "in_live (sizes H) (p + i)" using p i by (rule sim_cell_live)
  have sz: "(sizes H)(p \<mapsto> k) = sizes H" using p by (auto simp: sizes_def)
  have other: "load (store s (p + i) v) (q + j) = u"
    if "H q = Some (l, y)" "y j = Some u" "q \<noteq> p \<or> j \<noteq> i" for q l y j u
  proof -
    have j: "j < l" "load s (q + j) = u" using simD [OF s that(1,2)] by auto
    have "q + j \<noteq> p + i"
      using apart [OF rp, of p k q l] that(1,3) p i j(1) by (cases "p = q") (auto simp: sizes_def)
    then show ?thesis using store_load [OF rp lv sim_cell_live [of H, OF that(1) j(1)]] j(2) by simp
  qed
  have "load (store s (p + i) v) (p + i) = v" using store_load [OF rp lv lv] by simp
  then show ?thesis
    unfolding simulates_def sizes_simps sz
    using store_repr [OF rp lv] other simD [OF s] p i by (auto split: if_splits)
qed

text \<open>Every legal action returns and does what the abstract heap allows.\<close>

lemma step_simulates:
  assumes s: "sim s H" and c: "legal lim H c"
  shows "\<exists>r s' H'. exec alloc dealloc store s c = Some (r, s') \<and> hstep H c r H' \<and> sim s' H'"
proof (cases c)
  case (Alloc n)
  have rp: "repr s (sizes H)" using s by (simp add: simulates_def)
  have n: "n < lim" using c Alloc by simp
  obtain r s' where r: "alloc s n = Some (r, s')" using alloc_returns [OF rp n] by blast
  show ?thesis
  proof (cases r)
    case None
    then have "sim s' H"
      using r alloc_none [OF rp n] alloc_load [OF rp n r] simD [OF s] sim_cell_live unfolding simulates_def by fastforce
    with r None Alloc show ?thesis by (auto intro: hstep.alloc_fail)
  next
    case (Some p)
    with r sim_alloc [OF s n] Alloc show ?thesis by auto
  qed
next
  case (Free p)
  then have p: "p \<in> dom H" using c by simp
  obtain s' where "dealloc s p = Some s'" "sim s' (H(p := None))" by (rule sim_free [OF s p])
  with Free p show ?thesis by (auto intro: hstep.free)
next
  case (Store p i v)
  with c obtain k w where "H p = Some (k, w)" "i < k" by (auto split: option.splits)
  with sim_store [OF s this] Store show ?thesis by (auto intro: hstep.store)
qed

text \<open>Filling cells of live blocks with one byte.\<close>

lemma fill_live:
  "repr s L \<Longrightarrow> (\<And>x. x \<in> set xs \<Longrightarrow> in_live L x) \<Longrightarrow>
   repr (fold (\<lambda>x s. store s x v) xs s) L \<and>
   (\<forall>y. in_live L y \<longrightarrow> load (fold (\<lambda>x s. store s x v) xs s) y = (if y \<in> set xs then v else load s y))"
proof (induction xs arbitrary: s)
  case (Cons x xs)
  have x: "in_live L x" using Cons.prems(2) by simp
  have "repr (store s x v) L" by (rule store_repr [OF Cons.prems(1) x])
  with Cons.IH [of "store s x v"] Cons.prems(2) store_load [OF Cons.prems(1) x] show ?case by auto
qed simp

text \<open>A sequence of actions runs to its end as the abstract heap allows, unless one of them is illegal when its turn comes: the
  actions before it have been executed, with their results, and the heap they have led to, which the provider's state represents, does not
  allow it.\<close>

lemma run_simulates:
  "sim s H \<Longrightarrow>
   (\<exists>rs s' H'. exec_all (exec alloc dealloc store) s cs = Some (rs, s') \<and> hrun H cs rs H' \<and> sim s' H') \<or>
   (\<exists>cs1 c cs2 rs s1 H1. cs = cs1 @ c # cs2 \<and> exec_all (exec alloc dealloc store) s cs1 = Some (rs, s1) \<and> hrun H cs1 rs H1 \<and>
      sim s1 H1 \<and> \<not> legal lim H1 c)"
proof (induction cs arbitrary: s H)
  case Nil
  then show ?case by (auto intro: hrun_Nil)
next
  case (Cons c cs)
  show ?case
  proof (cases "legal lim H c")
    case False
    with Cons.prems show ?thesis by (intro disjI2 exI [of _ "[]"]) (auto intro: hrun_Nil)
  next
    case True
    then obtain r s1 H1 where st: "exec alloc dealloc store s c = Some (r, s1)" "hstep H c r H1" "sim s1 H1"
      using step_simulates [OF Cons.prems] by blast
    from Cons.IH [OF st(3)] show ?thesis
    proof (elim disjE exE conjE)
      fix rs s' H' assume "exec_all (exec alloc dealloc store) s1 cs = Some (rs, s')" "hrun H1 cs rs H'" "sim s' H'"
      then show ?thesis using st by (auto intro: hrun_Cons)
    next
      fix cs1 c' cs2 rs s2 H2
      assume "cs = cs1 @ c' # cs2" "exec_all (exec alloc dealloc store) s1 cs1 = Some (rs, s2)" "hrun H1 cs1 rs H2" "sim s2 H2" "\<not> legal lim H2 c'"
      moreover from this have "exec_all (exec alloc dealloc store) s (c # cs1) = Some (r # rs, s2)" "hrun H (c # cs1) (r # rs) H2"
        using st(1,2) by (auto intro: hrun_Cons)
      ultimately show ?thesis by (intro disjI2 exI [of _ "c # cs1"]) auto
    qed
  qed
qed

end

section \<open>The memory pool meets the contract\<close>

definition pool_malloc :: "pmem \<Rightarrow> nat \<Rightarrow> (nat option \<times> pmem) option" where
  "pool_malloc pm n =
     map_option (\<lambda>(p, pm'). (if p = 0 then None else Some (unat p), pm')) (mpool_alloc pm (of_nat n))"

definition pool_dealloc :: "pmem \<Rightarrow> nat \<Rightarrow> pmem option" where
  "pool_dealloc pm p = Some (mpool_free pm (of_nat p))"

definition pool_load :: "pmem \<Rightarrow> nat \<Rightarrow> u8" where
  "pool_load pm x = snd pm (of_nat x)"

definition pool_store :: "pmem \<Rightarrow> nat \<Rightarrow> u8 \<Rightarrow> pmem" where
  "pool_store pm x v = (fst pm, (snd pm)(of_nat x := v))"

definition live_size :: "blk \<Rightarrow> nat option" where
  "live_size b = (if bfree b then None else Some (bw b))"

definition lmap :: "nat \<Rightarrow> blk list \<Rightarrow> (nat \<rightharpoonup> nat)" where
  "lmap a bs x = (if 8 dvd x then map_option ((*) 8) (bmap live_size (a + 2) bs (x div 8)) else None)"

definition pool_repr :: "pmem \<Rightarrow> (nat \<rightharpoonup> nat) \<Rightarrow> bool" where
  "pool_repr pm L \<longleftrightarrow>
     (\<exists>a bs. pool_inv a bs (fst pm) (snd pm) \<and> mp_cb_reqmem (fst pm) = None \<and> L = lmap a bs)"

definition pool_lim :: nat where
  "pool_lim = 2 ^ 64 - 15"

lemma lmap_iff:
  "lmap a bs x = Some k \<longleftrightarrow> (\<exists>p b. (p, b) \<in> blks a bs \<and> \<not> bfree b \<and> x = 8 * p \<and> k = 8 * bw b)"
proof -
  have "lmap a bs x = Some k \<longleftrightarrow> 8 dvd x \<and> (\<exists>n. bmap live_size (a + 2) bs (x div 8) = Some n \<and> k = 8 * n)"
    by (auto simp: lmap_def)
  also have "\<dots> \<longleftrightarrow> (\<exists>p b. (p, b) \<in> blks a bs \<and> \<not> bfree b \<and> x = 8 * p \<and> k = 8 * bw b)"
    unfolding bmap_iff live_size_def by (auto split: if_splits) (metis dvd_div_mult_self mult.commute)+
  finally show ?thesis .
qed

lemma lmap_upd:
  assumes "bmap live_size (a + 2) bs' = (bmap live_size (a + 2) bs)(p := v)"
  shows "lmap a bs' = (lmap a bs)(8 * p := map_option ((*) 8) v)"
  using assms by (auto simp: lmap_def fun_eq_iff)

lemma in_lmap:
  assumes "in_live (lmap a bs) x"
  obtains p b where "(p, b) \<in> blks a bs" "\<not> bfree b" "x div 8 \<in> payload p b"
proof -
  from assms obtain p b where "(p, b) \<in> blks a bs" "\<not> bfree b" "8 * p \<le> x" "x < 8 * p + 8 * bw b"
    unfolding in_live_def lmap_iff by blast
  moreover from this have "x div 8 \<in> payload p b" by (auto simp: payload_def)
  ultimately show ?thesis using that by blast
qed

text \<open>Equal cells hold equal bytes.\<close>

lemma cell_byte:
  assumes "cells m k = cells m' k" "k < 2 ^ 61" "i < 8"
  shows "m (of_nat (8 * k + i)) = m' (of_nat (8 * k + i))"
proof (rule bit_word_eqI)
  fix n assume "n < LENGTH(8)"
  then have n: "n < 8" by simp
  have b: "bit (rd64 M (of_nat (8 * k))) (8 * i + n) = bit (M (of_nat (8 * k + i))) n" for M
    using n assms(3) bit_rd64 [of "8 * i + n" M "of_nat (8 * k)"] by simp
  have "rd64 m (of_nat (8 * k)) = rd64 m' (of_nat (8 * k))"
    using assms(1,2) by (simp add: cells_def del: of_nat_mult)
  then show "bit (m (of_nat (8 * k + i))) n = bit (m' (of_nat (8 * k + i))) n" by (metis b)
qed

lemma chg_byte:
  assumes "chg S m m'" "x div 8 \<notin> S" "x < 2 ^ 64"
  shows "m' (of_nat x) = m (of_nat x)"
  using cell_byte [of m' "x div 8" m "x mod 8"] assms
  by (simp add: chg_def less_mult_imp_div_less del: of_nat_add of_nat_mult)

lemma store_chg:
  assumes "x < 2 ^ 64"
  shows "chg {x div 8} m (m(of_nat x := v))"
  unfolding chg_def
proof (intro allI impI)
  fix k assume "k \<notin> {x div 8}"
  then have k: "k \<noteq> x div 8" by simp
  show "cells (m(of_nat x := v)) k = cells m k"
  proof (cases "k < 2 ^ 61")
    case True
    have "(of_nat (8 * k) + of_nat i :: u64) \<noteq> of_nat x" if "i < 8" for i
    proof -
      have "8 * k + i \<noteq> x" using k that by auto
      then show ?thesis
        using of_nat64_eq_iff [of "8 * k + i" x] that True assms by (simp del: of_nat_mult)
    qed
    then have "rd64 (m(of_nat x := v)) (of_nat (8 * k)) = rd64 m (of_nat (8 * k))"
      by (intro rd64_cong) simp
    then show ?thesis by (simp add: cells_def del: of_nat_mult)
  qed (simp add: cells_def)
qed

lemma live_blk_bounds:
  assumes "pool_inv a bs pl m" "in_live (lmap a bs) x"
  shows "x < 2 ^ 64"
proof -
  obtain p b where b: "(p, b) \<in> blks a bs" "x div 8 \<in> payload p b" using in_lmap [OF assms(2)] by blast
  have "area (cells m) a bs" using assms(1) by (simp add: pool_inv_def pool_st_def)
  then have "x div 8 < 2 ^ 61" using area_blk(4) [OF _ b(1)] b(2) by (fastforce simp: payload_def)
  then show ?thesis by simp
qed

lemma live_size_simps [simp]:
  "live_size (Blk n f g) = (if f then None else Some n)" "bfree b \<Longrightarrow> live_size b = None"
  "\<not> bfree b \<Longrightarrow> live_size b = Some (bw b)"
  by (simp_all add: live_size_def)

lemma live_carve:
  assumes "p = k + span xs" "w \<le> bw b" "bfree b"
  shows "bmap live_size k (xs @ carve b w @ ys) = (bmap live_size k (xs @ b # ys))(p \<mapsto> bw (hd (carve b w)))"
proof -
  have "bmap live_size k (xs @ [b] @ ys) = bmap live_size k (xs @ b # ys)" by simp
  then show ?thesis
    using bmap_mid [OF assms(1), of live_size "carve b w" ys] bmap_mid [OF assms(1), of live_size "[b]" ys]
      span_carve [OF assms(2)] assms(2,3) by (auto simp: fun_eq_iff carve_def trim_def)
qed

text \<open>Freeing replaces a stretch around the block, in which nothing else is allocated, by one free block.\<close>

lemma release_form:
  assumes "\<not> bfree b" "p = k + span xs"
  obtains xs' mid ys' n where "xs @ b # ys = xs' @ mid @ ys'" "release xs b ys = xs' @ [Blk n True (b2M b)] @ ys'"
    "span mid = n + 2" "bmap live_size (k + span xs') mid = [p \<mapsto> bw b]"
proof -
  obtain xs' pre where pre: "xs = xs' @ pre" "pre = [] \<or> (\<exists>d. pre = [d] \<and> bfree d)"
    "\<And>n. absorb_prev xs n = (xs', span pre + n)"
  proof (cases "xs \<noteq> [] \<and> bfree (last xs)")
    case True
    then show ?thesis by (intro that [of "butlast xs" "[last xs]"]) (auto simp: absorb_prev_def)
  qed (auto intro: that [of xs "[]"] simp: absorb_prev_def)
  obtain ys' post where post: "ys = post @ ys'" "post = [] \<or> (\<exists>d. post = [d] \<and> bfree d)"
    "absorb_next (bw b) ys = (bw b + span post, ys')"
  proof (cases "ys \<noteq> [] \<and> bfree (hd ys)")
    case True
    then show ?thesis by (intro that [of "[hd ys]" "tl ys"]) (auto simp: absorb_next_def split: list.splits)
  next
    case False
    then show ?thesis by (intro that [of "[]" ys]) (auto simp: absorb_next_def split: list.splits)
  qed
  show ?thesis
  proof (rule that [of xs' "pre @ b # post" ys' "span pre + (bw b + span post)"])
    show "bmap live_size (k + span xs') (pre @ b # post) = [p \<mapsto> bw b]"
      using assms pre(1,2) post(2) by (auto simp: fun_eq_iff)
  qed (use pre post in \<open>simp_all add: release_def\<close>)
qed

lemma span_release: "\<not> bfree b \<Longrightarrow> span (release xs b ys) = span (xs @ b # ys)"
  by (erule release_form [OF _ refl, where k = 0 and xs = xs and ys = ys]) simp

lemma live_release:
  assumes "\<not> bfree b" "p = k + span xs"
  shows "bmap live_size k (release xs b ys) = (bmap live_size k (xs @ b # ys))(p := None)"
proof -
  obtain xs' mid ys' n where R: "xs @ b # ys = xs' @ mid @ ys'" "release xs b ys = xs' @ [Blk n True (b2M b)] @ ys'"
    "span mid = n + 2" "bmap live_size (k + span xs') mid = [p \<mapsto> bw b]"
    by (rule release_form [OF assms])
  have "bmap live_size (k + span xs') mid p \<noteq> None" using R(4) by simp
  then have p: "k + span xs' \<le> p" "p < k + span xs' + span mid"
    using bmap_below [of p "k + span xs'" live_size mid] bmap_above [of "k + span xs'" mid p live_size]
    by (meson not_le)+
  have e: "span [Blk n True (b2M b)] = span mid" using R(3) by simp
  show ?thesis
    unfolding R(1,2) bmap_mid [OF refl] e R(4) using p by (auto simp: fun_eq_iff)
qed

text \<open>Blocks of the two sides are untouched by an operation on the middle.\<close>

lemma side_load:
  assumes inv: "pool_inv a bs pl m" and bs: "bs = xs @ b # ys" and ch: "chg (slack a xs (bw b + 2) ys) m m'"
    and x: "in_live (lmap a bs) x" and np: "\<And>q d. (q, d) \<in> blks a bs \<Longrightarrow> \<not> bfree d \<Longrightarrow> x div 8 \<in> payload q d \<Longrightarrow> q \<noteq> a + 2 + span xs"
  shows "m' (of_nat x) = m (of_nat x)"
proof (rule chg_byte [OF ch _ live_blk_bounds [OF inv x]])
  obtain q d where q: "(q, d) \<in> blks a bs" "\<not> bfree d" "x div 8 \<in> payload q d" using in_lmap [OF x] by blast
  have "(q, d) \<in> set (place (a + 2) xs) \<union> set (place (a + 2 + span xs + (bw b + 2)) ys)"
    using q(1) np [OF q] unfolding bs by (auto simp: place_append add.assoc)
  then show "x div 8 \<notin> slack a xs (bw b + 2) ys" using q(2,3) by (rule live_not_slack)
qed

text \<open>One operation, in terms of the blocks: \<open>kept\<close> says that the area is still in order, in the same place and of the same
  size, its first word and every cell outside it untouched.\<close>

definition kept :: "nat \<Rightarrow> blk list \<Rightarrow> mpool \<Rightarrow> mem \<Rightarrow> blk list \<Rightarrow> mpool \<Rightarrow> mem \<Rightarrow> bool" where
  "kept a bs pl m bs' pl' m' \<longleftrightarrow> pool_inv a bs' pl' m' \<and> mp_cb_reqmem pl' = mp_cb_reqmem pl \<and>
     mp_cb_delmem pl' = mp_cb_delmem pl \<and> span bs' = span bs \<and> b2M ` set bs' \<subseteq> b2M ` set bs \<and>
     chg {a + 1..<a + 2 + span bs} m m'"

lemma slack_area: "slack a xs (bw b + 2) ys \<subseteq> {a + 1..<a + 2 + span (xs @ b # ys)}"
  by (auto simp: slack_def)

lemma carve_flag: "b2M ` set (xs @ carve b w @ ys) = b2M ` set (xs @ b # ys)"
  by (auto simp: carve_def trim_def)

lemma release_flag: "b2M ` set (release xs b ys) \<subseteq> b2M ` set (xs @ b # ys)"
  by (auto simp: release_def absorb_next_def absorb_prev_def split_beta Let_def split: list.splits dest: in_set_butlastD)

lemma pool_alloc_step:
  assumes inv: "pool_inv a bs pl m" and cb: "mp_cb_reqmem pl = None" and n: "n < pool_lim"
  shows "mpool_alloc (pl, m) (of_nat n) = Some (0, pl, m) \<or>
    (\<exists>q d bs' pl' m'. mpool_alloc (pl, m) (of_nat n) = Some (adr q, pl', m') \<and> kept a bs pl m bs' pl' m' \<and>
       (q, d) \<in> blks a bs' \<and> 8 * q \<notin> dom (lmap a bs) \<and> n \<le> 8 * bw d \<and> lmap a bs' = (lmap a bs)(8 * q \<mapsto> 8 * bw d) \<and>
       mp_alloced_size pl' = mp_alloced_size pl + adr (bw d) \<and>
       (\<forall>x. in_live (lmap a bs) x \<longrightarrow> m' (of_nat x) = m (of_nat x)))"
proof -
  let ?s = "of_nat n :: u64" and ?w = "req_words (of_nat n)"
  have s: "unat ?s + 15 < 2 ^ 64" and un: "unat ?s = n" using n by (simp_all add: pool_lim_def)
  from mpool_alloc_st [OF inv cb s] show ?thesis
  proof (elim disjE exE conjE)
    fix xs b ys pl' m'
    assume bs: "bs = xs @ b # ys" and b: "bfree b" "?w \<le> bw b"
      and al: "mpool_alloc (pl, m) ?s = Some (adr (a + 2 + span xs), pl', m')"
      and inv': "pool_inv a (xs @ carve b ?w @ ys) pl' m'" and ch: "chg (slack a xs (bw b + 2) ys) m m'"
      and sb: "same_base (pl\<lparr>mp_alloced_size := mp_alloced_size pl + adr (bw (hd (carve b ?w)))\<rparr>) pl'"
    let ?p = "a + 2 + span xs" and ?d = "hd (carve b ?w)" and ?bs = "xs @ carve b ?w @ ys"
    have pb: "(?p, b) \<in> blks a bs" using bs by (simp add: place_append)
    have "kept a bs pl m ?bs pl' m'"
      unfolding kept_def using inv' sb span_carve [OF b(2)] carve_flag [of xs b ?w ys] chg_mono [OF ch slack_area]
      by (simp add: bs same_base_def)
    moreover have "(?p, ?d) \<in> blks a ?bs" by (simp add: place_append carve_def trim_def)
    moreover have "lmap a ?bs = (lmap a bs)(8 * ?p \<mapsto> 8 * bw ?d)"
      using lmap_upd [OF live_carve [OF refl b(2,1), of "a + 2" xs ys]] by (simp add: bs)
    moreover have "n \<le> 8 * bw ?d" using req_words_ok(4) [of ?s] b(2) un by (auto simp: carve_def trim_def)
    moreover have "8 * ?p \<notin> dom (lmap a bs)"
    proof
      assume "8 * ?p \<in> dom (lmap a bs)"
      then obtain y where "lmap a bs (8 * ?p) = Some y" by blast
      then obtain q d where q: "(q, d) \<in> blks a bs" "\<not> bfree d" "8 * ?p = 8 * q" unfolding lmap_iff by blast
      then show False using place_apart [OF pb q(1)] b(1) by auto
    qed
    moreover have "m' (of_nat x) = m (of_nat x)" if "in_live (lmap a bs) x" for x
    proof -
      have "q \<noteq> ?p" if "(q, d) \<in> blks a bs" "\<not> bfree d" for q d
        using place_apart [OF pb that(1)] that(2) b(1) by auto
      then show ?thesis using side_load [OF inv bs ch] that by blast
    qed
    moreover have "mp_alloced_size pl' = mp_alloced_size pl + adr (bw ?d)" using sb by (simp add: same_base_def)
    ultimately show ?thesis using al by blast
  qed simp
qed

lemma pool_free_step:
  assumes inv: "pool_inv a bs pl m" and b: "(q, b) \<in> blks a bs" "\<not> bfree b"
  obtains bs' pl' m' where "mpool_free (pl, m) (adr q) = (pl', m')" "kept a bs pl m bs' pl' m'"
    "lmap a bs' = (lmap a bs)(8 * q := None)" "mp_alloced_size pl' = mp_alloced_size pl - adr (bw b)"
    "\<And>x. in_live ((lmap a bs)(8 * q := None)) x \<Longrightarrow> m' (of_nat x) = m (of_nat x)"
proof -
  obtain xs ys where bs: "bs = xs @ b # ys" and q: "q = a + 2 + span xs" using b(1) by (auto simp: place_decomp)
  obtain pl' m' where F: "mpool_free (pl, m) (adr q) = (pl', m')" "pool_inv a (release xs b ys) pl' m'"
    "chg (slack a xs (bw b + 2) ys) m m'"
    "same_base (pl\<lparr>mp_alloced_size := mp_alloced_size pl - adr (bw b)\<rparr>) pl'"
    by (rule mpool_free_st [OF inv [unfolded bs] q b(2)])
  have "span (release xs b ys) = span bs"
    using span_release [OF b(2)] by (simp add: bs)
  then have k: "kept a bs pl m (release xs b ys) pl' m'"
    unfolding kept_def using F(2,4) release_flag [of xs b ys] chg_mono [OF F(3) slack_area] by (simp add: bs same_base_def)
  have lm: "lmap a (release xs b ys) = (lmap a bs)(8 * q := None)"
    using lmap_upd [OF live_release [OF b(2) q, of ys]] by (simp add: bs)
  have ld: "m' (of_nat x) = m (of_nat x)" if x: "in_live ((lmap a bs)(8 * q := None)) x" for x
  proof -
    have xl: "in_live (lmap a bs) x" using x by (auto simp: in_live_def split: if_splits)
    obtain p' k where p': "((lmap a bs)(8 * q := None)) p' = Some k" "p' \<le> x" "x < p' + k" using x by (auto simp: in_live_def)
    then obtain q' d' where q': "(q', d') \<in> blks a bs" "p' = 8 * q'" "k = 8 * bw d'" "q' \<noteq> q"
      by (auto simp: lmap_iff split: if_splits)
    have "x div 8 \<in> payload q' d'" using p'(2,3) q'(2,3) by (auto simp: payload_def)
    then have "x div 8 \<notin> payload q b" using place_apart [OF q'(1) b(1)] q'(4) by (auto simp: payload_def)
    then have "q'' \<noteq> q" if "(q'', d'') \<in> blks a bs" "x div 8 \<in> payload q'' d''" for q'' d''
      using place_apart [OF that(1) b(1)] that(2) by auto
    then show ?thesis using side_load [OF inv bs F(3) xl] by (simp add: q)
  qed
  show thesis using that [OF F(1) k lm _ ld] F(4) by (simp add: same_base_def)
qed

lemma pool_store_step:
  assumes inv: "pool_inv a bs pl m" and x: "in_live (lmap a bs) x"
  shows "pool_inv a bs pl (m(of_nat x := v))" "chg {a + 1..<a + 2 + span bs} m (m(of_nat x := v))"
proof -
  obtain q d where q: "(q, d) \<in> blks a bs" "\<not> bfree d" "x div 8 \<in> payload q d" using in_lmap x by blast
  have st: "pool_st a bs (fnodes (a + 2) bs) pl m" using inv by (simp add: pool_inv_def)
  have ar: "area (cells m) a bs" using st by (simp add: pool_st_def)
  have ch: "chg {x div 8} m (m(of_nat x := v))" using live_blk_bounds [OF inv x] by (intro store_chg)
  have nl: "{x div 8} \<inter> links (dom (fnodes (a + 2) bs)) = {}"
  proof -
    have "q \<notin> dom (fnodes (a + 2) bs)"
    proof
      assume "q \<in> dom (fnodes (a + 2) bs)"
      then obtain d' where "(q, d') \<in> blks a bs" "bfree d'" using fnodes_iff [of "a + 2" bs q] by blast
      then show False using place_apart [OF q(1)] q(2) by fastforce
    qed
    moreover have "x div 8 \<in> zone q d" using q(3) by (auto simp: payload_def zone_def)
    ultimately show ?thesis using zone_not_link [OF ar fnodes_dom q(1)] by blast
  qed
  have "area (cells (m(of_nat x := v))) a bs"
  proof (rule area_payload_cong [OF ar])
    fix y assume "\<forall>(p, b)\<in>blks a bs. y \<notin> payload p b"
    then have "y \<noteq> x div 8" using q(1,3) by blast
    then show "cells (m(of_nat x := v)) y = cells m y" using ch by (simp add: chg_def)
  qed
  then have "pool_st a bs (fnodes (a + 2) bs) pl (m(of_nat x := v))"
    using frame_st [OF st ch nl] fnodes_dom by blast
  then show "pool_inv a bs pl (m(of_nat x := v))" using inv by (simp add: pool_inv_def)
  show "chg {a + 1..<a + 2 + span bs} m (m(of_nat x := v))"
    using place_bounds [OF q(1)] q(3) by (intro chg_mono [OF ch]) (auto simp: payload_def)
qed

lemma pool_malloc_cases:
  assumes r: "pool_repr pm L" and n: "n < pool_lim"
  shows "pool_malloc pm n = Some (None, pm) \<or>
    (\<exists>p k pm'. pool_malloc pm n = Some (Some p, pm') \<and> p \<notin> dom L \<and> n \<le> k \<and> pool_repr pm' (L(p \<mapsto> k)) \<and>
       (\<forall>x. in_live L x \<longrightarrow> pool_load pm' x = pool_load pm x))"
proof -
  obtain pl m where pm: "pm = (pl, m)" by (cases pm)
  obtain a bs where inv: "pool_inv a bs pl m" and cb: "mp_cb_reqmem pl = None" and L: "L = lmap a bs"
    using r unfolding pool_repr_def pm by auto
  from pool_alloc_step [OF inv cb n] show ?thesis
  proof (elim disjE exE conjE)
    assume "mpool_alloc (pl, m) (of_nat n) = Some (0, pl, m)"
    then show ?thesis by (simp add: pool_malloc_def pm)
  next
    fix q d bs' pl' m'
    assume al: "mpool_alloc (pl, m) (of_nat n) = Some (adr q, pl', m')" and k: "kept a bs pl m bs' pl' m'"
      and d: "(q, d) \<in> blks a bs'" and q: "8 * q \<notin> dom (lmap a bs)" "n \<le> 8 * bw d"
      and lm: "lmap a bs' = (lmap a bs)(8 * q \<mapsto> 8 * bw d)"
      and ld: "\<forall>x. in_live (lmap a bs) x \<longrightarrow> m' (of_nat x) = m (of_nat x)"
    have "area (cells m') a bs'" using k by (simp add: kept_def pool_inv_def pool_st_def)
    then have "q < 2 ^ 61" "q \<noteq> 0" using area_blk(3,4) [OF _ d] by fastforce+
    then have "pool_malloc pm n = Some (Some (8 * q), pl', m')"
      using al unat_adr [of q] by (simp add: pool_malloc_def pm)
    moreover have "pool_repr (pl', m') (L(8 * q \<mapsto> 8 * bw d))"
      unfolding pool_repr_def using k cb lm L by (auto simp: kept_def intro!: exI [of _ a] exI [of _ bs'])
    ultimately show ?thesis using q ld by (intro disjI2 exI [of _ "8 * q"] exI [of _ "8 * bw d"] exI [of _ "(pl', m')"]) (simp add: pool_load_def pm L)
  qed
qed

lemma pool_dealloc_spec:
  assumes r: "pool_repr pm L" and p: "p \<in> dom L"
  shows "\<exists>pm'. pool_dealloc pm p = Some pm' \<and> pool_repr pm' (L(p := None)) \<and>
    (\<forall>x. in_live (L(p := None)) x \<longrightarrow> pool_load pm' x = pool_load pm x)"
proof -
  obtain pl m where pm: "pm = (pl, m)" by (cases pm)
  obtain a bs where inv: "pool_inv a bs pl m" and cb: "mp_cb_reqmem pl = None" and L: "L = lmap a bs"
    using r unfolding pool_repr_def pm by auto
  obtain y where "lmap a bs p = Some y" using p unfolding L by blast
  then obtain q b where b: "(q, b) \<in> blks a bs" "\<not> bfree b" "p = 8 * q" unfolding lmap_iff by blast
  obtain bs' pl' m' where F: "mpool_free (pl, m) (adr q) = (pl', m')" "kept a bs pl m bs' pl' m'"
    "lmap a bs' = (lmap a bs)(8 * q := None)"
    "\<And>x. in_live ((lmap a bs)(8 * q := None)) x \<Longrightarrow> m' (of_nat x) = m (of_nat x)"
    by (rule pool_free_step [OF inv b(1,2)]) blast
  have "pool_dealloc pm p = Some (pl', m')" using F(1) by (simp add: pool_dealloc_def pm b(3) adr_def)
  moreover have "pool_repr (pl', m') (L(p := None))"
    unfolding pool_repr_def using F(2,3) cb L b(3) by (auto simp: kept_def intro!: exI [of _ a] exI [of _ bs'])
  ultimately show ?thesis using F(4) by (simp add: pool_load_def pm L b(3))
qed

lemma pool_store_spec:
  assumes r: "pool_repr pm L" and x: "in_live L x"
  shows "pool_repr (pool_store pm x v) L"
  using assms pool_store_step(1) unfolding pool_repr_def pool_store_def by fastforce

interpretation pool: allocator pool_malloc pool_dealloc pool_load pool_store pool_repr pool_lim
proof (unfold_locales, goal_cases)
  case (1 s L p i q j)
  then obtain a bs where L: "L = lmap a bs" by (auto simp: pool_repr_def)
  obtain p' b where "(p', b) \<in> blks a bs" "p = 8 * p'" "i = 8 * bw b"
    using 1(2) unfolding L lmap_iff by blast
  moreover obtain q' d where "(q', d) \<in> blks a bs" "q = 8 * q'" "j = 8 * bw d"
    using 1(3) unfolding L lmap_iff by blast
  ultimately show ?case using place_apart [of p' b "a + 2" bs q' d] 1(4) by auto
next
  case (2 s L n) then show ?case using pool_malloc_cases [of s L n] by blast
next
  case (3 s L n s') then show ?case using pool_malloc_cases [of s L n] by auto
next
  case (4 s L n p s') then show ?case using pool_malloc_cases [of s L n] by auto
next
  case (5 s L n r s' x) then show ?case using pool_malloc_cases [of s L n] by auto
next
  case (6 s L p) then show ?case using pool_dealloc_spec by blast
next
  case (7 s L p s') then show ?case using pool_dealloc_spec by fastforce
next
  case (8 s L p s' x) then show ?case using pool_dealloc_spec by fastforce
next
  case (9 s L x v) then show ?case by (rule pool_store_spec)
next
  case (10 s L x y v)
  then obtain a bs where "pool_inv a bs (fst s) (snd s)" "L = lmap a bs" by (auto simp: pool_repr_def)
  then have "x < 2 ^ 64" "y < 2 ^ 64" using live_blk_bounds 10(2,3) by blast+
  then show ?case by (simp add: pool_load_def pool_store_def of_nat64_eq_iff)
qed

section \<open>Fresh pools\<close>

lemma and_15_even:
  assumes "(w :: u64) AND 15 = 0"
  shows "\<exists>k. even k \<and> w = adr k \<and> unat w = 8 * k"
proof -
  have m: "(15 :: u64) = mask 4" by (simp add: mask_eq_exp_minus_1)
  have "take_bit 4 w = 0" using assms unfolding m by (simp add: take_bit_eq_mask)
  then have "w mod 16 = 0" by (simp add: take_bit_eq_mod)
  then have "unat w mod 16 = 0" by (simp add: word_unat_eq_iff unat_mod)
  then have e: "unat w = 8 * (2 * (unat w div 16))" using div_mult_mod_eq [of "unat w" 16] by simp
  then have "w = adr (2 * (unat w div 16))" unfolding adr_def by (metis of_nat_unat ucast_id)
  with e show ?thesis by (intro exI [of _ "2 * (unat w div 16)"]) simp
qed

definition pool_region :: "u64 \<Rightarrow> u64 \<Rightarrow> bool" where
  "pool_region p s \<longleftrightarrow> p \<noteq> 0 \<and> p AND 15 = 0 \<and> s AND 15 = 0 \<and> 16416 \<le> unat s \<and> unat s < 2 ^ 63 \<and> unat p + unat s < 2 ^ 64"

lemma mpool_init_region:
  assumes "pool_region p s"
  obtains pl m' a k where "p = adr a" "s = adr (k + 4)" "mpool_init (Some pl0) p s m = (True, Some pl, m')"
    "pool_inv a [Blk k True (s = SIZE_2M)] pl m'" "chg {a..<a + k + 4} m m'"
    "mp_alloced_size pl = 0" "mp_cb_reqmem pl = None" "unat p = 8 * a" "unat s = 8 * (k + 4)" "2048 \<le> k"
proof -
  obtain a where a: "even a" "p = adr a" "unat p = 8 * a" using assms and_15_even by (auto simp: pool_region_def)
  obtain n where n: "even n" "s = adr n" "unat s = 8 * n" using assms and_15_even by (auto simp: pool_region_def)
  define k where "k = n - 4"
  have k: "n = k + 4" "2048 \<le> k" "even k" using assms n by (auto simp: k_def pool_region_def)
  have "a \<noteq> 0"
  proof
    assume "a = 0"
    with a(2) have "p = 0" by (simp add: adr_def)
    with assms show False by (simp add: pool_region_def)
  qed
  then have "2 \<le> a" using a(1) by presburger
  moreover have "a + k + 4 < 2 ^ 61" "k + 4 < 2 ^ 60" using assms a(3) n(3) k(1) by (auto simp: pool_region_def)
  ultimately show ?thesis
    using mpool_init_st [OF _ a(1) _ k(3,2), of pl0 m] that [of a k] a n k by (metis (no_types, lifting))
qed

lemma mpool_init_simulates:
  assumes "pool_region p s" "mpool_init (Some pl0) p s m = (True, Some pl, m')"
  shows "simulates pool_load pool_repr (pl, m') Map.empty"
proof -
  obtain pl1 m1 a k where I: "mpool_init (Some pl0) p s m = (True, Some pl1, m1)"
    "pool_inv a [Blk k True (s = SIZE_2M)] pl1 m1" "mp_cb_reqmem pl1 = None"
    by (rule mpool_init_region [OF assms(1), of pl0 m]) blast
  have "sizes Map.empty = lmap a [Blk k True (s = SIZE_2M)]"
    by (auto simp: lmap_def sizes_def fun_eq_iff)
  then have "pool_repr (pl1, m1) (sizes Map.empty)" using I(2,3) unfolding pool_repr_def by (metis fst_conv snd_conv)
  with I(1) assms(2) show ?thesis by (simp add: simulates_def)
qed

lemma pool_malloc_fresh:
  assumes "pool_inv a [Blk k True g] pl m" "mp_cb_reqmem pl = None" "n < pool_lim" "req_words (of_nat n) \<le> k"
  obtains p pm' where "pool_malloc (pl, m) n = Some (Some p, pm')"
proof -
  have "unat (of_nat n :: u64) + 15 < 2 ^ 64" using assms(3) by (simp add: pool_lim_def)
  moreover have "\<not> no_fit a [Blk k True g] (\<lambda>_. True) (req_words (of_nat n))" using assms(4) by (simp add: no_fit_def)
  ultimately obtain xs b ys pl' m' where A: "[Blk k True g] = xs @ b # ys" "mpool_alloc (pl, m) (of_nat n) = Some (adr (a + 2 + span xs), pl', m')"
    using mpool_alloc_st [OF assms(1,2)] by blast
  have "area (cells m) a [Blk k True g]" using assms(1) by (simp add: pool_inv_def pool_st_def)
  moreover have "(a + 2 + span xs, b) \<in> blks a [Blk k True g]" unfolding A(1) by (simp add: place_append)
  ultimately have "adr (a + 2 + span xs) \<noteq> 0" using area_blk(3,4) by fastforce
  then show thesis using that A(2) by (simp add: pool_malloc_def)
qed

lemma byte_cell:
  assumes "chg {a..<a + n} m m'" "unat x < 8 * a \<or> 8 * (a + n) \<le> unat x"
  shows "m' x = m x"
proof -
  have "unat x div 8 \<notin> {a..<a + n}" using assms(2) by simp arith
  then show ?thesis using chg_byte [OF assms(1), of "unat x"] unat_less_2p64 [of x] by simp
qed

abbreviation heap_start :: u64 where "heap_start \<equiv> 0xffffc00000000000"
abbreviation heap_size :: u64 where "heap_size \<equiv> 8 * 1024 * 1024"

lemma heap_region: "pool_region heap_start heap_size"
  by (simp add: pool_region_def)

section \<open>Properties\<close>

text \<open>C18: \<open>mpool_init\<close> on a 16-byte aligned region of at least 16416 bytes succeeds, leaves a pool that represents
  the empty heap, with the counter of allocated bytes at zero, and writes nowhere else.\<close>

theorem mpool_init_empty_heap:
  assumes "pool_region p s"
  shows "\<exists>pl m'. mpool_init (Some pl0) p s m = (True, Some pl, m') \<and>
    simulates pool_load pool_repr (pl, m') Map.empty \<and> mp_alloced_size pl = 0 \<and>
    (\<forall>x. unat x < unat p \<or> unat p + unat s \<le> unat x \<longrightarrow> m' x = m x)"
proof -
  obtain pl m' a k where I: "mpool_init (Some pl0) p s m = (True, Some pl, m')" "chg {a..<a + k + 4} m m'"
    "mp_alloced_size pl = 0" "unat p = 8 * a" "unat s = 8 * (k + 4)"
    by (rule mpool_init_region [OF assms, of pl0 m]) blast
  have "m' x = m x" if "unat x < unat p \<or> unat p + unat s \<le> unat x" for x
    using that I(4,5) by (intro byte_cell [OF I(2) [unfolded add.assoc]]) auto
  then show ?thesis using I(1,3) mpool_init_simulates [OF assms I(1)] by blast
qed

text \<open>The pool before it is initialised, all zero.\<close>

definition blank_pool :: mpool where
  "blank_pool = \<lparr>mp_ptr = 0, mp_size = 0, mp_alloced_size = 0, mp_cb_reqmem = None, mp_cb_delmem = None,
     mp_large_blk = 0, mp_freed = replicate FREELIST_NUM 0\<rparr>"

theorem mpool_init_empty_heap_witness:
  "\<exists>pl m'. mpool_init (Some blank_pool) heap_start heap_size (\<lambda>_. 0) = (True, Some pl, m') \<and> mp_alloced_size pl = 0"
  using mpool_init_empty_heap [OF heap_region, of blank_pool "\<lambda>_. 0"] by blast

text \<open>C1: the memory pool implements the abstract heap. From a state that represents a heap, any sequence of
  allocations, releases and stores runs to its end (no list walk diverges) with results the abstract heap allows: an
  allocation returns null or a block, of at least the requested size, apart from every live block; and whatever the client
  stored in a block stays there until it stores again or frees the block. The only exception is an action the client may not
  take: freeing or writing outside its blocks, or asking for more than \<open>2 ^ 64 - 16\<close> bytes.\<close>

theorem mpool_refines_heap:
  assumes "simulates pool_load pool_repr pm H"
  shows "(\<exists>rs pm' H'. exec_all (exec pool_malloc pool_dealloc pool_store) pm cs = Some (rs, pm') \<and> hrun H cs rs H' \<and>
       simulates pool_load pool_repr pm' H') \<or>
    (\<exists>cs1 c cs2 rs pm1 H1. cs = cs1 @ c # cs2 \<and> exec_all (exec pool_malloc pool_dealloc pool_store) pm cs1 = Some (rs, pm1) \<and> hrun H cs1 rs H1 \<and>
       simulates pool_load pool_repr pm1 H1 \<and> \<not> legal pool_lim H1 c)"
  by (rule pool.run_simulates [OF assms])

theorem mpool_refines_heap_witness:
  "\<exists>pl m' p rs pm'. mpool_init (Some blank_pool) heap_start heap_size (\<lambda>_. 0) = (True, Some pl, m') \<and>
     exec_all (exec pool_malloc pool_dealloc pool_store) (pl, m') [Alloc 100, Store p 99 7, Free p, Alloc 20000] = Some (Some p # rs, pm')"
proof -
  obtain pl m' a k where I: "mpool_init (Some blank_pool) heap_start heap_size (\<lambda>_. 0) = (True, Some pl, m')"
    "pool_inv a [Blk k True (heap_size = SIZE_2M)] pl m'" "mp_cb_reqmem pl = None" "2048 \<le> k"
    by (rule mpool_init_region [OF heap_region, of blank_pool "\<lambda>_. 0"]) blast
  have lim: "99 < (100 :: nat)" "(100 :: nat) < pool_lim" "(20000 :: nat) < pool_lim" by (simp_all add: pool_lim_def)
  obtain p pm1 where al: "pool_malloc (pl, m') 100 = Some (Some p, pm1)"
    by (rule pool_malloc_fresh [OF I(2,3) lim(2)]) (use I(4) in \<open>auto simp: req_words_def\<close>)
  show ?thesis
    using client_runs [where alloc = pool_malloc, OF al lim mpool_refines_heap [OF mpool_init_simulates [OF heap_region I(1)]]] I(1) by blast
qed

text \<open>C19: an allocation fails only when it must: null means that no free block holds the request (rounded up to a
  multiple of 16, at least 16), and then nothing has changed. Otherwise the block returned was free.\<close>

theorem mpool_alloc_fails_only_when_full:
  assumes "pool_inv a bs pl m" "mp_cb_reqmem pl = None" "unat s + 15 < 2 ^ 64"
  shows "\<exists>p pl' m'. mpool_alloc (pl, m) s = Some (p, pl', m') \<and>
    (p = 0 \<longleftrightarrow> (\<forall>(q, b)\<in>blks a bs. bfree b \<longrightarrow> bw b < req_words s)) \<and>
    (p = 0 \<longrightarrow> (pl', m') = (pl, m)) \<and>
    (p \<noteq> 0 \<longrightarrow> (\<exists>q b. (q, b) \<in> blks a bs \<and> bfree b \<and> p = adr q \<and> unat s \<le> unat (blk_size m' p)))"
  using mpool_alloc_st [OF assms]
proof (elim disjE exE conjE)
  assume "no_fit a bs (\<lambda>_. True) (req_words s)" "mpool_alloc (pl, m) s = Some (0, pl, m)"
  then show ?thesis by (auto simp: no_fit_def)
next
  fix xs b ys pl' m'
  let ?p = "a + 2 + span xs" and ?c = "carve b (req_words s)"
  assume bs: "bs = xs @ b # ys" and b: "bfree b" "req_words s \<le> bw b"
    and al: "mpool_alloc (pl, m) s = Some (adr ?p, pl', m')" and inv': "pool_inv a (xs @ ?c @ ys) pl' m'"
  have pb: "(?p, b) \<in> blks a bs" using bs by (simp add: place_append)
  have ar: "area (cells m) a bs" using assms(1) by (simp add: pool_inv_def pool_st_def)
  have ar': "area (cells m') a (xs @ ?c @ ys)" using inv' by (simp add: pool_inv_def pool_st_def)
  have pc: "(?p, hd ?c) \<in> blks a (xs @ ?c @ ys)" by (simp add: place_append carve_def trim_def)
  have "adr ?p \<noteq> 0" using area_blk(3,4) [OF ar pb] by simp
  moreover have "\<exists>(q, b)\<in>blks a bs. bfree b \<and> \<not> bw b < req_words s" using pb b by force
  moreover have "unat s \<le> unat (blk_size m' (adr ?p))"
    using area_reads(1) [OF ar' pc] area_blk(4) [OF ar' pc] req_words_ok(4) [of s] b(2)
    by (simp add: unat_adr) (auto simp: carve_def trim_def)
  ultimately show ?thesis using al pb b by (intro exI [of _ "adr ?p"] exI [of _ pl'] exI [of _ m']) auto
qed

theorem mpool_alloc_fails_only_when_full_witness:
  "\<exists>pl m' p pl2 m2. mpool_init (Some blank_pool) heap_start heap_size (\<lambda>_. 0) = (True, Some pl, m') \<and>
     mpool_alloc (pl, m') 1000 = Some (p, pl2, m2) \<and> p \<noteq> 0"
proof -
  obtain pl m' a k where I: "mpool_init (Some blank_pool) heap_start heap_size (\<lambda>_. 0) = (True, Some pl, m')"
    "pool_inv a [Blk k True (heap_size = SIZE_2M)] pl m'" "mp_cb_reqmem pl = None" "2048 \<le> k"
    by (rule mpool_init_region [OF heap_region, of blank_pool "\<lambda>_. 0"]) blast
  have "req_words 1000 = 126" by (simp add: req_words_def)
  with mpool_alloc_fails_only_when_full [OF I(2,3), of 1000] I(1,4) show ?thesis by auto
qed

text \<open>a request within 15 bytes of the largest \<open>size_t\<close> wraps around to a request for nothing, so it succeeds
  whenever any block is free, although no memory can hold it.\<close>

theorem mpool_alloc_huge_wraps:
  assumes "pool_inv a bs pl m" "2 ^ 64 \<le> unat s + 15" "(q, b) \<in> blks a bs" "bfree b"
  shows "req_size s = 0 \<and> (\<exists>p pm'. mpool_alloc (pl, m) s = Some (p, pm') \<and> p \<noteq> 0)"
proof -
  have u: "unat (s + 15) = unat s + 15 - 2 ^ 64"
    using assms(2) unat_less_2p64 [of s] by (simp add: unat_word_ariths mod_if)
  have "unat (s + 15) < 16" unfolding u using unat_less_2p64 [of s] by simp
  moreover have "PADDING s = (s + 15) AND NOT 15" unfolding PADDING_def by (simp add: add.commute)
  ultimately have "PADDING s = 0" by (simp only: and_not_15) simp
  moreover have "s \<noteq> 0" using assms(2) by auto
  ultimately have rs: "req_size s = adr 0" by (simp add: req_size_def adr_def)
  have ar: "area (cells m) a bs" using assms(1) by (simp add: pool_inv_def pool_st_def)
  have "found a bs pl m 0 (pool_match (pl, m) (adr 0))"
    using pool_match_st [OF assms(1), of 0] assms(3,4) by (auto simp: no_fit_def)
  then obtain p d where p: "(p, d) \<in> blks a bs" "pool_match (pl, m) (adr 0) = Some (adr p, pool_detach (pl, m) (adr p))"
    unfolding found_def by blast
  then have "adr p \<noteq> 0" using area_blk(3,4) [OF ar p(1)] by simp
  with p(2) have "\<exists>pm'. mpool_alloc (pl, m) s = Some (adr p, pm')"
    by (cases "pool_detach (pl, m) (adr p)") (simp add: mpool_alloc_def rs take_blk_def split_beta Let_def)
  with \<open>adr p \<noteq> 0\<close> rs show ?thesis by (auto simp: adr_def)
qed

theorem mpool_alloc_huge_wraps_witness:
  "\<exists>pl m' p pm'. mpool_init (Some blank_pool) heap_start heap_size (\<lambda>_. 0) = (True, Some pl, m') \<and>
     mpool_alloc (pl, m') 0xffffffffffffffff = Some (p, pm') \<and> p \<noteq> 0"
proof -
  obtain pl m' a k where I: "mpool_init (Some blank_pool) heap_start heap_size (\<lambda>_. 0) = (True, Some pl, m')"
    "pool_inv a [Blk k True (heap_size = SIZE_2M)] pl m'"
    by (rule mpool_init_region [OF heap_region, of blank_pool "\<lambda>_. 0"]) blast
  show ?thesis using mpool_alloc_huge_wraps [OF I(2), of "0xffffffffffffffff" "a + 2" "Blk k True (heap_size = SIZE_2M)"] I(1) by auto
qed

text \<open>No two neighbours are both free, and the counter of allocated bytes is the sum of the sizes of the
  allocated blocks.\<close>

definition coalesced :: "blk list \<Rightarrow> bool" where
  "coalesced bs = successively (\<lambda>b d. \<not> (bfree b \<and> bfree d)) bs"

definition live_words :: "blk list \<Rightarrow> nat" where
  "live_words bs = sum_list (map (\<lambda>b. if bfree b then 0 else bw b) bs)"

definition pool_good :: "nat \<Rightarrow> blk list \<Rightarrow> mpool \<Rightarrow> mem \<Rightarrow> bool" where
  "pool_good a bs pl m \<longleftrightarrow> pool_inv a bs pl m \<and> coalesced bs \<and> mp_alloced_size pl = adr (live_words bs) \<and>
     mp_cb_reqmem pl = None"

lemma coalesced_mid:
  "coalesced (xs @ b # ys) \<longleftrightarrow> coalesced xs \<and> coalesced ys \<and>
     (xs = [] \<or> \<not> (bfree (last xs) \<and> bfree b)) \<and> (ys = [] \<or> \<not> (bfree b \<and> bfree (hd ys)))"
  by (cases ys) (auto simp: coalesced_def successively_append_iff)

lemma coalesced_carve:
  assumes "coalesced (xs @ b # ys)" "bfree b"
  shows "coalesced (xs @ carve b w @ ys)"
  using assms coalesced_mid [of xs "Blk w False (b2M b)" "Blk (bw b - w - 2) True (b2M b) # ys"]
    coalesced_mid [of "[]" "Blk (bw b - w - 2) True (b2M b)" ys] coalesced_mid [of xs "Blk (bw b) False (b2M b)" ys]
  by (auto simp: carve_def trim_def coalesced_mid) (simp_all add: coalesced_def)

lemma coalesced_release:
  assumes "coalesced (xs @ b # ys)" "\<not> bfree b"
  shows "coalesced (release xs b ys)"
proof -
  have xs: "coalesced xs" and ys: "coalesced ys" using assms by (auto simp: coalesced_mid)
  obtain n1 ys' where n: "absorb_next (bw b) ys = (n1, ys')" by force
  obtain xs' n2 where p: "absorb_prev xs n1 = (xs', n2)" by force
  have y: "coalesced ys' \<and> (ys' = [] \<or> \<not> bfree (hd ys'))"
    using n ys coalesced_mid [of "[]"] by (cases ys) (auto simp: absorb_next_def split: if_splits)
  have x: "coalesced xs' \<and> (xs' = [] \<or> \<not> bfree (last xs'))"
  proof (cases "xs \<noteq> [] \<and> bfree (last xs)")
    case True
    then obtain zs d where "xs = zs @ [d]" "bfree d" by (metis append_butlast_last_id)
    with p xs coalesced_mid [of zs d "[]"] show ?thesis by (auto simp: absorb_prev_def)
  next
    case False
    with p xs show ?thesis by (auto simp: absorb_prev_def split: if_splits)
  qed
  show ?thesis using x y by (simp add: release_def n p coalesced_mid)
qed

lemma live_words_carve:
  "bfree b \<Longrightarrow> live_words (xs @ carve b w @ ys) = live_words (xs @ b # ys) + bw (hd (carve b w))"
  by (simp add: live_words_def carve_def trim_def)

lemma live_words_release:
  assumes "\<not> bfree b"
  shows "live_words (xs @ b # ys) = live_words (release xs b ys) + bw b"
proof -
  have "live_words xs = live_words (butlast xs)" if "xs \<noteq> []" "bfree (last xs)"
    using that by (cases xs rule: rev_cases) (simp_all add: live_words_def)
  then show ?thesis using assms
    by (auto simp: release_def absorb_next_def absorb_prev_def live_words_def split_beta Let_def split: list.splits)
qed

text \<open>\<open>mpool_alloc\<close> keeps the pool in order: the area stays tiled by well-formed blocks, the nine lists hold exactly
  the free blocks by size class, no two free blocks are adjacent, and the counter of allocated bytes grows by the size of
  the block handed out.\<close>

theorem mpool_alloc_keeps_order:
  assumes "pool_good a bs pl m" "unat s + 15 < 2 ^ 64"
  shows "\<exists>p pl' m' bs'. mpool_alloc (pl, m) s = Some (p, pl', m') \<and> pool_good a bs' pl' m' \<and> span bs' = span bs \<and>
    mp_alloced_size pl' = mp_alloced_size pl + mpool_msize (pl', m') p"
proof -
  have inv: "pool_inv a bs pl m" and cb: "mp_cb_reqmem pl = None" using assms by (auto simp: pool_good_def)
  from mpool_alloc_st [OF inv cb assms(2)] show ?thesis
  proof (elim disjE exE conjE)
    assume "mpool_alloc (pl, m) s = Some (0, pl, m)"
    then show ?thesis using assms(1) by (intro exI [of _ 0] exI [of _ pl] exI [of _ m] exI [of _ bs]) (simp add: mpool_msize_def)
  next
    fix xs b ys pl' m'
    let ?p = "a + 2 + span xs" and ?c = "carve b (req_words s)"
    assume bs: "bs = xs @ b # ys" and b: "bfree b" "req_words s \<le> bw b"
      and al: "mpool_alloc (pl, m) s = Some (adr ?p, pl', m')" and inv': "pool_inv a (xs @ ?c @ ys) pl' m'"
      and sb: "same_base (pl\<lparr>mp_alloced_size := mp_alloced_size pl + adr (bw (hd ?c))\<rparr>) pl'"
    have ar: "area (cells m) a bs" and ar': "area (cells m') a (xs @ ?c @ ys)"
      using inv inv' by (simp_all add: pool_inv_def pool_st_def)
    have pb: "(?p, b) \<in> blks a bs" using bs by (simp add: place_append)
    have pc: "(?p, hd ?c) \<in> blks a (xs @ ?c @ ys)" by (simp add: place_append carve_def trim_def)
    have "mpool_msize (pl', m') (adr ?p) = adr (bw (hd ?c))"
      using area_reads(1) [OF ar' pc] area_blk(3,4) [OF ar pb] by (simp add: mpool_msize_def)
    moreover have sz: "mp_alloced_size pl' = mp_alloced_size pl + adr (bw (hd ?c))" using sb by (simp add: same_base_def)
    moreover have "pool_good a (xs @ ?c @ ys) pl' m'"
      using assms(1) inv' sb sz coalesced_carve [of xs b ys "req_words s"] live_words_carve [OF b(1), of xs "req_words s" ys] b(1)
      by (simp add: pool_good_def same_base_def bs)
    moreover have "span (xs @ ?c @ ys) = span bs" using span_carve [OF b(2)] bs by simp
    ultimately show ?thesis using al by metis
  qed
qed

lemma fresh_good:
  obtains pl m' a k where "mpool_init (Some pl0) heap_start heap_size (\<lambda>_. 0) = (True, Some pl, m')"
    "pool_good a [Blk k True False] pl m'" "2048 \<le> k"
proof -
  obtain pl m' a k where I: "mpool_init (Some pl0) heap_start heap_size (\<lambda>_. 0) = (True, Some pl, m')"
    "pool_inv a [Blk k True (heap_size = SIZE_2M)] pl m'" "mp_alloced_size pl = 0" "mp_cb_reqmem pl = None" "2048 \<le> k"
    by (rule mpool_init_region [OF heap_region, of pl0 "\<lambda>_. 0"]) blast
  have "heap_size \<noteq> SIZE_2M" by (simp add: SIZE_2M_def)
  with I that [of pl m' a k] show ?thesis by (simp add: pool_good_def coalesced_def live_words_def adr_def)
qed

theorem mpool_alloc_keeps_order_witness:
  "\<exists>pl m' p pl2 m2 a bs. mpool_init (Some blank_pool) heap_start heap_size (\<lambda>_. 0) = (True, Some pl, m') \<and>
     mpool_alloc (pl, m') 64 = Some (p, pl2, m2) \<and> pool_good a bs pl2 m2"
  by (rule fresh_good [of blank_pool]) (use mpool_alloc_keeps_order [of _ _ _ _ 64] in fastforce)

lemma free_good:
  assumes "pool_good a (xs @ b # ys) pl m" "p = a + 2 + span xs" "\<not> bfree b"
  obtains pl' m' where "mpool_free (pl, m) (adr p) = (pl', m')" "pool_good a (release xs b ys) pl' m'"
proof -
  have inv: "pool_inv a (xs @ b # ys) pl m" using assms(1) by (simp add: pool_good_def)
  obtain pl' m' where F: "mpool_free (pl, m) (adr p) = (pl', m')" "pool_inv a (release xs b ys) pl' m'"
    "same_base (pl\<lparr>mp_alloced_size := mp_alloced_size pl - adr (bw b)\<rparr>) pl'"
    by (rule mpool_free_st [OF inv assms(2,3)])
  have "adr (live_words (release xs b ys) + bw b) - adr (bw b) = adr (live_words (release xs b ys))"
    by (simp add: adr_diff)
  then have "pool_good a (release xs b ys) pl' m'"
    using assms(1,3) F(2,3) live_words_release [OF assms(3), of xs ys] coalesced_release [of xs b ys]
    by (simp add: pool_good_def same_base_def)
  with F(1) show thesis by (rule that)
qed

text \<open>\<open>mpool_free\<close> keeps the same order when it is given an allocated block: the block and its free neighbours become
  one free block in the list of its size class, and the counter falls by the size of the freed block.\<close>

theorem mpool_free_keeps_order:
  assumes "pool_good a bs pl m" "(p, b) \<in> blks a bs" "\<not> bfree b"
  shows "\<exists>pl' m' bs'. mpool_free (pl, m) (adr p) = (pl', m') \<and> pool_good a bs' pl' m' \<and> span bs' = span bs \<and>
    live_words bs' + bw b = live_words bs"
proof -
  obtain xs ys where bs: "bs = xs @ b # ys" and p: "p = a + 2 + span xs" using assms(2) by (auto simp: place_decomp)
  obtain pl' m' where F: "mpool_free (pl, m) (adr p) = (pl', m')" "pool_good a (release xs b ys) pl' m'"
    by (rule free_good [OF assms(1) [unfolded bs] p assms(3)])
  then show ?thesis
    using live_words_release [OF assms(3), of xs ys] span_release [OF assms(3), of xs ys] unfolding bs by metis
qed

lemma all_free_single:
  assumes "coalesced bs" "\<forall>b\<in>set bs. bfree b" "bs \<noteq> []"
  shows "\<exists>n g. bs = [Blk n True g]"
proof (cases bs)
  case (Cons b cs)
  then have "cs = []" using assms coalesced_mid [of "[]" b cs] by (cases cs) auto
  with Cons assms(2) show ?thesis by (metis blk.collapse list.set_intros(1))
qed (use assms(3) in simp)

lemma all_freed_single:
  assumes "pool_good a bs pl m" "live_words bs = 0" "bs \<noteq> []"
  shows "\<exists>g. bs = [Blk (span bs - 2) True g]"
proof -
  have "bfree b" if bin: "b \<in> set bs" for b
  proof (rule ccontr)
    assume "\<not> bfree b"
    moreover have "2 \<le> bw b" using assms(1) that by (auto simp: pool_good_def pool_inv_def pool_st_def area_def)
    moreover obtain xs ys where "bs = xs @ b # ys" using split_list [OF bin] by blast
    ultimately show False using assms(2) by (simp add: live_words_def)
  qed
  then show ?thesis using all_free_single [of bs] assms(1,3) by (auto simp: pool_good_def)
qed

text \<open>Releasing a list of blocks one after the other.\<close>

definition free_all :: "nat list \<Rightarrow> pmem \<Rightarrow> pmem" where
  "free_all qs pm = fold (\<lambda>q pm. mpool_free pm (adr q)) qs pm"

definition live_at :: "nat \<Rightarrow> blk list \<Rightarrow> nat set" where
  "live_at a bs = {q. \<exists>b. (q, b) \<in> blks a bs \<and> \<not> bfree b}"

lemma free_one_good:
  assumes "pool_good a bs pl m" "q \<in> live_at a bs"
  obtains pl' m' bs' where "mpool_free (pl, m) (adr q) = (pl', m')" "pool_good a bs' pl' m'" "span bs' = span bs"
    "live_at a bs' = live_at a bs - {q}"
proof -
  obtain b where b: "(q, b) \<in> blks a bs" "\<not> bfree b" using assms(2) by (auto simp: live_at_def)
  obtain xs ys where bs: "bs = xs @ b # ys" and q: "q = a + 2 + span xs" using b(1) by (auto simp: place_decomp)
  obtain pl' m' where F: "mpool_free (pl, m) (adr q) = (pl', m')" "pool_good a (release xs b ys) pl' m'"
    by (rule free_good [OF assms(1) [unfolded bs] q b(2)])
  have "live_at a cs = dom (bmap live_size (a + 2) cs)" for cs
    by (auto simp: live_at_def bmap_iff dom_def live_size_def split: if_splits)
  then have "live_at a (release xs b ys) = live_at a bs - {q}" using live_release [OF b(2) q, of ys] unfolding bs by auto
  moreover have "span (release xs b ys) = span bs" using span_release [OF b(2)] by (simp add: bs)
  ultimately show thesis using that F by blast
qed

lemma free_all_good:
  "pool_good a bs pl m \<Longrightarrow> distinct qs \<Longrightarrow> set qs \<subseteq> live_at a bs \<Longrightarrow>
   \<exists>pl' m' bs'. free_all qs (pl, m) = (pl', m') \<and> pool_good a bs' pl' m' \<and> span bs' = span bs \<and> live_at a bs' = live_at a bs - set qs"
proof (induction qs arbitrary: bs pl m)
  case Nil
  then show ?case by (auto simp: free_all_def)
next
  case (Cons q qs)
  obtain pl1 m1 bs1 where F: "mpool_free (pl, m) (adr q) = (pl1, m1)" "pool_good a bs1 pl1 m1" "span bs1 = span bs"
    "live_at a bs1 = live_at a bs - {q}" by (rule free_one_good [OF Cons.prems(1), of q]) (use Cons.prems(3) in auto)
  have "set qs \<subseteq> live_at a bs1" using Cons.prems(2,3) F(4) by auto
  then obtain pl' m' bs' where "free_all qs (pl1, m1) = (pl', m')" "pool_good a bs' pl' m'" "span bs' = span bs1" "live_at a bs' = live_at a bs1 - set qs"
    using Cons.IH [OF F(2)] Cons.prems(2) by auto
  then show ?case using F by (intro exI [of _ pl'] exI [of _ m'] exI [of _ bs']) (auto simp: free_all_def)
qed

lemma none_live: "live_at a bs = {} \<Longrightarrow> live_words bs = 0"
proof -
  assume e: "live_at a bs = {}"
  have "bfree b" if bin: "b \<in> set bs" for b
  proof -
    obtain xs ys where "bs = xs @ b # ys" using split_list [OF bin] by blast
    then have "(a + 2 + span xs, b) \<in> blks a bs" by (simp add: place_append)
    then show ?thesis using e by (auto simp: live_at_def)
  qed
  then show ?thesis by (induction bs) (simp_all add: live_words_def)
qed

text \<open>C20: no fragmentation remains: releasing with \<open>mpool_free\<close> every allocated block, in whatever order, leaves the whole area as one free
  block, as after \<open>mpool_init\<close>, with the counter of allocated bytes at zero.\<close>

theorem mpool_all_freed_is_fresh:
  assumes "pool_good a bs pl m" "bs \<noteq> []" "distinct qs" "set qs = {q. \<exists>b. (q, b) \<in> blks a bs \<and> \<not> bfree b}"
  shows "\<exists>pl' m' g. fold (\<lambda>q pm. mpool_free pm (adr q)) qs (pl, m) = (pl', m') \<and>
    pool_inv a [Blk (span bs - 2) True g] pl' m' \<and> mp_alloced_size pl' = 0"
proof -
  obtain pl' m' bs' where F: "free_all qs (pl, m) = (pl', m')" "pool_good a bs' pl' m'" "span bs' = span bs" "live_at a bs' = {}"
    using free_all_good [OF assms(1,3)] assms(4) by (auto simp: live_at_def)
  have "span bs \<noteq> 0" using assms(2) by (cases bs) simp_all
  then have "bs' \<noteq> []" using F(3) by auto
  then obtain g where "bs' = [Blk (span bs' - 2) True g]" using all_freed_single [OF F(2) none_live [OF F(4)]] by blast
  then show ?thesis using F(1-3) none_live [OF F(4)] by (intro exI [of _ pl'] exI [of _ m'] exI [of _ g]) (simp add: free_all_def pool_good_def adr_def)
qed

text \<open>A block is allocated in a fresh heap and freed: the heap is one free block again.\<close>

lemma alloc_one:
  assumes "pool_good a [Blk k True g] pl m" "unat s + 15 < 2 ^ 64" "req_words s \<le> k"
  obtains pl' m' where "mpool_alloc (pl, m) s = Some (adr (a + 2), pl', m')"
    "pool_good a (carve (Blk k True g) (req_words s)) pl' m'"
proof -
  have inv: "pool_inv a [Blk k True g] pl m" and cb: "mp_cb_reqmem pl = None" using assms by (auto simp: pool_good_def)
  have nf: "\<not> no_fit a [Blk k True g] (\<lambda>_. True) (req_words s)" using assms(3) by (simp add: no_fit_def)
  obtain xs b ys pl' m' where A: "[Blk k True g] = xs @ b # ys"
    "mpool_alloc (pl, m) s = Some (adr (a + 2 + span xs), pl', m')" "pool_inv a (xs @ carve b (req_words s) @ ys) pl' m'"
    "same_base (pl\<lparr>mp_alloced_size := mp_alloced_size pl + adr (bw (hd (carve b (req_words s))))\<rparr>) pl'"
    using mpool_alloc_st [OF inv cb assms(2)] nf by blast
  have e: "xs = []" "ys = []" "b = Blk k True g" using A(1) by (cases xs; auto)+
  have "pool_good a (carve (Blk k True g) (req_words s)) pl' m'"
    using A(3,4) assms(1) coalesced_carve [of "[]" "Blk k True g" "[]" "req_words s"]
      live_words_carve [of "Blk k True g" "[]" "req_words s" "[]"] cb
    by (simp add: e pool_good_def same_base_def live_words_def)
  with A(2) that show ?thesis by (simp add: e)
qed

theorem mpool_free_keeps_order_witness:
  "\<exists>pl m p pl2 m2 a bs. mpool_init (Some blank_pool) heap_start heap_size (\<lambda>_. 0) = (True, Some pl, m) \<and>
     mpool_alloc (pl, m) 64 = Some (p, pl2, m2) \<and>
     (\<exists>pl3 m3. mpool_free (pl2, m2) p = (pl3, m3) \<and> pool_good a bs pl3 m3 \<and> live_words bs = 0)"
proof (rule fresh_good [of blank_pool])
  fix pl m a k
  assume I: "mpool_init (Some blank_pool) heap_start heap_size (\<lambda>_. 0) = (True, Some pl, m)"
    "pool_good a [Blk k True False] pl m" "2048 \<le> k"
  have w: "req_words 64 = 8" by (simp add: req_words_def)
  obtain pl2 m2 where A: "mpool_alloc (pl, m) 64 = Some (adr (a + 2), pl2, m2)"
    "pool_good a (carve (Blk k True False) 8) pl2 m2"
    by (rule alloc_one [OF I(2), of 64, unfolded w]) (use I(3) in auto)
  have c: "carve (Blk k True False) 8 = [Blk 8 False False, Blk (k - 10) True False]" using I(3) by (simp add: carve_def trim_def)
  obtain pl3 m3 bs3 where "mpool_free (pl2, m2) (adr (a + 2)) = (pl3, m3)" "pool_good a bs3 pl3 m3" "live_words bs3 = 0"
    using mpool_free_keeps_order [OF A(2), of "a + 2" "Blk 8 False False"] by (auto simp: c live_words_def)
  with I(1) A(1) show ?thesis by blast
qed

theorem mpool_all_freed_is_fresh_witness:
  "\<exists>pl m p pl2 m2 pl3 m3 a n g. mpool_init (Some blank_pool) heap_start heap_size (\<lambda>_. 0) = (True, Some pl, m) \<and>
     mpool_alloc (pl, m) 64 = Some (p, pl2, m2) \<and> p \<noteq> 0 \<and> mpool_free (pl2, m2) p = (pl3, m3) \<and> pool_inv a [Blk n True g] pl3 m3"
proof (rule fresh_good [of blank_pool])
  fix pl m a k
  assume I: "mpool_init (Some blank_pool) heap_start heap_size (\<lambda>_. 0) = (True, Some pl, m)"
    "pool_good a [Blk k True False] pl m" "2048 \<le> k"
  have w: "req_words 64 = 8" by (simp add: req_words_def)
  have c: "carve (Blk k True False) 8 = [Blk 8 False False, Blk (k - 10) True False]" using I(3) by (simp add: carve_def trim_def)
  obtain pl2 m2 where A: "mpool_alloc (pl, m) 64 = Some (adr (a + 2), pl2, m2)" "pool_good a [Blk 8 False False, Blk (k - 10) True False] pl2 m2"
    by (rule alloc_one [OF I(2), of 64]) (use I(3) in \<open>simp_all add: w c\<close>)
  have bl: "blks a [Blk 8 False False, Blk (k - 10) True False] = {(a + 2, Blk 8 False False), (a + 12, Blk (k - 10) True False)}" by (simp add: add.commute)
  have L: "set [a + 2] = {q. \<exists>b. (q, b) \<in> blks a [Blk 8 False False, Blk (k - 10) True False] \<and> \<not> bfree b}"
    unfolding bl set_eq_iff by (simp add: conj_disj_distribR ex_disj_distrib)
  have D: "distinct [a + 2]" by simp
  obtain pl3 m3 g where "fold (\<lambda>q pm. mpool_free pm (adr q)) [a + 2] (pl2, m2) = (pl3, m3)"
    "pool_inv a [Blk (span [Blk 8 False False, Blk (k - 10) True False] - 2) True g] pl3 m3"
    using mpool_all_freed_is_fresh [OF A(2) list.distinct(2) D L] by (elim exE conjE) (rule that)
  moreover have "adr (a + 2) \<noteq> 0"
  proof -
    have "area (cells m2) a [Blk 8 False False, Blk (k - 10) True False]" using A(2) by (simp add: pool_good_def pool_inv_def pool_st_def)
    from area_blk(3,4) [OF this, of "a + 2" "Blk 8 False False"] show ?thesis by simp
  qed
  ultimately show ?thesis using I(1) A(1) unfolding fold_simps by blast
qed

end
