(* ===== verification/SizedPool.thy ===== *)
theory SizedPool
  imports Allocator
begin

text \<open>
  The pool of elements of one size: \<^verbatim>\<open>mm/heap/sized-pool.cpp\<close>.

  The free slots form a singly linked list through their first eight bytes. A state is the pool structure and memory. A null
  pool pointer is \<open>None\<close>.

  \<open>sized\<close> interprets the contract \<open>allocator\<close> on \<open>sized_mpool_alloc\<close> and \<open>sized_mpool_free\<close>, for every slot size: the pool is a
  second provider of the abstract heap, one whose allocations never look at the size of the request and fail exactly
  when every slot is taken.
\<close>

record sized_mpool =
  sp_ptr :: u64
  sp_size :: u64
  sp_bsize :: u64
  sp_len :: u64
  sp_nalloced :: u64
  sp_freelist :: u64

type_synonym spmem = "sized_mpool \<times> mem"

definition sized_mpool_init :: "mem \<Rightarrow> u64 \<Rightarrow> u64 \<Rightarrow> u64 \<Rightarrow> spmem" where
  "sized_mpool_init m p bsize len =
     (let m1 = for_loop 1 len (\<lambda>i m. wr64 m (p + (i - 1) * bsize) (p + i * bsize)) m
      in (\<lparr>sp_ptr = p, sp_size = bsize * len, sp_bsize = bsize, sp_len = len, sp_nalloced = 0, sp_freelist = p\<rparr>,
          wr64 m1 (p + (len - 1) * bsize) 0))"

definition sized_mpool_alloc :: "sized_mpool option \<Rightarrow> mem \<Rightarrow> u64 \<times> sized_mpool option" where
  "sized_mpool_alloc pool m =
     (case pool of None \<Rightarrow> (0, None)
      | Some p \<Rightarrow>
          if sp_freelist p = 0 then (0, Some p)
          else (sp_freelist p, Some (p\<lparr>sp_freelist := rd64 m (sp_freelist p)\<rparr>)))"

definition sized_mpool_free :: "sized_mpool option \<Rightarrow> u64 \<Rightarrow> mem \<Rightarrow> sized_mpool option \<times> mem" where
  "sized_mpool_free pool p m =
     (case pool of None \<Rightarrow> (None, m)
      | Some pl \<Rightarrow> if p = 0 then (Some pl, m) else (Some (pl\<lparr>sp_freelist := p\<rparr>), wr64 m p (sp_freelist pl)))"

definition sized_mpool_inpool :: "sized_mpool option \<Rightarrow> u64 \<Rightarrow> bool" where
  "sized_mpool_inpool pool p =
     (case pool of None \<Rightarrow> False
      | Some pl \<Rightarrow> if p = 0 then False else if p < sp_ptr pl \<or> sp_ptr pl + sp_size pl \<le> p then False else True)"

section \<open>The list of free slots\<close>

definition slot :: "nat \<Rightarrow> nat \<Rightarrow> nat \<Rightarrow> nat" where
  "slot A B i = A + i * B"

text \<open>The region holds \<open>n\<close> slots of \<open>B\<close> bytes from address \<open>A\<close>; \<open>fs\<close> are the free ones, in list order.\<close>

definition slots_ok :: "nat \<Rightarrow> nat \<Rightarrow> nat \<Rightarrow> bool" where
  "slots_ok A B n \<longleftrightarrow> 0 < A \<and> 8 \<le> B \<and> A + n * B < 2 ^ 64"

fun chain :: "mem \<Rightarrow> nat \<Rightarrow> nat \<Rightarrow> u64 \<Rightarrow> nat list \<Rightarrow> bool" where
  "chain m A B h [] = (h = 0)"
| "chain m A B h (i # is) = (h = of_nat (slot A B i) \<and> chain m A B (rd64 m h) is)"

definition sized_repr :: "nat \<Rightarrow> spmem \<Rightarrow> (nat \<rightharpoonup> nat) \<Rightarrow> bool" where
  "sized_repr B s L \<longleftrightarrow> (\<exists>A n fs. slots_ok A B n \<and> sp_ptr (fst s) = of_nat A \<and> sp_len (fst s) = of_nat n \<and> distinct fs \<and> set fs \<subseteq> {..<n} \<and>
     chain (snd s) A B (sp_freelist (fst s)) fs \<and> L = (\<lambda>x. if \<exists>i<n. i \<notin> set fs \<and> x = slot A B i then Some B else None))"

lemma slot_bound: "slots_ok A B n \<Longrightarrow> i < n \<Longrightarrow> slot A B i + B < 2 ^ 64"
proof -
  assume s: "slots_ok A B n" and i: "i < n"
  have "i * B + B \<le> n * B" using mult_le_mono1 [of "Suc i" n B] i by simp
  with s show ?thesis by (simp add: slots_ok_def slot_def)
qed

lemma slot_apart: "i \<noteq> j \<Longrightarrow> slot A B i + B \<le> slot A B j \<or> slot A B j + B \<le> slot A B i"
  using mult_le_mono1 [of "Suc i" j B] mult_le_mono1 [of "Suc j" i B] by (auto simp: slot_def neq_iff)

lemma slot_eq_iff: "slots_ok A B n \<Longrightarrow> slot A B i = slot A B j \<longleftrightarrow> i = j"
  by (auto simp: slots_ok_def slot_def)

lemma slot_pos: "slots_ok A B n \<Longrightarrow> i < n \<Longrightarrow> of_nat (slot A B i) \<noteq> (0 :: u64)"
  using slot_bound [of A B n i] of_nat64_eq_0_iff [of "slot A B i"] by (simp add: slots_ok_def) (simp add: slot_def)

text \<open>A word of memory is not changed by writes that stay out of its eight bytes.\<close>

lemma rd64_keep:
  assumes "x + 8 \<le> 2 ^ 64" "\<And>y. x \<le> y \<Longrightarrow> y < x + 8 \<Longrightarrow> m' (of_nat y) = m (of_nat y)"
  shows "rd64 m' (of_nat x) = rd64 m (of_nat x)"
  by (rule rd64_cong) (use assms(2) in \<open>simp flip: of_nat_add\<close>)

lemma wr64_keep:
  assumes "x < 2 ^ 64" "y + 8 \<le> 2 ^ 64" "x < y \<or> y + 8 \<le> x"
  shows "wr64 m (of_nat y) v (of_nat x) = m (of_nat x)"
proof (rule wr64_other)
  have "unat (of_nat x - of_nat y :: u64) \<ge> 8"
    using assms unat_sub_if_size [of "of_nat x :: u64" "of_nat y"] by (auto simp: word_size)
  then show "8 \<le> (of_nat x - of_nat y :: u64)" by (simp add: word_le_nat_alt)
qed

lemma chain_keep:
  assumes "slots_ok A B n" "set fs \<subseteq> {..<n}"
    "\<And>i y. i \<in> set fs \<Longrightarrow> slot A B i \<le> y \<Longrightarrow> y < slot A B i + 8 \<Longrightarrow> m' (of_nat y) = m (of_nat y)"
  shows "chain m A B h fs \<Longrightarrow> chain m' A B h fs"
  using assms(2,3)
proof (induction fs arbitrary: h)
  case (Cons i fs)
  have "8 \<le> B" using assms(1) by (simp add: slots_ok_def)
  then have "rd64 m' (of_nat (slot A B i)) = rd64 m (of_nat (slot A B i))"
    using Cons.prems(2,3) slot_bound [OF assms(1), of i] by (intro rd64_keep) auto
  with Cons show ?case by auto
qed simp

section \<open>The pool meets the contract\<close>

definition sized_malloc :: "spmem \<Rightarrow> nat \<Rightarrow> (nat option \<times> spmem) option" where
  "sized_malloc s n =
     (let (p, pl) = sized_mpool_alloc (Some (fst s)) (snd s)
      in Some (if p = 0 then None else Some (unat p), the pl, snd s))"

definition sized_dealloc :: "spmem \<Rightarrow> nat \<Rightarrow> spmem option" where
  "sized_dealloc s p = (let (pl, m) = sized_mpool_free (Some (fst s)) (of_nat p) (snd s) in map_option (\<lambda>pl. (pl, m)) pl)"

definition sized_load :: "spmem \<Rightarrow> nat \<Rightarrow> u8" where
  "sized_load s x = snd s (of_nat x)"

definition sized_store :: "spmem \<Rightarrow> nat \<Rightarrow> u8 \<Rightarrow> spmem" where
  "sized_store s x v = (fst s, (snd s)(of_nat x := v))"

definition slot_map :: "nat \<Rightarrow> nat \<Rightarrow> nat \<Rightarrow> nat set \<Rightarrow> (nat \<rightharpoonup> nat)" where
  "slot_map A B n F = (\<lambda>x. if \<exists>i<n. i \<notin> F \<and> x = slot A B i then Some B else None)"

lemma slot_map_iff: "slot_map A B n F x = Some k \<longleftrightarrow> (\<exists>i<n. i \<notin> F \<and> x = slot A B i) \<and> k = B"
  by (auto simp: slot_map_def)

lemma slot_map_upd:
  assumes "slots_ok A B n" "i < n"
  shows "slot_map A B n (F - {i}) = (slot_map A B n F)(slot A B i \<mapsto> B)"
    "slot_map A B n (insert i F) = (slot_map A B n F)(slot A B i := None)"
  using assms slot_eq_iff [OF assms(1)] by (auto simp: slot_map_def fun_eq_iff)

lemma sized_reprE:
  assumes "sized_repr B s L"
  obtains A n fs where "slots_ok A B n" "distinct fs" "set fs \<subseteq> {..<n}" "chain (snd s) A B (sp_freelist (fst s)) fs"
    "L = slot_map A B n (set fs)" "sp_ptr (fst s) = of_nat A" "sp_len (fst s) = of_nat n"
  using assms unfolding sized_repr_def slot_map_def by blast

lemma sized_reprI:
  "slots_ok A B n \<Longrightarrow> distinct fs \<Longrightarrow> set fs \<subseteq> {..<n} \<Longrightarrow> chain (snd s) A B (sp_freelist (fst s)) fs \<Longrightarrow>
   sp_ptr (fst s) = of_nat A \<Longrightarrow> sp_len (fst s) = of_nat n \<Longrightarrow> sized_repr B s (slot_map A B n (set fs))"
  unfolding sized_repr_def slot_map_def by blast

lemma in_slot:
  assumes "in_live (slot_map A B n F) x" "slots_ok A B n"
  obtains i where "i < n" "i \<notin> F" "slot A B i \<le> x" "x < slot A B i + B" "x < 2 ^ 64"
proof -
  from assms(1) obtain i where i: "i < n" "i \<notin> F" "slot A B i \<le> x" "x < slot A B i + B"
    unfolding in_live_def slot_map_iff by blast
  moreover have "x < 2 ^ 64" using slot_bound [OF assms(2) i(1)] i(4) by simp
  ultimately show ?thesis using that by blast
qed

lemma outside_slot:
  assumes "slots_ok A B n" "i \<noteq> j" "slot A B i \<le> x" "x < slot A B i + B"
  shows "x < slot A B j \<or> slot A B j + B \<le> x"
  using slot_apart [OF assms(2), of A B] assms(3,4) by auto

lemma sized_malloc_cases:
  assumes "sized_repr B s L"
  shows "sized_malloc s k = Some (None, s) \<or>
    (\<exists>p s'. sized_malloc s k = Some (Some p, s') \<and> p \<notin> dom L \<and> sized_repr B s' (L(p \<mapsto> B)) \<and> snd s' = snd s)"
proof -
  obtain A n fs where R: "slots_ok A B n" "distinct fs" "set fs \<subseteq> {..<n}" "chain (snd s) A B (sp_freelist (fst s)) fs"
    "L = slot_map A B n (set fs)" "sp_ptr (fst s) = of_nat A" "sp_len (fst s) = of_nat n" using sized_reprE [OF assms] .
  show ?thesis
  proof (cases fs)
    case Nil
    with R(4) show ?thesis by (simp add: sized_malloc_def sized_mpool_alloc_def)
  next
    case (Cons i fs')
    have i: "i < n" using R(3) Cons by simp
    have h: "sp_freelist (fst s) = of_nat (slot A B i)" "sp_freelist (fst s) \<noteq> 0"
      using R(4) Cons slot_pos [OF R(1) i] by auto
    have u: "unat (of_nat (slot A B i) :: u64) = slot A B i" using slot_bound [OF R(1) i] by simp
    let ?s = "((fst s)\<lparr>sp_freelist := rd64 (snd s) (sp_freelist (fst s))\<rparr>, snd s)"
    have "sized_malloc s k = Some (Some (slot A B i), ?s)"
      using h u by (simp add: sized_malloc_def sized_mpool_alloc_def)
    moreover have "slot A B i \<notin> dom L" using Cons slot_eq_iff [OF R(1)] by (auto simp: R(5) slot_map_def split: if_splits)
    moreover have "set fs' = set fs - {i}" using Cons R(2) by auto
    then have "L(slot A B i \<mapsto> B) = slot_map A B n (set fs')" by (simp add: R(5) slot_map_upd(1) [OF R(1) i])
    then have "sized_repr B ?s (L(slot A B i \<mapsto> B))"
      using R Cons by (simp only:) (rule sized_reprI, auto)
    ultimately show ?thesis by (metis snd_conv)
  qed
qed

lemma sized_dealloc_spec:
  assumes "sized_repr B s L" "p \<in> dom L"
  shows "\<exists>s'. sized_dealloc s p = Some s' \<and> sized_repr B s' (L(p := None)) \<and>
    (\<forall>x. in_live (L(p := None)) x \<longrightarrow> sized_load s' x = sized_load s x)"
proof -
  obtain A n fs where R: "slots_ok A B n" "distinct fs" "set fs \<subseteq> {..<n}" "chain (snd s) A B (sp_freelist (fst s)) fs"
    "L = slot_map A B n (set fs)" "sp_ptr (fst s) = of_nat A" "sp_len (fst s) = of_nat n" using sized_reprE [OF assms(1)] .
  obtain i where i: "i < n" "i \<notin> set fs" "p = slot A B i" using assms(2) by (auto simp: R(5) slot_map_iff)
  have B: "8 \<le> B" using R(1) by (simp add: slots_ok_def)
  have pb: "p + 8 \<le> 2 ^ 64" using slot_bound [OF R(1) i(1)] B i(3) by simp
  let ?m = "wr64 (snd s) (of_nat p) (sp_freelist (fst s))"
  let ?s = "((fst s)\<lparr>sp_freelist := of_nat p\<rparr>, ?m)"
  have d: "sized_dealloc s p = Some ?s"
    using slot_pos [OF R(1) i(1)] i(3) by (simp add: sized_dealloc_def sized_mpool_free_def)
  have keep: "?m (of_nat x) = snd s (of_nat x)" if "j < n" "j \<noteq> i" "slot A B j \<le> x" "x < slot A B j + B" for x j
    using outside_slot [OF R(1) that(2-4)] slot_bound [OF R(1) that(1)] that(4) B i(3) pb by (intro wr64_keep) auto
  have "chain ?m A B (sp_freelist (fst s)) fs"
    by (rule chain_keep [OF R(1,3) _ R(4)]) (use keep i(2) R(3) B in \<open>fastforce\<close>)
  then have "chain (snd ?s) A B (sp_freelist (fst ?s)) (i # fs)" by (simp add: i(3))
  then have "sized_repr B ?s (slot_map A B n (set (i # fs)))"
    using R(2,3,6,7) i(1,2) by (intro sized_reprI [OF R(1)]) auto
  moreover have "L(p := None) = slot_map A B n (set (i # fs))" by (simp add: R(5) i(3) slot_map_upd(2) [OF R(1) i(1)])
  ultimately have "sized_repr B ?s (L(p := None))" by simp
  moreover have "sized_load ?s x = sized_load s x" if "in_live (L(p := None)) x" for x
  proof -
    have "in_live (slot_map A B n (set (i # fs))) x"
      using that by (simp add: R(5) i(3) slot_map_upd(2) [OF R(1) i(1)])
    then obtain j where "j < n" "j \<notin> set (i # fs)" "slot A B j \<le> x" "x < slot A B j + B" using in_slot [OF _ R(1)] by blast
    then show ?thesis using keep by (simp add: sized_load_def)
  qed
  ultimately show ?thesis using d by blast
qed

lemma sized_store_spec:
  assumes "sized_repr B s L" "in_live L x"
  shows "sized_repr B (sized_store s x v) L"
proof -
  obtain A n fs where R: "slots_ok A B n" "distinct fs" "set fs \<subseteq> {..<n}" "chain (snd s) A B (sp_freelist (fst s)) fs"
    "L = slot_map A B n (set fs)" "sp_ptr (fst s) = of_nat A" "sp_len (fst s) = of_nat n" using sized_reprE [OF assms(1)] .
  obtain j where j: "j < n" "j \<notin> set fs" "slot A B j \<le> x" "x < slot A B j + B" "x < 2 ^ 64"
    using in_slot [OF assms(2) [unfolded R(5)] R(1)] .
  have B: "8 \<le> B" using R(1) by (simp add: slots_ok_def)
  have "chain (snd (sized_store s x v)) A B (sp_freelist (fst s)) fs"
  proof (rule chain_keep [OF R(1,3) _ R(4)])
    fix i y assume i: "i \<in> set fs" "slot A B i \<le> y" "y < slot A B i + 8"
    have "y < 2 ^ 64" using i slot_bound [OF R(1), of i] R(3) B by auto
    moreover have "i \<noteq> j" using i(1) j(2) by blast
    then have "y \<noteq> x" using outside_slot [OF R(1), of i j y] i(2,3) j(3,4) B by auto
    ultimately show "snd (sized_store s x v) (of_nat y) = snd s (of_nat y)"
      using j(5) by (simp add: sized_store_def of_nat64_eq_iff)
  qed
  then show ?thesis using sized_reprI [OF R(1-3), of "sized_store s x v"] R(6,7) by (simp add: R(5) sized_store_def)
qed

interpretation sized: allocator sized_malloc sized_dealloc sized_load sized_store "sized_repr B" "Suc B" for B
proof (unfold_locales, goal_cases)
  case (1 s L p i q j)
  obtain A n fs where L: "L = slot_map A B n (set fs)" by (rule sized_reprE [OF 1(1)]) blast
  obtain k where k: "p = slot A B k" "i = B" using 1(2) by (auto simp: L slot_map_iff)
  obtain l where l: "q = slot A B l" "j = B" using 1(3) by (auto simp: L slot_map_iff)
  have "k \<noteq> l" using 1(4) k l by blast
  then show ?case unfolding k l by (rule slot_apart)
next
  case (2 s L n) then show ?case using sized_malloc_cases [of B s L n] by blast
next
  case (3 s L n s') then show ?case using sized_malloc_cases [of B s L n] by auto
next
  case (4 s L n p s')
  then have "n \<le> B" by simp
  with 4 show ?case using sized_malloc_cases [of B s L n] by auto
next
  case (5 s L n r s' x) then show ?case using sized_malloc_cases [of B s L n] by (auto simp: sized_load_def)
next
  case (6 s L p) then show ?case using sized_dealloc_spec by blast
next
  case (7 s L p s') then show ?case using sized_dealloc_spec by fastforce
next
  case (8 s L p s' x) then show ?case using sized_dealloc_spec by fastforce
next
  case (9 s L x v) then show ?case by (rule sized_store_spec)
next
  case (10 s L x y v)
  obtain A n fs where "slots_ok A B n" "L = slot_map A B n (set fs)" by (rule sized_reprE [OF 10(1)]) blast
  then have "x < 2 ^ 64" "y < 2 ^ 64" using in_slot 10(2,3) by blast+
  then show ?case by (simp add: sized_load_def sized_store_def of_nat64_eq_iff)
qed

section \<open>Properties\<close>

lemma chain_from:
  assumes "\<And>j. Suc j < n \<Longrightarrow> rd64 m (of_nat (slot A B j)) = of_nat (slot A B (Suc j))"
    "rd64 m (of_nat (slot A B (n - 1))) = 0"
  shows "k < n \<Longrightarrow> chain m A B (of_nat (slot A B k)) [k..<n]"
proof (induction "n - k" arbitrary: k)
  case (Suc d)
  show ?case
  proof (cases "Suc k < n")
    case True
    then have "chain m A B (of_nat (slot A B (Suc k))) [Suc k..<n]" using Suc by simp
    then show ?thesis using Suc.prems assms(1) [OF True] by (simp add: upt_conv_Cons)
  next
    case False
    then have "k = n - 1" "[k..<n] = [k]" using Suc.prems by (auto simp: upt_conv_Cons)
    then show ?thesis using assms(2) by simp
  qed
qed simp

lemma slot_words:
  "of_nat A + of_nat k * of_nat B = (of_nat (slot A B k) :: u64)"
  "0 < k \<Longrightarrow> of_nat A + (of_nat k - 1) * of_nat B = (of_nat (slot A B (k - 1)) :: u64)"
  by (simp_all add: slot_def of_nat_diff)

lemma slot_write:
  assumes "slots_ok A B n" "i < n" "j < n" "i \<noteq> j"
  shows "rd64 (wr64 m (of_nat (slot A B j)) v) (of_nat (slot A B i)) = rd64 m (of_nat (slot A B i))"
proof (rule rd64_keep)
  have b: "slot A B i + B < 2 ^ 64" "slot A B j + B < 2 ^ 64" "8 \<le> B"
    using slot_bound [OF assms(1)] assms by (auto simp: slots_ok_def)
  then show "slot A B i + 8 \<le> 2 ^ 64" by simp
  fix y assume "slot A B i \<le> y" "y < slot A B i + 8"
  then show "wr64 m (of_nat (slot A B j)) v (of_nat y) = m (of_nat y)"
    using slot_apart [OF assms(4), of A B] b by (intro wr64_keep) auto
qed

lemma sized_init_repr:
  assumes "slots_ok A B n" "0 < n"
  shows "sized_repr B (sized_mpool_init m (of_nat A) (of_nat B) (of_nat n)) Map.empty"
proof -
  have "n \<le> n * B" "A + n * B < 2 ^ 64" using assms by (auto simp: slots_ok_def)
  then have "n < 2 ^ 64" by linarith
  then have n: "unat (of_nat n :: u64) = n" by (rule unat_of_nat64)
  let ?I = "\<lambda>k m. \<forall>j. Suc j < k \<longrightarrow> rd64 m (of_nat (slot A B j)) = of_nat (slot A B (Suc j))"
  let ?f = "\<lambda>i m. wr64 m (of_nat A + (i - 1) * of_nat B) (of_nat A + i * of_nat B)"
  have I: "?I n (for_loop 1 (of_nat n) ?f m)"
  proof (rule for_loop_inv [where I = ?I and n = "of_nat n", unfolded n])
    fix k m assume k: "unat (1 :: u64) \<le> k" "k < n" and I: "?I k m"
    show "?I (Suc k) (?f (of_nat k) m)"
    proof (intro allI impI)
      fix j assume "Suc j < Suc k"
      then show "rd64 (?f (of_nat k) m) (of_nat (slot A B j)) = of_nat (slot A B (Suc j))"
        using I k slot_write [OF assms(1), of j "k - 1" m] by (cases "Suc j = k") (auto simp: slot_words)
    qed
  qed (use assms in simp_all)
  let ?m = "wr64 (for_loop 1 (of_nat n) ?f m) (of_nat (slot A B (n - 1))) 0"
  have "rd64 ?m (of_nat (slot A B j)) = of_nat (slot A B (Suc j))" if "Suc j < n" for j
    using that I slot_write [OF assms(1), of j "n - 1"] by simp
  moreover have "rd64 ?m (of_nat (slot A B (n - 1))) = 0" by simp
  ultimately have "chain ?m A B (of_nat (slot A B 0)) [0..<n]" using assms(2) by (rule chain_from)
  then have "chain ?m A B (of_nat A) [0..<n]" by (simp add: slot_def)
  then have "sized_repr B (sized_mpool_init m (of_nat A) (of_nat B) (of_nat n)) (slot_map A B n (set [0..<n]))"
    using assms by (intro sized_reprI) (auto simp: sized_mpool_init_def slot_words)
  moreover have "slot_map A B n (set [0..<n]) = Map.empty" by (auto simp: slot_map_def)
  ultimately show ?thesis by simp
qed

text \<open>C11: The sized pool implements the abstract heap. After \<open>sized_mpool_init\<close> on a region that holds its slots, of at least eight
  bytes each, any sequence of allocations of at most a slot, releases and stores runs to its end with results the abstract
  heap allows, and what the client stored in a block stays there. The only exception is an action the client may not take: after the
  actions before it have run, with the results they gave, it frees or writes outside the slots the client holds.\<close>

theorem sized_pool_refines_heap:
  assumes "slots_ok A B n" "0 < n"
  shows "(\<exists>rs s H. exec_all (exec sized_malloc sized_dealloc sized_store)
        (sized_mpool_init m (of_nat A) (of_nat B) (of_nat n)) cs = Some (rs, s) \<and>
      hrun Map.empty cs rs H \<and> simulates sized_load (sized_repr B) s H) \<or>
    (\<exists>cs1 c cs2 rs s H. cs = cs1 @ c # cs2 \<and> exec_all (exec sized_malloc sized_dealloc sized_store)
        (sized_mpool_init m (of_nat A) (of_nat B) (of_nat n)) cs1 = Some (rs, s) \<and>
      hrun Map.empty cs1 rs H \<and> simulates sized_load (sized_repr B) s H \<and> \<not> legal (Suc B) H c)"
proof (rule sized.run_simulates)
  show "simulates sized_load (sized_repr B) (sized_mpool_init m (of_nat A) (of_nat B) (of_nat n)) Map.empty"
    using sized_init_repr [OF assms] by (simp add: simulates_def sizes_def)
qed

text \<open>A slot is allocated, its last byte written, and it is given back; then another is allocated.\<close>

theorem sized_pool_refines_heap_witness:
  "\<exists>rs s. exec_all (exec sized_malloc sized_dealloc sized_store)
     (sized_mpool_init (\<lambda>_. 0) (of_nat 4096) (of_nat 32) (of_nat 8)) [Alloc 32, Store 4096 31 7, Free 4096, Alloc 1] = Some (Some 4096 # rs, s)"
proof -
  let ?s = "sized_mpool_init (\<lambda>_. 0) (of_nat 4096) (of_nat 32) (of_nat 8)"
  have al: "\<exists>s1. sized_malloc ?s 32 = Some (Some 4096, s1)"
    by (simp add: sized_malloc_def sized_mpool_alloc_def sized_mpool_init_def Let_def)
  then obtain s1 where al: "sized_malloc ?s 32 = Some (Some 4096, s1)" by blast
  have "slots_ok 4096 32 8" by (simp add: slots_ok_def)
  from client_runs [where alloc = sized_malloc, OF al _ _ _ sized_pool_refines_heap [OF this]] show ?thesis by simp
qed

end
