(* ===== verification/Spinlock.thy ===== *)
theory Spinlock
  imports Prelude
begin

unbundle bit_operations_syntax

text \<open>
  Spin locks: \<^verbatim>\<open>include/arch/x86_64/spinlock.hpp\<close>, on two levels.

  The first is one processor alone. \<open>spin_lock\<close> saves the flags register, clears the interrupt flag, and sets bit 0 of the lock;
  finding it set already, it spins, and nobody else can clear it, so the result is \<open>None\<close>. The kernel's sequential operations
  use this level.

  The second is any number of processors. A step is one indivisible instruction of \<open>spin_lock\<close> or \<open>spin_unlock\<close> on one
  processor, in the order the sources have them. The program counter of a processor says how far it has got, and
  holds the register that carries the flags.
\<close>

record spinlock =
  sl_lock :: u32
  sl_rflags :: u64

definition SPIN_INIT :: spinlock where
  "SPIN_INIT = \<lparr>sl_lock = 0, sl_rflags = 0\<rparr>"

text \<open>The interrupt flag is bit 9 of the flags register; \<^verbatim>\<open>cli\<close> clears it.\<close>

definition cli :: "u64 \<Rightarrow> u64" where
  "cli rflags = rflags AND NOT (push_bit 9 1)"

text \<open>\<^verbatim>\<open>lock btsl $0\<close> and \<^verbatim>\<open>lock btrl $0\<close>: the old bit and the new word.\<close>

definition bts :: "u32 \<Rightarrow> bool \<times> u32" where
  "bts w = (bit w 0, w OR 1)"

definition btr :: "u32 \<Rightarrow> u32" where
  "btr w = w AND NOT 1"

definition spin_lock :: "spinlock \<times> u64 \<Rightarrow> (spinlock \<times> u64) option" where
  "spin_lock s =
     (let (l, rflags) = s; (held, w) = bts (sl_lock l) in
      if held then None else Some (l\<lparr>sl_lock := w, sl_rflags := rflags\<rparr>, cli rflags))"

definition spin_unlock :: "spinlock \<times> u64 \<Rightarrow> spinlock \<times> u64" where
  "spin_unlock s = (let (l, rflags) = s; l' = l\<lparr>sl_lock := btr (sl_lock l)\<rparr> in (l', sl_rflags l'))"

lemma bts_btr: "\<not> bit w 0 \<Longrightarrow> btr (snd (bts w)) = w" "\<not> bit (btr w) 0"
  by (auto simp: bts_def btr_def bit_simps bit_1_iff intro!: bit_eqI) (metis not_gr_zero)

text \<open>One processor alone: a critical section that keeps the saved flags gives back the lock word and the flags register.\<close>

lemma spin_lock_unlock:
  assumes "\<not> bit (sl_lock l) 0"
  shows "\<exists>l1. spin_lock (l, rf) = Some (l1, cli rf) \<and> spin_unlock (l1, rf') = (l\<lparr>sl_rflags := rf\<rparr>, rf)"
  using assms bts_btr(1) [OF assms] by (auto simp: spin_lock_def spin_unlock_def bts_def)


section \<open>Many processors\<close>

datatype spin_pc = Outside | Saved u64 | Taken u64 | Critical | Cleared | Restoring u64

record spin_state =
  ss_lock :: spinlock
  ss_flags :: "nat \<Rightarrow> u64"
  ss_pc :: "nat \<Rightarrow> spin_pc"

inductive spin_step :: "spin_state \<Rightarrow> spin_state \<Rightarrow> bool" where
  pushf_cli: "ss_pc s i = Outside \<Longrightarrow>
    spin_step s (s\<lparr>ss_pc := (ss_pc s)(i := Saved (ss_flags s i)), ss_flags := (ss_flags s)(i := cli (ss_flags s i))\<rparr>)"
| spin: "ss_pc s i = Saved f \<Longrightarrow> bts (sl_lock (ss_lock s)) = (True, w) \<Longrightarrow>
    spin_step s (s\<lparr>ss_lock := (ss_lock s)\<lparr>sl_lock := w\<rparr>\<rparr>)"
| acquire: "ss_pc s i = Saved f \<Longrightarrow> bts (sl_lock (ss_lock s)) = (False, w) \<Longrightarrow>
    spin_step s (s\<lparr>ss_lock := (ss_lock s)\<lparr>sl_lock := w\<rparr>, ss_pc := (ss_pc s)(i := Taken f)\<rparr>)"
| store_flags: "ss_pc s i = Taken f \<Longrightarrow>
    spin_step s (s\<lparr>ss_lock := (ss_lock s)\<lparr>sl_rflags := f\<rparr>, ss_pc := (ss_pc s)(i := Critical)\<rparr>)"
| clear: "ss_pc s i = Critical \<Longrightarrow>
    spin_step s (s\<lparr>ss_lock := (ss_lock s)\<lparr>sl_lock := btr (sl_lock (ss_lock s))\<rparr>, ss_pc := (ss_pc s)(i := Cleared)\<rparr>)"
| load_flags: "ss_pc s i = Cleared \<Longrightarrow>
    spin_step s (s\<lparr>ss_pc := (ss_pc s)(i := Restoring (sl_rflags (ss_lock s)))\<rparr>)"
| popf: "ss_pc s i = Restoring f \<Longrightarrow>
    spin_step s (s\<lparr>ss_pc := (ss_pc s)(i := Outside), ss_flags := (ss_flags s)(i := f)\<rparr>)"

inductive spin_reach :: "(nat \<Rightarrow> u64) \<Rightarrow> spin_state \<Rightarrow> bool" for f0 where
  start: "spin_reach f0 \<lparr>ss_lock = SPIN_INIT, ss_flags = f0, ss_pc = \<lambda>_. Outside\<rparr>"
| step: "spin_reach f0 s \<Longrightarrow> spin_step s t \<Longrightarrow> spin_reach f0 t"

definition holds_lock :: "spin_pc \<Rightarrow> bool" where
  "holds_lock pc \<longleftrightarrow> pc = Critical \<or> (\<exists>f. pc = Taken f)"

lemma holds_lock_simps [simp]:
  "holds_lock Critical" "holds_lock (Taken f)" "\<not> holds_lock Outside" "\<not> holds_lock (Saved f)" "\<not> holds_lock Cleared"
  "\<not> holds_lock (Restoring f)"
  by (simp_all add: holds_lock_def)

text \<open>The invariant: bit 0 of the lock is set exactly when some processor is past its \<open>btsl\<close> and before its \<open>btrl\<close>, and no two are.\<close>

definition spin_inv :: "spin_state \<Rightarrow> bool" where
  "spin_inv s \<longleftrightarrow> (bit (sl_lock (ss_lock s)) 0 \<longleftrightarrow> (\<exists>i. holds_lock (ss_pc s i))) \<and>
     (\<forall>i j. holds_lock (ss_pc s i) \<longrightarrow> holds_lock (ss_pc s j) \<longrightarrow> i = j)"

lemma spin_inv_cong:
  assumes "spin_inv s" "sl_lock (ss_lock t) = sl_lock (ss_lock s)" "\<And>j. holds_lock (ss_pc t j) = holds_lock (ss_pc s j)"
  shows "spin_inv t"
  using assms(1) by (simp add: spin_inv_def assms(2,3))

lemma spin_step_inv: "spin_step s t \<Longrightarrow> spin_inv s \<Longrightarrow> spin_inv t"
proof (induction rule: spin_step.induct)
  case (clear s i)
  then have "\<And>j. holds_lock (ss_pc s j) \<Longrightarrow> j = i" unfolding spin_inv_def by (metis holds_lock_simps(1))
  then show ?case by (auto simp: spin_inv_def bts_btr(2))
next
  case (acquire s i f w)
  then have "bit w 0" "\<not> bit (sl_lock (ss_lock s)) 0" by (auto simp: bts_def bit_or_iff)
  with acquire show ?case by (auto simp: spin_inv_def)
next
  case (spin s i f w)
  then have "bit w 0" "bit (sl_lock (ss_lock s)) 0" by (auto simp: bts_def bit_or_iff)
  with spin show ?case by (auto simp: spin_inv_def)
qed (rule spin_inv_cong, assumption, simp, simp)+

lemma spin_reach_inv: "spin_reach f0 s \<Longrightarrow> spin_inv s"
proof (induction rule: spin_reach.induct)
  case start
  show ?case by (simp add: spin_inv_def SPIN_INIT_def)
next
  case (step s t)
  then show ?case by (blast intro: spin_step_inv)
qed

text \<open>C6: Mutual exclusion: however the instructions of any number of processors interleave, two processors are never between
  acquiring and releasing the lock at the same time, and the lowest bit of the lock is set exactly while one of them is.\<close>

theorem spin_mutual_exclusion:
  assumes "spin_reach f0 s"
  shows "(\<forall>i j. holds_lock (ss_pc s i) \<and> holds_lock (ss_pc s j) \<longrightarrow> i = j) \<and>
    (bit (sl_lock (ss_lock s)) 0 \<longleftrightarrow> (\<exists>i. holds_lock (ss_pc s i)))"
  using spin_reach_inv [OF assms] unfolding spin_inv_def by blast

text \<open>One processor runs through the lock while no other moves.\<close>

lemma reach_critical:
  assumes "spin_reach f0 s" "ss_pc s i = Outside" "\<not> bit (sl_lock (ss_lock s)) 0"
  shows "spin_reach f0 (s\<lparr>ss_lock := \<lparr>sl_lock = snd (bts (sl_lock (ss_lock s))), sl_rflags = ss_flags s i\<rparr>,
    ss_flags := (ss_flags s)(i := cli (ss_flags s i)), ss_pc := (ss_pc s)(i := Critical)\<rparr>)"
proof -
  let ?s1 = "s\<lparr>ss_pc := (ss_pc s)(i := Saved (ss_flags s i)), ss_flags := (ss_flags s)(i := cli (ss_flags s i))\<rparr>"
  let ?s2 = "?s1\<lparr>ss_lock := (ss_lock ?s1)\<lparr>sl_lock := snd (bts (sl_lock (ss_lock s)))\<rparr>,
    ss_pc := (ss_pc ?s1)(i := Taken (ss_flags s i))\<rparr>"
  have "spin_reach f0 ?s1" by (rule spin_reach.step [OF assms(1) spin_step.pushf_cli]) (rule assms)
  moreover have "spin_step ?s1 ?s2" by (rule spin_step.acquire) (use assms(3) in \<open>simp_all add: bts_def\<close>)
  ultimately have s2: "spin_reach f0 ?s2" by (rule spin_reach.step)
  show ?thesis
    using spin_reach.step [OF s2 spin_step.store_flags [where i = i and f = "ss_flags s i"]]
    by (cases s; cases "ss_lock s") simp
qed

text \<open>\<open>spin_unlock\<close> clears the lock before it reads back the saved flags. When another processor takes the lock in between, the
  first returns from its critical section with the other one's flags register: with processor 1 running without interrupts,
  processor 0 loses its interrupt flag.\<close>

theorem spin_unlock_flags_race:
  "\<exists>s. spin_reach f0 s \<and> ss_pc s 0 = Outside \<and> ss_flags s 0 = f0 1 \<and> ss_pc s 1 = Critical"
proof -
  let ?s0 = "\<lparr>ss_lock = SPIN_INIT, ss_flags = f0, ss_pc = \<lambda>_. Outside\<rparr>"
  obtain s1 where s1: "spin_reach f0 s1" "ss_pc s1 0 = Critical" "ss_pc s1 1 = Outside" "ss_flags s1 1 = f0 1"
    using reach_critical [OF spin_reach.start, where i = 0] by (fastforce simp: SPIN_INIT_def)
  obtain s2 where s2: "spin_reach f0 s2" "ss_pc s2 0 = Cleared" "ss_pc s2 1 = Outside" "ss_flags s2 1 = f0 1"
      "\<not> bit (sl_lock (ss_lock s2)) 0"
    using spin_reach.step [OF s1(1) spin_step.clear [OF s1(2)]] s1 bts_btr(2) by (fastforce simp: fun_upd_def)
  obtain s3 where s3: "spin_reach f0 s3" "ss_pc s3 0 = Cleared" "ss_pc s3 1 = Critical" "sl_rflags (ss_lock s3) = f0 1"
    using reach_critical [OF s2(1,3,5)] s2(2,4) by fastforce
  obtain s4 where s4: "spin_reach f0 s4" "ss_pc s4 0 = Restoring (f0 1)" "ss_pc s4 1 = Critical"
    using spin_reach.step [OF s3(1) spin_step.load_flags [OF s3(2)]] s3 by fastforce
  show ?thesis
    using spin_reach.step [OF s4(1) spin_step.popf [OF s4(2)]] s4(3) by fastforce
qed

theorem spin_mutual_exclusion_witness:
  "\<exists>s. spin_reach (\<lambda>_. 0x202) s \<and> ss_pc s 0 = Critical \<and> (\<forall>j. holds_lock (ss_pc s j) \<longrightarrow> j = 0) \<and> bit (sl_lock (ss_lock s)) 0"
proof -
  obtain s where s: "spin_reach (\<lambda>_. 0x202) s" "ss_pc s 0 = Critical"
    using reach_critical [OF spin_reach.start, where i = 0] by (fastforce simp: SPIN_INIT_def)
  then have "holds_lock (ss_pc s 0)" by simp
  with spin_mutual_exclusion [OF s(1)] s show ?thesis by blast
qed

end
