(* ===== verification/Bitmap.thy ===== *)
theory Bitmap
  imports Memory
begin

unbundle bit_operations_syntax

text \<open>
  The bit map of \<^verbatim>\<open>libs/bitmap.cpp\<close>: a byte array in memory, bit \<open>i\<close> being bit \<open>i mod 8\<close> of byte
  \<open>i div 8\<close>. \<open>bm_bit\<close> is that abstract bit; every operation is specified through it.

  \<open>find_range\<close> is tracked by \<open>run_inv\<close>: at bit position \<open>pos\<close> the loop knows a run of \<open>cnt\<close>
  matching bits that ends there. Its last argument tells whether the run is also known to be
  maximal, which is what makes the search complete; the search for \<open>true\<close> bits keeps it, the
  search for \<open>false\<close> bits loses it at the byte \<open>0x01\<close>, where the code compares with
  \<^verbatim>\<open>!byte_match\<close>.
\<close>

record bitmap =
  bm_data :: u64
  bm_size :: u64

definition bitmap_init :: "mem \<Rightarrow> u64 \<Rightarrow> u64 \<Rightarrow> bitmap \<times> mem" where
  "bitmap_init m data sz =
     (\<lparr>bm_data = data, bm_size = sz\<rparr>, memset m data 0 (sz div 1 div 8))"

definition bitmap_get :: "mem \<Rightarrow> bitmap \<Rightarrow> u64 \<Rightarrow> bool" where
  "bitmap_get m b index =
     (let byte_index = index div 8; bit_index = index mod 8 in
      (ucast (m (bm_data b + byte_index)) AND push_bit (unat bit_index) (1 :: u32)) \<noteq> 0)"

definition bitmap_set :: "mem \<Rightarrow> bitmap \<Rightarrow> u64 \<Rightarrow> bool \<Rightarrow> mem" where
  "bitmap_set m b index v =
     (let byte_index = index div 8; bit_index = index mod 8; a = bm_data b + byte_index in
      if v then m(a := ucast (ucast (m a) OR push_bit (unat bit_index) (1 :: u32)))
      else m(a := ucast (ucast (m a) AND NOT (push_bit (unat bit_index) (1 :: u32)))))"

definition find_bits :: "u64 \<Rightarrow> bool \<Rightarrow> u64 \<Rightarrow> u64 \<Rightarrow> u64 \<times> u64 \<Rightarrow> u64 + u64 \<times> u64" where
  "find_bits byte v len byte_idx =
     for_ret 0 8 (\<lambda>bt (count, start_index).
       let bit_value = (drop_bit (unat bt) byte AND 1 \<noteq> 0) in
       if bit_value = v then
         (let start_index = (if count = 0 then byte_idx * 8 + bt else start_index);
              count = count + 1
          in if count = len then Inl start_index else Inr (count, start_index))
       else Inr (0, start_index))"

definition find_byte :: "mem \<Rightarrow> bitmap \<Rightarrow> bool \<Rightarrow> u64 \<Rightarrow> u64 \<Rightarrow> u64 \<times> u64 \<Rightarrow> u64 + u64 \<times> u64" where
  "find_byte m b v len byte_idx st =
     (let byte_match = (if v then - 1 else 0 :: u8);
          byte = (ucast (m (bm_data b + byte_idx)) :: u64);
          (count, start_index) = st in
      if byte = (if byte_match = 0 then 1 else 0) then Inr (0, start_index)
      else if byte = ucast byte_match then
        (if len < 8 then Inl (byte_idx * 8)
         else let start_index = (if count = 0 then byte_idx * 8 else start_index);
                  count = count + 8
              in if len \<le> count then Inl start_index else Inr (count, start_index))
      else find_bits byte v len byte_idx (count, start_index))"

definition bitmap_find_range :: "mem \<Rightarrow> bitmap \<Rightarrow> bool \<Rightarrow> u64 \<Rightarrow> u64" where
  "bitmap_find_range m b v len =
     (case for_ret 0 (bm_size b div 8) (find_byte m b v len) (0, 0) of Inl r \<Rightarrow> r | Inr _ \<Rightarrow> - 1)"

definition bitmap_set_range :: "mem \<Rightarrow> bitmap \<Rightarrow> u64 \<Rightarrow> u64 \<Rightarrow> bool \<Rightarrow> mem" where
  "bitmap_set_range m b start stop v =
     (if start \<ge> stop \<or> start \<ge> bm_size b then m
      else
        let start_word = (start + 7) div 8;
            end_word = stop div 8;
            m1 = for_loop start (min (start_word * 8) stop) (\<lambda>i m. bitmap_set m b i v) m
        in
        if start_word > end_word then m1
        else
          let fill_value = (if v then - 1 else 0 :: u8);
              m2 = (if start_word \<le> end_word
                    then for_loop start_word end_word (\<lambda>i m. m(bm_data b + i := fill_value)) m1
                    else m1)
          in for_loop (end_word * 8) stop (\<lambda>i m. bitmap_set m b i v) m2)"

section \<open>Single bits\<close>

definition bm_bit :: "mem \<Rightarrow> bitmap \<Rightarrow> nat \<Rightarrow> bool" where
  "bm_bit m b i = bit (m (bm_data b + of_nat (i div 8))) (i mod 8)"

lemma word_div8: "(w :: u64) div 8 = of_nat (unat w div 8)"
proof -
  have "unat w div 8 < 2 ^ 64"
    using unat_less_2p64 [of w] div_le_dividend [of "unat w" 8] by linarith
  then show ?thesis by (simp add: word_unat_eq_iff unat_div)
qed

lemma bitmap_get_bit: "bitmap_get m b index = bm_bit m b (unat index)"
proof -
  have "unat index mod 8 < 32" by (rule order.strict_trans [OF mod_less_divisor]) simp_all
  then show ?thesis
    by (simp add: bitmap_get_def Let_def and_exp_neq_0 bit_simps bm_bit_def word_div8 unat_mod)
qed

lemma bit_byte_set:
  assumes "k < 8"
  shows "bit (ucast (ucast (w :: u8) OR (2 :: u32) ^ k) :: u8) j = (j < 8 \<and> (j = k \<or> bit w j))"
    "bit (ucast (ucast (w :: u8) AND NOT ((2 :: u32) ^ k)) :: u8) j = (j < 8 \<and> j \<noteq> k \<and> bit w j)"
  using assms
  by (auto simp: bit_unsigned_iff bit_or_iff bit_and_iff bit_not_iff bit_exp_iff dest: bit_imp_le_length)

lemma byte_index_eq:
  assumes "i < 2 ^ 64" "j < 2 ^ 64"
  shows "(of_nat (i div 8) = (of_nat (j div 8) :: u64)) = (i div 8 = j div 8)"
proof -
  have "i div 8 < 2 ^ 64" "j div 8 < 2 ^ 64"
    using assms div_le_dividend [of i 8] div_le_dividend [of j 8] by linarith+
  then show ?thesis by (rule of_nat64_eq_iff)
qed

lemma same_bit: "(i = j) = (i div 8 = j div 8 \<and> i mod 8 = j mod (8 :: nat))"
  by (metis div_mult_mod_eq)

lemma bm_bit_set:
  assumes "j < 2 ^ 64"
  shows "bm_bit (bitmap_set m b index v) b j = (if j = unat index then v else bm_bit m b j)"
proof -
  have k: "unat (index mod 8) < 8" by (simp add: unat_mod)
  have at: "(bm_data b + of_nat (j div 8) = bm_data b + index div 8) = (j div 8 = unat index div 8)"
    using byte_index_eq [OF assms unat_less_2p64 [of index]] by (simp add: word_div8)
  show ?thesis
    using at same_bit [of j "unat index"] k
    by (auto simp: bm_bit_def bitmap_set_def Let_def bit_byte_set unat_mod)
qed

lemma bitmap_set_other: "x \<noteq> bm_data b + index div 8 \<Longrightarrow> bitmap_set m b index v x = m x"
  by (simp add: bitmap_set_def Let_def)

section \<open>Runs of equal bits\<close>

definition run_inv :: "(nat \<Rightarrow> bool) \<Rightarrow> bool \<Rightarrow> nat \<Rightarrow> bool \<Rightarrow> nat \<Rightarrow> nat \<Rightarrow> nat \<Rightarrow> bool" where
  "run_inv B v len c pos cnt start \<longleftrightarrow>
     cnt < len \<and> cnt \<le> pos \<and> (cnt > 0 \<longrightarrow> start + cnt = pos) \<and>
     (\<forall>i. pos - cnt \<le> i \<and> i < pos \<longrightarrow> B i = v) \<and>
     (c \<longrightarrow> (cnt = pos \<or> B (pos - cnt - 1) \<noteq> v) \<and>
           (\<forall>s. s + len \<le> pos \<longrightarrow> (\<exists>i<len. B (s + i) \<noteq> v)))"

definition run_start :: "nat \<Rightarrow> nat \<Rightarrow> nat \<Rightarrow> nat" where
  "run_start pos cnt start = (if cnt = 0 then pos else start)"

lemma run_inv_init: "0 < len \<Longrightarrow> run_inv B v len c 0 0 s"
  by (auto simp: run_inv_def)

lemma run_inv_mismatch:
  assumes inv: "run_inv B v len c pos cnt start" and B: "B pos \<noteq> v"
  shows "run_inv B v len c (Suc pos) 0 s"
proof -
  have "\<exists>i<len. B (t + i) \<noteq> v" if c "t + len \<le> Suc pos" for t
  proof (cases "t + len \<le> pos")
    case True
    with inv \<open>c\<close> show ?thesis by (auto simp: run_inv_def)
  next
    case False
    with that inv have "t + (len - 1) = pos" "len - 1 < len" by (auto simp: run_inv_def)
    with B show ?thesis by metis
  qed
  with inv B show ?thesis by (auto simp: run_inv_def)
qed

lemma run_inv_forget: "run_inv B v len c pos cnt start \<Longrightarrow> run_inv B v len False pos' 0 s"
  by (auto simp: run_inv_def)

lemma run_inv_match:
  assumes inv: "run_inv B v len c pos cnt start" and B: "B pos = v" and len: "Suc cnt < len"
  shows "run_inv B v len c (Suc pos) (Suc cnt) (run_start pos cnt start)"
proof -
  have run: "B i = v" if "pos - cnt \<le> i" "i < Suc pos" for i
    using that inv B by (cases "i = pos") (auto simp: run_inv_def)
  have no: "\<exists>i<len. B (s + i) \<noteq> v" if c and s: "s + len \<le> Suc pos" for s
  proof (cases "s + len \<le> pos")
    case True
    with inv \<open>c\<close> show ?thesis by (auto simp: run_inv_def)
  next
    case False
    with s have "s + len = Suc pos" by simp
    with len have lt: "s \<le> pos - cnt - 1" "cnt \<noteq> pos" "pos - cnt - 1 < s + len" by auto
    with inv \<open>c\<close> have "B (pos - cnt - 1) \<noteq> v" by (auto simp: run_inv_def)
    moreover have "s + (pos - cnt - 1 - s) = pos - cnt - 1" "pos - cnt - 1 - s < len"
      using lt by auto
    ultimately show ?thesis by metis
  qed
  show ?thesis
    using inv len run no by (auto simp: run_inv_def run_start_def)
qed

lemma run_inv_matches:
  assumes "run_inv B v len c pos cnt start" "\<forall>i<k. B (pos + i) = v" "cnt + k < len" "0 < k"
  shows "run_inv B v len c (pos + k) (cnt + k) (run_start pos cnt start)"
  using assms(4,2,3)
proof (induction k rule: nat_induct_non_zero)
  case 1
  with assms(1) show ?case using run_inv_match [of B v len c pos cnt start] by simp
next
  case (Suc k)
  then have "run_inv B v len c (pos + k) (cnt + k) (run_start pos cnt start)" by simp
  from run_inv_match [OF this] Suc.prems Suc.hyps show ?case by (simp add: run_start_def)
qed

lemma run_inv_found:
  assumes "run_inv B v len c pos cnt start" "\<forall>i<k. B (pos + i) = v" "len \<le> cnt + k"
  shows "run_start pos cnt start + len \<le> pos + k \<and> (\<forall>i<len. B (run_start pos cnt start + i) = v)"
proof -
  have st: "run_start pos cnt start = pos - cnt"
    using assms(1) by (auto simp: run_inv_def run_start_def)
  have "B (pos - cnt + i) = v" if "i < len" for i
  proof (cases "pos - cnt + i < pos")
    case True
    with assms(1) show ?thesis by (auto simp: run_inv_def)
  next
    case False
    with assms that have "pos - cnt + i = pos + (i - cnt)" "i - cnt < k"
      by (auto simp: run_inv_def)
    with assms(2) show ?thesis by simp
  qed
  moreover have "pos - cnt + len \<le> pos + k" using assms by (auto simp: run_inv_def)
  ultimately show ?thesis by (simp add: st)
qed

lemma run_inv_mismatches:
  assumes "run_inv B v len c pos cnt start" "\<forall>i<k. B (pos + i) \<noteq> v" "0 < k"
  shows "run_inv B v len c (pos + k) 0 s"
  using assms(3,2)
proof (induction k rule: nat_induct_non_zero)
  case 1
  with run_inv_mismatch [OF assms(1), of s] show ?case by simp
next
  case (Suc k)
  then have "run_inv B v len c (pos + k) 0 s" by simp
  from run_inv_mismatch [OF this, of s] Suc.prems show ?case by simp
qed

section \<open>The search for a range\<close>

definition range_found :: "mem \<Rightarrow> bitmap \<Rightarrow> bool \<Rightarrow> nat \<Rightarrow> nat \<Rightarrow> u64 \<Rightarrow> bool" where
  "range_found m b v len lim r \<longleftrightarrow>
     unat r + len \<le> lim \<and> (\<forall>i<len. bm_bit m b (unat r + i) = v)"

abbreviation search_state ::
  "mem \<Rightarrow> bitmap \<Rightarrow> bool \<Rightarrow> nat \<Rightarrow> bool \<Rightarrow> nat \<Rightarrow> u64 \<times> u64 \<Rightarrow> bool" where
  "search_state m b v len c pos st \<equiv> run_inv (bm_bit m b) v len c pos (unat (fst st)) (unat (snd st))"

lemma bm_bit_in_byte: "k < 8 \<Longrightarrow> bm_bit m b (8 * q + k) = bit (m (bm_data b + of_nat q)) k"
  by (simp add: bm_bit_def)

lemma range_found_mono: "range_found m b v len lim r \<Longrightarrow> lim \<le> lim' \<Longrightarrow> range_found m b v len lim' r"
  by (auto simp: range_found_def)

lemma unat_inc: "(count :: u64) < len \<Longrightarrow> unat (count + 1) = Suc (unat count)"
  by (rule unat_Suc_less)

lemma shifted_bit_neq_0: "k < 64 \<Longrightarrow> (drop_bit k (w :: u64) AND 1 \<noteq> 0) = bit w k"
  by (simp add: bit_iff_odd_drop_bit one_and_eq and_one_eq odd_iff_mod_2_eq_one)

lemma find_bits_inv:
  assumes st: "search_state m b v (unat len) c (8 * q) st" and q: "8 * q + 8 < 2 ^ 64"
  shows "case find_bits (ucast (m (bm_data b + of_nat q))) v len (of_nat q) st of
      Inl r \<Rightarrow> range_found m b v (unat len) (8 * q + 8) r
    | Inr st' \<Rightarrow> search_state m b v (unat len) c (8 * q + 8) st'"
proof -
  let ?byte = "ucast (m (bm_data b + of_nat q)) :: u64"
  let ?I = "\<lambda>k st. search_state m b v (unat len) c (8 * q + k) st"
  let ?R = "range_found m b v (unat len) (8 * q + 8)"
  have "case find_bits ?byte v len (of_nat q) st of Inl r \<Rightarrow> ?R r | Inr st' \<Rightarrow> ?I (unat (8 :: u64)) st'"
    unfolding find_bits_def
  proof (rule for_ret_inv [where I = ?I and R = ?R])
    fix k and st :: "u64 \<times> u64"
    assume "k < unat (8 :: u64)" and I: "?I k st"
    then have k: "k < 8" by simp
    obtain count start where [simp]: "st = (count, start)" by force
    have lt: "count < len" using I by (simp add: run_inv_def word_less_nat_alt)
    have bt: "(drop_bit (unat (of_nat k :: u64)) ?byte AND 1 \<noteq> 0) = bm_bit m b (8 * q + k)"
      using k by (simp add: shifted_bit_neq_0 bm_bit_in_byte bit_unsigned_iff)
    have pos: "of_nat q * 8 + of_nat k = (of_nat (8 * q + k) :: u64)" by simp
    have start: "unat (if count = 0 then of_nat q * 8 + of_nat k else start) =
        run_start (8 * q + k) (unat count) (unat start)"
      using k q by (simp add: pos run_start_def unat_gt_0 unat_eq_0 del: of_nat_add of_nat_mult)
    show "case (case st of (count, start_index) \<Rightarrow>
        let bit_value = (drop_bit (unat (of_nat k :: u64)) ?byte AND 1 \<noteq> 0) in
        if bit_value = v then
          (let start_index = (if count = 0 then of_nat q * 8 + of_nat k else start_index);
               count = count + 1
           in if count = len then Inl start_index else Inr (count, start_index))
        else Inr (0, start_index)) of Inl r \<Rightarrow> ?R r | Inr st' \<Rightarrow> ?I (Suc k) st'"
    proof (cases "bm_bit m b (8 * q + k) = v")
      case False
      with I bt show ?thesis by (simp add: run_inv_mismatch)
    next
      case True
      show ?thesis
      proof (cases "count + 1 = len")
        case L: True
        then have "unat len = Suc (unat count)" using unat_inc [OF lt] by simp
        then have "?R (if count = 0 then of_nat q * 8 + of_nat k else start)"
          using run_inv_found [of "bm_bit m b" v "unat len" c "8 * q + k" "unat count" "unat start" 1]
            I True k unfolding range_found_def start by simp
        with L True bt show ?thesis by (simp add: Let_def)
      next
        case L: False
        then have "Suc (unat count) < unat len"
          using lt unat_inc [OF lt] by (simp add: word_less_nat_alt word_unat_eq_iff)
        with run_inv_match [of "bm_bit m b" v "unat len" c "8 * q + k" "unat count" "unat start"] I True
        have "run_inv (bm_bit m b) v (unat len) c (Suc (8 * q + k)) (unat (count + 1))
          (unat (if count = 0 then of_nat q * 8 + of_nat k else start))"
          unfolding start unat_inc [OF lt] by simp
        with L True bt show ?thesis by (simp add: Let_def)
      qed
    qed
  qed (use st in simp_all)
  then show ?thesis by (auto split: sum.splits)
qed

lemma byte_eq_0_bits: "(ucast (w :: u8) = (0 :: u64)) = (\<forall>k<8. \<not> bit w k)"
proof
  show "ucast w = (0 :: u64) \<Longrightarrow> \<forall>k<8. \<not> bit w k"
    by (auto simp: bit_eq_iff bit_simps)
  assume z: "\<forall>k<8. \<not> bit w k"
  have "\<not> bit w k" for k using z bit_imp_le_length [of w k] by auto
  then show "ucast w = (0 :: u64)" by (simp add: bit_eq_iff bit_simps)
qed

lemma byte_eq_ff_bits: "(ucast (w :: u8) = (ucast (- 1 :: u8) :: u64)) = (\<forall>k<8. bit w k)"
  by (auto simp: bit_eq_iff bit_simps dest: bit_imp_le_length)

lemma byte_match_bits:
  "(ucast (w :: u8) = (ucast (if v then - 1 else 0 :: u8) :: u64)) = (\<forall>k<8. bit w k = v)"
  using byte_eq_0_bits [of w] byte_eq_ff_bits [of w] by (cases v) simp_all

lemma find_byte_inv:
  assumes st: "search_state m b v (unat len) c (8 * q) st" and q: "8 * q + 8 < 2 ^ 64" and c: "c \<longrightarrow> v"
  shows "case find_byte m b v len (of_nat q) st of
      Inl r \<Rightarrow> range_found m b v (unat len) (8 * q + 8) r
    | Inr st' \<Rightarrow> search_state m b v (unat len) c (8 * q + 8) st'"
proof -
  obtain count start where [simp]: "st = (count, start)" by force
  define w where "w = m (bm_data b + of_nat q)"
  have bits: "bm_bit m b (8 * q + i) = bit w i" if "i < 8" for i
    using that by (simp add: bm_bit_in_byte w_def)
  have start: "unat (if count = 0 then of_nat q * 8 else start) = run_start (8 * q) (unat count) (unat start)"
  proof -
    have "of_nat q * 8 = (of_nat (8 * q) :: u64)" by simp
    with q show ?thesis by (simp add: run_start_def unat_eq_0 del: of_nat_mult)
  qed
  have cnt: "unat (count + 8) = unat count + 8"
    using st q by (simp add: run_inv_def unat_word_ariths)
  consider (none) "ucast w = (if v then 0 else 1 :: u64)"
    | (all) "ucast w \<noteq> (if v then 0 else 1 :: u64)" "\<forall>k<8. bit w k = v"
    | (some) "ucast w \<noteq> (if v then 0 else 1 :: u64)" "\<not> (\<forall>k<8. bit w k = v)" by blast
  then show ?thesis
  proof cases
    case none
    have "run_inv (bm_bit m b) v (unat len) c (8 * q + 8) 0 (unat start)"
    proof (cases c)
      case True
      with c none have "\<forall>i<8. bm_bit m b (8 * q + i) \<noteq> v" by (simp add: bits byte_eq_0_bits)
      with st show ?thesis by (intro run_inv_mismatches) simp_all
    next
      case False
      with run_inv_forget [OF st] show ?thesis by simp
    qed
    with none show ?thesis by (simp add: find_byte_def Let_def w_def [symmetric] split: if_splits)
  next
    case all
    then have eq: "ucast w = (ucast (if v then - 1 else 0 :: u8) :: u64)" by (simp only: byte_match_bits)
    have full: "\<forall>i<8. bm_bit m b (8 * q + i) = v" using all by (simp add: bits)
    show ?thesis
    proof (cases "len < 8")
      case True
      have pos: "of_nat q * 8 = (of_nat (8 * q) :: u64)" by simp
      have "range_found m b v (unat len) (8 * q + 8) (of_nat q * 8)"
        using True full q unfolding range_found_def pos
        by (simp add: word_less_nat_alt del: of_nat_mult)
      with True all(1) eq show ?thesis
        by (simp add: find_byte_def Let_def w_def [symmetric] split: if_splits)
    next
      case L: False
      show ?thesis
      proof (cases "len \<le> count + 8")
        case True
        then have "range_found m b v (unat len) (8 * q + 8) (if count = 0 then of_nat q * 8 else start)"
          using run_inv_found [of "bm_bit m b" v "unat len" c "8 * q" "unat count" "unat start" 8]
            st full unfolding range_found_def start by (simp add: word_le_nat_alt cnt)
        with True L all(1) eq show ?thesis
          by (simp add: find_byte_def Let_def w_def [symmetric] split: if_splits)
      next
        case False
        then have "run_inv (bm_bit m b) v (unat len) c (8 * q + 8) (unat (count + 8))
            (unat (if count = 0 then of_nat q * 8 else start))"
          using run_inv_matches [of "bm_bit m b" v "unat len" c "8 * q" "unat count" "unat start" 8]
            st full unfolding start cnt by (simp add: word_le_nat_alt cnt)
        with False L all(1) eq show ?thesis
          by (simp add: find_byte_def Let_def w_def [symmetric] split: if_splits)
      qed
    qed
  next
    case some
    then have "ucast w \<noteq> (ucast (if v then - 1 else 0 :: u8) :: u64)"
      using byte_match_bits [of w v] by blast
    with some(1) have "find_byte m b v len (of_nat q) st = find_bits (ucast w) v len (of_nat q) st"
      by (auto simp: find_byte_def Let_def w_def [symmetric] split: if_splits)
    with find_bits_inv [OF st q] show ?thesis by (simp only: w_def)
  qed
qed

lemma find_range_inv:
  assumes "c \<longrightarrow> v" "len \<noteq> 0"
  shows "case for_ret 0 (bm_size b div 8) (find_byte m b v len) (0, 0) of
      Inl r \<Rightarrow> range_found m b v (unat len) (8 * (unat (bm_size b) div 8)) r
    | Inr st' \<Rightarrow> search_state m b v (unat len) c (8 * (unat (bm_size b) div 8)) st'"
proof -
  let ?n = "unat (bm_size b) div 8"
  let ?I = "\<lambda>q st. search_state m b v (unat len) c (8 * q) st"
  let ?R = "range_found m b v (unat len) (8 * ?n)"
  have "case for_ret 0 (bm_size b div 8) (find_byte m b v len) (0, 0) of
      Inl r \<Rightarrow> ?R r | Inr st' \<Rightarrow> ?I (unat (bm_size b div 8)) st'"
  proof (rule for_ret_inv [where I = ?I and R = ?R])
    fix q st assume q: "q < unat (bm_size b div 8)" and I: "?I q st"
    have "8 * q + 8 \<le> 8 * ?n" "8 * ?n < 2 ^ 64"
      using q unat_less_2p64 [of "bm_size b"] by (simp_all add: unat_div)
    with find_byte_inv [OF I _ assms(1)]
    show "case find_byte m b v len (of_nat q) st of Inl r \<Rightarrow> ?R r | Inr st' \<Rightarrow> ?I (Suc q) st'"
      by (auto simp: add.commute intro: range_found_mono split: sum.splits)
  qed (use assms in \<open>simp_all add: run_inv_init unat_gt_0\<close>)
  then show ?thesis by (auto simp: unat_div split: sum.splits)
qed

lemma range_found_not_max: "range_found m b v len lim r \<Longrightarrow> 0 < len \<Longrightarrow> lim < 2 ^ 64 \<Longrightarrow> r \<noteq> - 1"
  by (auto simp: range_found_def unat_minus64)

lemma find_range_sound:
  assumes "len \<noteq> 0" "bitmap_find_range m b v len \<noteq> - 1"
  shows "range_found m b v (unat len) (8 * (unat (bm_size b) div 8)) (bitmap_find_range m b v len)"
  using find_range_inv [of False v len m b] assms
  by (auto simp: bitmap_find_range_def split: sum.splits)

lemma find_range_true_complete:
  assumes "len \<noteq> 0"
  shows "bitmap_find_range m b True len = - 1 \<longleftrightarrow>
    (\<forall>s. s + unat len \<le> 8 * (unat (bm_size b) div 8) \<longrightarrow> (\<exists>i<unat len. \<not> bm_bit m b (s + i)))"
proof (cases "for_ret 0 (bm_size b div 8) (find_byte m b True len) (0, 0)")
  case (Inl r)
  with find_range_inv [of True True len m b] assms
  have found: "range_found m b True (unat len) (8 * (unat (bm_size b) div 8)) r" by simp
  moreover have "8 * (unat (bm_size b) div 8) < 2 ^ 64"
    using unat_less_2p64 [of "bm_size b"] by linarith
  ultimately have "r \<noteq> - 1" using assms by (auto dest: range_found_not_max simp: unat_gt_0)
  with Inl found show ?thesis by (auto simp: bitmap_find_range_def range_found_def)
next
  case (Inr st)
  with find_range_inv [of True True len m b] assms
  show ?thesis by (auto simp: bitmap_find_range_def run_inv_def)
qed

section \<open>Setting a range\<close>

text \<open>\<open>bits_set m' m b lo hi v\<close>: \<open>m'\<close> is \<open>m\<close> with the bits from \<open>lo\<close> up to \<open>hi\<close> set to \<open>v\<close>, and no
  byte outside those of the range touched.\<close>

definition bits_set :: "mem \<Rightarrow> mem \<Rightarrow> bitmap \<Rightarrow> nat \<Rightarrow> nat \<Rightarrow> bool \<Rightarrow> bool" where
  "bits_set m' m b lo hi v \<longleftrightarrow>
     (\<forall>i < 2 ^ 64. bm_bit m' b i = (if lo \<le> i \<and> i < hi then v else bm_bit m b i)) \<and>
     (\<forall>x. (\<forall>i. lo \<le> i \<and> i < hi \<longrightarrow> x \<noteq> bm_data b + of_nat (i div 8)) \<longrightarrow> m' x = m x)"

lemma bits_set_refl: "hi \<le> lo \<Longrightarrow> bits_set m m b lo hi v"
  by (auto simp: bits_set_def)

lemma bits_set_trans:
  assumes "bits_set m1 m b lo mid v" "bits_set m2 m1 b mid hi v" "lo \<le> mid" "mid \<le> hi"
  shows "bits_set m2 m b lo hi v"
  unfolding bits_set_def
proof (intro conjI allI impI)
  fix i :: nat assume "i < 2 ^ 64"
  with assms show "bm_bit m2 b i = (if lo \<le> i \<and> i < hi then v else bm_bit m b i)"
    by (auto simp: bits_set_def)
next
  fix x assume x: "\<forall>i. lo \<le> i \<and> i < hi \<longrightarrow> x \<noteq> bm_data b + of_nat (i div 8)"
  have "m2 x = m1 x" using assms x by (auto simp: bits_set_def)
  also have "m1 x = m x" using assms x by (auto simp: bits_set_def)
  finally show "m2 x = m x" .
qed

lemma bits_set_one: "i < 2 ^ 64 \<Longrightarrow> bits_set (bitmap_set m b (of_nat i) v) m b i (Suc i) v"
  unfolding bits_set_def
  by (auto simp: bm_bit_set less_Suc_eq_le word_div8 intro!: bitmap_set_other)

lemma bits_set_byte:
  assumes "8 * q < 2 ^ 64"
  shows "bits_set (m(bm_data b + of_nat q := (if v then - 1 else 0))) m b (8 * q) (8 * q + 8) v"
  unfolding bits_set_def
proof (intro conjI allI impI)
  fix i :: nat assume i: "i < 2 ^ 64"
  have "of_nat (i div 8) = (of_nat q :: u64) \<longleftrightarrow> i div 8 = q"
    using byte_index_eq [OF i assms] by simp
  moreover have "8 * q \<le> i \<and> i < 8 * q + 8 \<longleftrightarrow> i div 8 = q" by auto
  ultimately show "bm_bit (m(bm_data b + of_nat q := (if v then - 1 else 0))) b i =
    (if 8 * q \<le> i \<and> i < 8 * q + 8 then v else bm_bit m b i)"
    by (simp add: bm_bit_def)
next
  fix x assume "\<forall>i. 8 * q \<le> i \<and> i < 8 * q + 8 \<longrightarrow> x \<noteq> bm_data b + of_nat (i div 8)"
  from this [rule_format, of "8 * q"]
  show "(m(bm_data b + of_nat q := (if v then - 1 else 0))) x = m x" by simp
qed

lemma set_bits_loop:
  assumes "start \<le> stop"
  shows "bits_set (for_loop start stop (\<lambda>i m. bitmap_set m b i v) m) m b (unat start) (unat stop) v"
proof (rule for_loop_inv [where I = "\<lambda>k m'. bits_set m' m b (unat start) k v"])
  fix k m' assume "unat start \<le> k" "k < unat stop" "bits_set m' m b (unat start) k v"
  moreover have "k < 2 ^ 64" using \<open>k < unat stop\<close> unat_less_2p64 [of stop] by simp
  ultimately show "bits_set (bitmap_set m' b (of_nat k) v) m b (unat start) (Suc k) v"
    by (intro bits_set_trans [OF _ bits_set_one]) simp_all
qed (use assms in \<open>simp_all add: bits_set_refl word_le_nat_alt\<close>)

lemma fill_bytes_loop:
  assumes "q \<le> r" "8 * unat r < 2 ^ 64"
  shows "bits_set (for_loop q r (\<lambda>i m. m(bm_data b + i := (if v then - 1 else 0))) m) m b
    (8 * unat q) (8 * unat r) v"
proof (rule for_loop_inv [where I = "\<lambda>k m'. bits_set m' m b (8 * unat q) (8 * k) v"])
  fix k m' assume k: "unat q \<le> k" "k < unat r" and I: "bits_set m' m b (8 * unat q) (8 * k) v"
  have "bits_set (m'(bm_data b + of_nat k := (if v then - 1 else 0))) m' b (8 * k) (8 * k + 8) v"
    using k assms by (intro bits_set_byte) simp
  from bits_set_trans [OF I this] k
  show "bits_set (m'(bm_data b + of_nat k := (if v then - 1 else 0))) m b (8 * unat q) (8 * Suc k) v"
    by (simp add: add.commute)
qed (use assms in \<open>simp_all add: bits_set_refl word_le_nat_alt\<close>)

lemma set_range_bits:
  assumes "start < stop" "start < bm_size b" "unat start + 7 < 2 ^ 64"
  shows "bits_set (bitmap_set_range m b start stop v) m b (unat start) (unat stop) v"
proof -
  let ?sw = "(start + 7) div 8" and ?ew = "stop div 8"
  have guard: "\<not> stop \<le> start" "\<not> bm_size b \<le> start" using assms by (simp_all add: not_le)
  have usw: "unat ?sw = (unat start + 7) div 8" and uew: "unat ?ew = unat stop div 8"
    using assms(3) by (simp_all add: unat_div unat_word_ariths)
  have usw8: "unat (?sw * 8) = 8 * unat ?sw" and uew8: "unat (?ew * 8) = 8 * unat ?ew"
    using assms(3) unat_less_2p64 [of stop] by (simp_all add: unat_word_ariths usw uew)
  let ?m1 = "for_loop start (min (?sw * 8) stop) (\<lambda>i m. bitmap_set m b i v) m"
  have lo: "unat start \<le> 8 * unat ?sw" unfolding usw by linarith
  have m1: "bits_set ?m1 m b (unat start) (unat (min (?sw * 8) stop)) v"
    using assms(1) lo by (intro set_bits_loop) (simp add: word_le_nat_alt usw8 min_def word_less_nat_alt)
  show ?thesis
  proof (cases "?sw > ?ew")
    case True
    then have "unat stop < 8 * unat ?sw" unfolding word_less_nat_alt uew by linarith
    then have "min (?sw * 8) stop = stop" by (simp add: min_def word_le_nat_alt usw8)
    with m1 True guard show ?thesis by (simp add: bitmap_set_range_def Let_def)
  next
    case False
    then have le: "?sw \<le> ?ew" by simp
    then have s8: "8 * unat ?sw \<le> unat stop" unfolding word_le_nat_alt uew by linarith
    then have mn: "min (?sw * 8) stop = ?sw * 8" by (simp add: min_def word_le_nat_alt usw8)
    let ?m2 = "for_loop ?sw ?ew (\<lambda>i m. m(bm_data b + i := (if v then - 1 else 0))) ?m1"
    have e8: "8 * unat ?ew \<le> unat stop" unfolding uew by linarith
    have m2: "bits_set ?m2 ?m1 b (8 * unat ?sw) (8 * unat ?ew) v"
      using le e8 unat_less_2p64 [of stop] by (intro fill_bytes_loop) simp_all
    have m3: "bits_set (for_loop (?ew * 8) stop (\<lambda>i m. bitmap_set m b i v) ?m2) ?m2 b
        (unat (?ew * 8)) (unat stop) v"
      using e8 by (intro set_bits_loop) (simp add: word_le_nat_alt uew8)
    have "bits_set ?m2 m b (unat start) (8 * unat ?ew) v"
      using bits_set_trans [OF m1 [unfolded mn usw8] m2 [unfolded mn]] lo le
      by (simp add: word_le_nat_alt mn)
    from bits_set_trans [OF this m3 [unfolded uew8]] lo le e8 False guard
    show ?thesis by (simp add: bitmap_set_range_def Let_def word_le_nat_alt mn)
  qed
qed

lemma set_range_ignored:
  "start \<ge> stop \<or> start \<ge> bm_size b \<Longrightarrow> bitmap_set_range m b start stop v = m"
  by (auto simp: bitmap_set_range_def)

section \<open>Properties\<close>

text \<open>C25: whatever \<open>find_range\<close> returns other than \<open>-1\<close> is the start of \<open>len\<close> consecutive bits with the value
  sought, all within the whole bytes of the map.\<close>

theorem find_range_returns_range:
  assumes "len \<noteq> 0" "bitmap_find_range m b v len \<noteq> - 1"
  shows "unat (bitmap_find_range m b v len) + unat len \<le> 8 * (unat (bm_size b) div 8) \<and>
    (\<forall>i < unat len. bitmap_get m b (bitmap_find_range m b v len + of_nat i) = v)"
proof -
  note F = find_range_sound [OF assms, unfolded range_found_def]
  have "unat (bitmap_find_range m b v len + of_nat i) = unat (bitmap_find_range m b v len) + i" if "i < unat len" for i
    using F that unat_less_2p64 [of "bm_size b"] by (intro unat_add_of_nat) linarith
  with F show ?thesis by (simp add: bitmap_get_bit)
qed

theorem find_range_returns_range_witness:
  "bitmap_find_range (\<lambda>_. 0x38) \<lparr>bm_data = 0, bm_size = 16\<rparr> True 3 = 3 \<and>
   bitmap_get (\<lambda>_. 0x38) \<lparr>bm_data = 0, bm_size = 16\<rparr> 5"
proof -
  have "bitmap_find_range (\<lambda>_. 0x38) \<lparr>bm_data = 0, bm_size = 16\<rparr> True 3 = 3" by code_simp
  with find_range_returns_range [of 3 "\<lambda>_. 0x38" "\<lparr>bm_data = 0, bm_size = 16\<rparr>" True]
  show ?thesis by (auto dest: spec [of _ 2])
qed

text \<open>the search for set bits is complete: \<open>-1\<close> means that no run of \<open>len\<close> set bits lies within the
  whole bytes of the map.\<close>

theorem find_range_true_exhaustive:
  assumes "len \<noteq> 0" "s + unat len \<le> 8 * (unat (bm_size b) div 8)" "\<forall>i < unat len. bm_bit m b (s + i)"
  shows "bitmap_find_range m b True len \<noteq> - 1"
  using find_range_true_complete [OF assms(1), of m b] assms(2,3) by blast

theorem find_range_true_exhaustive_witness:
  "bitmap_find_range (\<lambda>_. 0x38) \<lparr>bm_data = 0, bm_size = 16\<rparr> True 2 \<noteq> - 1"
proof (rule find_range_true_exhaustive [of _ 11])
  show "\<forall>i<unat (2 :: u64). bm_bit (\<lambda>_. 0x38) \<lparr>bm_data = 0, bm_size = 16\<rparr> (11 + i)"
    by (auto simp: bm_bit_def less_2_cases_iff)
qed simp_all

text \<open>the search for clear bits is not complete. The test \<^verbatim>\<open>byte == !byte_match\<close> uses logical negation: when
  clear bits are sought it skips every byte equal to 1 as if no bit of it were clear. In a one-byte map with only bit 0
  set, bits 1 to 7 are clear and the search for seven of them fails.\<close>

theorem find_range_false_incomplete:
  "(\<forall>i\<in>{1..<8}. \<not> bm_bit (\<lambda>_. 1) \<lparr>bm_data = 0, bm_size = 8\<rparr> i) \<and>
   bitmap_find_range (\<lambda>_. 1) \<lparr>bm_data = 0, bm_size = 8\<rparr> False 7 = - 1"
  by (auto simp: bm_bit_def bitmap_find_range_def find_byte_def for_ret.simps bit_1_iff)

theorem find_range_false_incomplete_witness:
  "bitmap_find_range (\<lambda>_. 1) \<lparr>bm_data = 0, bm_size = 8\<rparr> False 7 = - 1"
  using find_range_false_incomplete by simp

text \<open>C12: \<open>set_range\<close> gives the bits from \<open>start\<close> to \<open>stop - 1\<close> the new value, keeps every other bit, and writes
  only bytes that hold a bit of the range, although it works on partial and whole bytes in three loops.\<close>

theorem set_range_exact:
  assumes "start < stop" "start < bm_size b" "unat start + 7 < 2 ^ 64" "i < 2 ^ 64"
  shows "bm_bit (bitmap_set_range m b start stop v) b i =
      (if unat start \<le> i \<and> i < unat stop then v else bm_bit m b i) \<and>
    (\<forall>x. (\<forall>i. unat start \<le> i \<and> i < unat stop \<longrightarrow> x \<noteq> bm_data b + of_nat (i div 8)) \<longrightarrow>
       bitmap_set_range m b start stop v x = m x)"
  using set_range_bits [OF assms(1-3), of m v] assms(4) unfolding bits_set_def by blast

theorem set_range_exact_witness:
  "bm_bit (bitmap_set_range (\<lambda>_. 0) \<lparr>bm_data = 0, bm_size = 64\<rparr> 3 30 True) \<lparr>bm_data = 0, bm_size = 64\<rparr> 17 \<and>
   bitmap_set_range (\<lambda>_. 0) \<lparr>bm_data = 0, bm_size = 64\<rparr> 3 30 True 9 = 0"
proof -
  let ?b = "\<lparr>bm_data = 0, bm_size = 64\<rparr> :: bitmap"
  have "9 \<noteq> (of_nat (i div 8) :: u64)" if "i < 30" for i :: nat
  proof -
    have "i div 8 < 9" using that by linarith
    then show ?thesis using of_nat64_eq_iff [of 9 "i div 8"] by auto
  qed
  then show ?thesis using set_range_exact [of 3 30 ?b 17 "\<lambda>_. 0" True] by auto
qed

end
