(* ===== verification/Frame.thy ===== *)
theory Frame
  imports Bitmap
begin

unbundle bit_operations_syntax

text \<open>
  The physical frame allocator (\<^verbatim>\<open>mm/frame.cpp\<close>) and the higher-half direct map
  (\<^verbatim>\<open>mm/hhdm.hpp\<close>). The state is the bit map record and the memory that holds its bytes; a set bit is a
  free frame.

  The memory map comes from the boot loader: a list of entries whose \<open>usable\<close> field is the source's
  test \<^verbatim>\<open>region->type == LIMINE_MEMMAP_USABLE\<close>. With no usable entry the source's downward scan leaves
  the array; \<open>get_memory_size\<close> is then \<open>None\<close>.

  The locale \<open>frame_source\<close> is the contract a client of single-frame allocation relies on. It is
  interpreted on \<open>alloc_frames\<close> and \<open>free_frames\<close> at count 1.
\<close>

definition PAGE_SIZE :: u64 where "PAGE_SIZE = 4096"

definition phys_to_virt :: "u64 \<Rightarrow> u64 \<Rightarrow> u64" where
  "phys_to_virt physical_memory_offset phys_addr = phys_addr + physical_memory_offset"

definition virt_to_phys :: "u64 \<Rightarrow> u64 \<Rightarrow> u64" where
  "virt_to_phys physical_memory_offset phys_addr = phys_addr - physical_memory_offset"

record memmap_entry =
  base :: u64
  len :: u64
  usable :: bool

definition get_memory_size :: "memmap_entry list \<Rightarrow> u64 option" where
  "get_memory_size entries =
     (case List.find usable (rev entries) of
        None \<Rightarrow> None
      | Some region \<Rightarrow> Some (base region + len region))"

definition bitmap_home :: "memmap_entry list \<Rightarrow> u64 \<Rightarrow> u64" where
  "bitmap_home entries bitmap_size =
     (case List.find (\<lambda>region. usable region \<and> len region \<ge> bitmap_size) entries of
        None \<Rightarrow> 0
      | Some region \<Rightarrow> base region)"

definition free_region :: "bitmap \<Rightarrow> memmap_entry \<Rightarrow> mem \<Rightarrow> mem" where
  "free_region b region m =
     (if usable region then
        (let start_frame = base region div PAGE_SIZE;
             frame_count = len region div PAGE_SIZE
         in bitmap_set_range m b start_frame (start_frame + frame_count) True)
      else m)"

definition frame_init :: "u64 \<Rightarrow> memmap_entry list \<Rightarrow> mem \<Rightarrow> (bitmap \<times> mem) option" where
  "frame_init off entries m =
     (case get_memory_size entries of
        None \<Rightarrow> None
      | Some memory_size \<Rightarrow>
          (let bitmap_size = (memory_size div PAGE_SIZE + 7) div 8;
               bitmap_address = bitmap_home entries bitmap_size;
               (b, m1) = bitmap_init m (phys_to_virt off bitmap_address) bitmap_size;
               m2 = fold (free_region b) entries m1;
               bitmap_frame_start = bitmap_address div PAGE_SIZE;
               bitmap_frame_count = (bitmap_size + PAGE_SIZE - 1) div PAGE_SIZE;
               bitmap_frame_end = bitmap_frame_start + bitmap_frame_count
           in Some (b, bitmap_set_range m2 b bitmap_frame_start bitmap_frame_end False)))"

text \<open>The call \<^verbatim>\<open>find_range(count, true)\<close> passes its arguments in the other order than the parameters
  \<^verbatim>\<open>(bool value, size_t length)\<close>: the value sought is \<^verbatim>\<open>count != 0\<close> and the length is 1.\<close>

definition alloc_frames :: "bitmap \<Rightarrow> mem \<Rightarrow> u64 \<Rightarrow> u64 \<times> mem" where
  "alloc_frames b m count =
     (let frame_index = bitmap_find_range m b (count \<noteq> 0) 1 in
      if frame_index = - 1 then (0, m)
      else (frame_index * PAGE_SIZE, bitmap_set_range m b frame_index (frame_index + count) False))"

definition free_frames :: "bitmap \<Rightarrow> mem \<Rightarrow> u64 \<Rightarrow> u64 \<Rightarrow> mem" where
  "free_frames b m addr count =
     (let frame_index = addr div PAGE_SIZE
      in bitmap_set_range m b frame_index (frame_index + count) True)"

section \<open>The contract of single-frame allocation\<close>

fun alloc_list :: "('s \<Rightarrow> u64 \<times> 's) \<Rightarrow> nat \<Rightarrow> 's \<Rightarrow> u64 list \<times> 's" where
  "alloc_list alloc 0 s = ([], s)"
| "alloc_list alloc (Suc n) s =
     (let (p, s1) = alloc s; (ps, s2) = alloc_list alloc n s1 in (p # ps, s2))"

definition frame_addr :: "nat \<Rightarrow> u64" where
  "frame_addr i = of_nat (4096 * i)"

locale frame_source =
  fixes alloc :: "'s \<Rightarrow> u64 \<times> 's"
    and release :: "'s \<Rightarrow> u64 \<Rightarrow> 's"
    and avail :: "'s \<Rightarrow> nat set"
    and cap :: "'s \<Rightarrow> nat"
    and inv :: "'s \<Rightarrow> bool"
  assumes inv_alloc: "inv s \<Longrightarrow> inv (snd (alloc s))"
    and cap_alloc: "inv s \<Longrightarrow> cap (snd (alloc s)) = cap s"
    and cap_bound: "inv s \<Longrightarrow> cap s \<le> 2 ^ 52"
    and avail_cap: "inv s \<Longrightarrow> i \<in> avail s \<Longrightarrow> i < cap s"
    and alloc_none: "inv s \<Longrightarrow> avail s = {} \<Longrightarrow> alloc s = (0, s)"
    and alloc_some: "inv s \<Longrightarrow> avail s \<noteq> {} \<Longrightarrow>
      \<exists>i\<in>avail s. fst (alloc s) = frame_addr i \<and> avail (snd (alloc s)) = avail s - {i}"
    and inv_release: "inv s \<Longrightarrow> inv (release s p)"
    and avail_release: "inv s \<Longrightarrow> i < cap s \<Longrightarrow> avail (release s (frame_addr i)) = insert i (avail s)"
begin

lemma frame_addr_inj: "inv s \<Longrightarrow> i < cap s \<Longrightarrow> j < cap s \<Longrightarrow> frame_addr i = frame_addr j \<Longrightarrow> i = j"
proof -
  assume "inv s" "i < cap s" "j < cap s" and eq: "frame_addr i = frame_addr j"
  with cap_bound [of s] have "4096 * i < 2 ^ 64" "4096 * j < 2 ^ 64" by simp_all
  then show "i = j" using eq by (simp only: frame_addr_def of_nat64_eq_iff)
qed

text \<open>As long as enough frames are free, \<open>n\<close> allocations hand out \<open>n\<close> different free frames.\<close>

lemma alloc_list_frames:
  "inv s \<Longrightarrow> finite (avail s) \<Longrightarrow> n \<le> card (avail s) \<Longrightarrow>
   \<exists>is. fst (alloc_list alloc n s) = map frame_addr is \<and> distinct is \<and> length is = n \<and>
      set is \<subseteq> avail s \<and> avail (snd (alloc_list alloc n s)) = avail s - set is"
proof (induction n arbitrary: s)
  case 0
  then show ?case by simp
next
  case (Suc n)
  obtain p s1 where a: "alloc s = (p, s1)" by force
  have "avail s \<noteq> {}" using Suc.prems by auto
  then obtain i where i: "i \<in> avail s" "p = frame_addr i" "avail s1 = avail s - {i}"
    using alloc_some [OF Suc.prems(1)] a by auto
  have "inv s1" using inv_alloc [OF Suc.prems(1)] a by simp
  moreover have "finite (avail s1)" "n \<le> card (avail s1)" using Suc.prems i by simp_all
  ultimately obtain js where js: "fst (alloc_list alloc n s1) = map frame_addr js" "distinct js"
      "length js = n" "set js \<subseteq> avail s1" "avail (snd (alloc_list alloc n s1)) = avail s1 - set js"
    using Suc.IH by blast
  have "fst (alloc_list alloc (Suc n) s) = map frame_addr (i # js)"
    using a js(1) i(2) by (simp add: split_beta)
  moreover have "avail (snd (alloc_list alloc (Suc n) s)) = avail s - set (i # js)"
    using a js(5) i(3) by (auto simp add: split_beta)
  moreover have "distinct (i # js) \<and> length (i # js) = Suc n \<and> set (i # js) \<subseteq> avail s"
    using js(2-4) i by auto
  ultimately show ?case by blast
qed

text \<open>Returning a frame just obtained gives back the set of free frames.\<close>

lemma alloc_release:
  assumes "inv s" "avail s \<noteq> {}"
  shows "avail (release (snd (alloc s)) (fst (alloc s))) = avail s"
proof -
  obtain i where i: "i \<in> avail s" "fst (alloc s) = frame_addr i" "avail (snd (alloc s)) = avail s - {i}"
    using alloc_some [OF assms] by blast
  have "i < cap (snd (alloc s))" using avail_cap [OF assms(1) i(1)] cap_alloc [OF assms(1)] by simp
  from avail_release [OF inv_alloc [OF assms(1)] this] i show ?thesis by auto
qed

end

section \<open>The bit map allocator meets the contract\<close>

definition frame_cap :: "bitmap \<Rightarrow> nat" where
  "frame_cap b = 8 * (unat (bm_size b) div 8)"

definition frames_ok :: "bitmap \<Rightarrow> bool" where
  "frames_ok b \<longleftrightarrow> unat (bm_size b) \<le> 2 ^ 52"

definition free_set :: "bitmap \<Rightarrow> mem \<Rightarrow> nat set" where
  "free_set b m = {i. i < frame_cap b \<and> bm_bit m b i}"

lemma frame_cap_le: "frame_cap b \<le> unat (bm_size b)"
  by (simp add: frame_cap_def)

lemma finite_free_set [simp]: "finite (free_set b m)"
  by (simp add: free_set_def)

lemma set_range_free_set:
  assumes "frames_ok b" "i < frame_cap b" "0 < n" "n < 2 ^ 63"
  shows "bits_set (bitmap_set_range m b (of_nat i) (of_nat i + of_nat n) v) m b i (i + n) v"
proof -
  have i: "i < 2 ^ 52" "i < unat (bm_size b)"
    using assms frame_cap_le [of b] by (auto simp: frames_ok_def)
  have "of_nat i + of_nat n = (of_nat (i + n) :: u64)" by simp
  moreover have "(of_nat i :: u64) < of_nat (i + n)"
    using assms i by (subst of_nat64_less_iff) simp_all
  moreover have "of_nat i < bm_size b" using i by (simp add: word_less_nat_alt)
  ultimately show ?thesis
    using set_range_bits [of "of_nat i" "of_nat (i + n)" b m v] i assms
    by (simp del: of_nat_add)
qed

lemma alloc_frames_cases:
  assumes "frames_ok b" "0 < n" "n < 2 ^ 63"
  shows "(free_set b m = {} \<and> alloc_frames b m (of_nat n) = (0, m)) \<or>
    (\<exists>i\<in>free_set b m. fst (alloc_frames b m (of_nat n)) = frame_addr i \<and>
       bits_set (snd (alloc_frames b m (of_nat n))) m b i (i + n) False)"
proof -
  have nz: "(of_nat n :: u64) \<noteq> 0" using assms by (simp add: of_nat64_eq_0_iff)
  let ?r = "bitmap_find_range m b True 1"
  show ?thesis
  proof (cases "?r = - 1")
    case True
    then have "\<forall>s. s + 1 \<le> frame_cap b \<longrightarrow> \<not> bm_bit m b s"
      using find_range_true_complete [of 1 m b] by (simp add: frame_cap_def)
    then have "free_set b m = {}" by (auto simp: free_set_def)
    with True nz show ?thesis by (simp add: alloc_frames_def Let_def)
  next
    case False
    then have "range_found m b True 1 (frame_cap b) ?r"
      using find_range_sound [of 1 m b True] by (simp add: frame_cap_def)
    then have i: "unat ?r \<in> free_set b m" by (auto simp: range_found_def free_set_def)
    have "?r * PAGE_SIZE = frame_addr (unat ?r)" by (simp add: frame_addr_def PAGE_SIZE_def mult.commute)
    moreover have "bits_set (bitmap_set_range m b ?r (?r + of_nat n) False) m b (unat ?r) (unat ?r + n) False"
      using set_range_free_set [of b "unat ?r" n m False] i assms by (simp add: free_set_def)
    ultimately show ?thesis
      using False nz i by (intro disjI2 bexI [of _ "unat ?r"]) (simp_all add: alloc_frames_def Let_def)
  qed
qed

lemma bits_set_free_set:
  assumes "frames_ok b" "bits_set m' m b i j v"
  shows "free_set b m' = (if v then free_set b m \<union> {k. i \<le> k \<and> k < j \<and> k < frame_cap b}
                          else free_set b m - {k. i \<le> k \<and> k < j})"
proof -
  have "k < 2 ^ 64" if "k < frame_cap b" for k
    using that assms(1) frame_cap_le [of b] by (simp add: frames_ok_def)
  with assms(2) show ?thesis by (auto simp: free_set_def bits_set_def split: if_splits)
qed

lemma free_frames_bits:
  assumes "frames_ok b" "i < frame_cap b" "0 < n" "n < 2 ^ 63"
  shows "bits_set (free_frames b m (frame_addr i) (of_nat n)) m b i (i + n) True"
proof -
  have "i < 2 ^ 52" using assms frame_cap_le [of b] by (simp add: frames_ok_def)
  then have "frame_addr i div PAGE_SIZE = of_nat i"
    by (simp add: word_unat_eq_iff frame_addr_def PAGE_SIZE_def unat_div del: of_nat_mult)
  with set_range_free_set [OF assms, of m True] show ?thesis
    by (simp add: free_frames_def Let_def)
qed

definition alloc1 :: "bitmap \<times> mem \<Rightarrow> u64 \<times> bitmap \<times> mem" where
  "alloc1 s = (let (p, m) = alloc_frames (fst s) (snd s) 1 in (p, fst s, m))"

definition free1 :: "bitmap \<times> mem \<Rightarrow> u64 \<Rightarrow> bitmap \<times> mem" where
  "free1 s p = (fst s, free_frames (fst s) (snd s) p 1)"

interpretation frames: frame_source alloc1 free1 "\<lambda>s. free_set (fst s) (snd s)"
  "\<lambda>s. frame_cap (fst s)" "\<lambda>s. frames_ok (fst s)"
proof (unfold_locales, goal_cases)
  case (1 s) then show ?case by (simp add: alloc1_def split_beta)
next
  case (2 s) then show ?case by (simp add: alloc1_def split_beta)
next
  case (3 s) then show ?case using frame_cap_le [of "fst s"] by (simp add: frames_ok_def)
next
  case (4 s i) then show ?case by (simp add: free_set_def)
next
  case (5 s) then show ?case
    using alloc_frames_cases [of "fst s" 1 "snd s"] by (auto simp: alloc1_def)
next
  case (6 s)
  then obtain i where i: "i \<in> free_set (fst s) (snd s)"
      "fst (alloc_frames (fst s) (snd s) 1) = frame_addr i"
      "bits_set (snd (alloc_frames (fst s) (snd s) 1)) (snd s) (fst s) i (i + 1) False"
    using alloc_frames_cases [of "fst s" 1 "snd s"] by auto
  have "{k. i \<le> k \<and> k < i + 1} = {i}" by auto
  with i bits_set_free_set [OF 6(1) i(3)] show ?case
    by (intro bexI [of _ i]) (simp_all add: alloc1_def split_beta)
next
  case (7 s p) then show ?case by (simp add: free1_def)
next
  case (8 s i)
  have "{k. i \<le> k \<and> k < i + 1 \<and> k < frame_cap (fst s)} = {i}" using 8 by auto
  with 8 bits_set_free_set [OF 8(1) free_frames_bits [OF 8(1,2), of 1 "snd s"]]
  show ?case by (simp add: free1_def insert_is_Un [symmetric] Un_commute)
qed

section \<open>Initialisation\<close>

definition in_usable :: "memmap_entry list \<Rightarrow> nat \<Rightarrow> bool" where
  "in_usable entries i \<longleftrightarrow> (\<exists>e\<in>set entries. usable e \<and>
     unat (base e) div 4096 \<le> i \<and> i < unat (base e) div 4096 + unat (len e) div 4096)"

lemma unat_page_div: "unat (x div PAGE_SIZE) = unat x div 4096"
  by (simp add: PAGE_SIZE_def unat_div)

lemma page_div_less: "unat x div 4096 < 2 ^ 52" for x :: u64
  using unat_less_2p64 [of x] by (simp add: div_less_iff_less_mult)

text \<open>Setting a range of frames, in or out of reach of the map: the effect on the bits the map covers.\<close>

lemma set_frames_bits:
  assumes "i < unat (bm_size b)" "unat s < 2 ^ 52" "unat n < 2 ^ 62"
  shows "bm_bit (bitmap_set_range m b s (s + n) v) b i =
    (if unat s \<le> i \<and> i < unat s + unat n then v else bm_bit m b i)"
proof -
  have sum: "unat (s + n) = unat s + unat n" using assms by (simp add: unat_word_ariths)
  show ?thesis
  proof (cases "s < s + n \<and> s < bm_size b")
    case True
    with set_range_bits [of s "s + n" b m v] assms sum unat_less_2p64 [of "bm_size b"]
    show ?thesis by (simp add: bits_set_def)
  next
    case False
    then have "bitmap_set_range m b s (s + n) v = m"
      by (intro set_range_ignored) auto
    moreover have "\<not> (unat s \<le> i \<and> i < unat s + unat n)"
      using False assms sum by (auto simp: word_less_nat_alt)
    ultimately show ?thesis by auto
  qed
qed

lemma free_region_bits:
  assumes "i < unat (bm_size b)"
  shows "bm_bit (free_region b e m) b i = (bm_bit m b i \<or> in_usable [e] i)"
proof -
  have "unat (len e) div 4096 < 2 ^ 62"
    using page_div_less [of "len e"] by simp
  with set_frames_bits [OF assms, of "base e div PAGE_SIZE" "len e div PAGE_SIZE" m True]
  show ?thesis
    using page_div_less [of "base e"] by (auto simp: free_region_def in_usable_def Let_def unat_page_div)
qed

lemma fold_free_region_bits:
  "i < unat (bm_size b) \<Longrightarrow> bm_bit (fold (free_region b) es m) b i = (bm_bit m b i \<or> in_usable es i)"
  by (induction es arbitrary: m) (auto simp: free_region_bits in_usable_def)

lemma memset_clears:
  assumes "i < 8 * unat n" "8 * unat n < 2 ^ 64"
  shows "\<not> bm_bit (memset m (bm_data b) 0 n) b i"
proof -
  have "i div 8 < unat n" using assms by (simp add: less_mult_imp_div_less mult.commute)
  then have "of_nat (i div 8) < n"
    using unat_less_2p64 [of n] by (simp add: word_less_nat_alt)
  then show ?thesis by (simp add: bm_bit_def memset_eq)
qed

definition bitmap_frames :: "memmap_entry list \<Rightarrow> bitmap \<Rightarrow> nat set" where
  "bitmap_frames entries b =
     {i. unat (bitmap_home entries (bm_size b)) div 4096 \<le> i \<and>
         i < unat (bitmap_home entries (bm_size b)) div 4096 + (unat (bm_size b) + 4095) div 4096}"

lemma frame_init_size:
  assumes "frame_init off entries m = Some (b, m')"
  shows "unat (bm_size b) \<le> 2 ^ 50"
proof -
  from assms obtain ms where "bm_size b = (ms div PAGE_SIZE + 7) div 8"
    by (auto simp: frame_init_def bitmap_init_def Let_def split: option.splits)
  moreover have "unat (ms div PAGE_SIZE + 7) = unat ms div 4096 + 7"
    using page_div_less [of ms] by (simp add: unat_word_ariths(1) unat_page_div)
  ultimately show ?thesis using page_div_less [of ms] by (simp add: unat_div)
qed

text \<open>After \<^verbatim>\<open>init\<close> the free frames are exactly the frames of usable regions that the map covers, less the
  frames the map itself occupies. (The map covers \<open>frame_cap b\<close> frames, an eighth of memory, because the number of
  bytes is passed as its size.)\<close>

lemma frame_init_free:
  assumes init: "frame_init off entries m = Some (b, m')"
  shows "free_set b m' = {i. i < frame_cap b \<and> in_usable entries i} - bitmap_frames entries b"
proof -
  let ?home = "bitmap_home entries (bm_size b)"
  from init obtain m1 where m1: "m1 = memset m (bm_data b) 0 (bm_size b div 8)"
    and m': "m' = bitmap_set_range (fold (free_region b) entries m1) b (?home div PAGE_SIZE)
        (?home div PAGE_SIZE + (bm_size b + PAGE_SIZE - 1) div PAGE_SIZE) False"
    by (auto simp: frame_init_def bitmap_init_def Let_def split: option.splits)
  have sz: "unat (bm_size b) \<le> 2 ^ 50" by (rule frame_init_size [OF init])
  have cnt: "unat (bm_size b + PAGE_SIZE - 1) = unat (bm_size b) + 4095"
    using sz by (simp add: PAGE_SIZE_def unat_word_ariths)
  have "bm_bit m' b i = (in_usable entries i \<and> i \<notin> bitmap_frames entries b)" if i: "i < frame_cap b" for i
  proof -
    have i': "i < unat (bm_size b)" using i frame_cap_le [of b] by simp
    have "\<not> bm_bit m1 b i"
      unfolding m1 using i sz by (intro memset_clears) (simp_all add: frame_cap_def unat_div)
    then have "bm_bit (fold (free_region b) entries m1) b i = in_usable entries i"
      using fold_free_region_bits [OF i'] by simp
    moreover have "(unat (bm_size b) + 4095) div 4096 < 2 ^ 62" using sz by simp
    ultimately show ?thesis
      unfolding m' using page_div_less [of ?home]
      by (subst set_frames_bits [OF i']) (auto simp: unat_page_div cnt bitmap_frames_def)
  qed
  then show ?thesis by (auto simp: free_set_def)
qed

text \<open>A memory map as the boot loader's protocol describes it: usable regions consist of whole pages, none ends above the last one, which ends within
  the direct map, and the bit map fits into one of them.\<close>

definition memmap_ok :: "memmap_entry list \<Rightarrow> bool" where
  "memmap_ok entries \<longleftrightarrow>
     (case get_memory_size entries of
        None \<Rightarrow> False
      | Some ms \<Rightarrow> unat ms \<le> 2 ^ 46 \<and>
          (\<forall>e\<in>set entries. usable e \<longrightarrow> unat (base e) mod 4096 = 0 \<and> unat (len e) mod 4096 = 0 \<and> unat (base e) + unat (len e) \<le> unat ms) \<and>
          (\<exists>e\<in>set entries. usable e \<and> (ms div PAGE_SIZE + 7) div 8 \<le> len e))"

lemma in_usable_less:
  assumes "memmap_ok entries" "in_usable entries i"
  shows "i < 2 ^ 34"
proof -
  obtain ms where m: "get_memory_size entries = Some ms" using assms(1) by (auto simp: memmap_ok_def split: option.splits)
  have ms: "unat ms \<le> 2 ^ 46" "\<And>e. e \<in> set entries \<Longrightarrow> usable e \<Longrightarrow> unat (base e) + unat (len e) \<le> unat ms"
    using assms(1) by (simp_all add: memmap_ok_def m)
  obtain e where e: "e \<in> set entries" "usable e" "i < unat (base e) div 4096 + unat (len e) div 4096"
    using assms(2) by (auto simp: in_usable_def)
  have "unat (base e) div 4096 + unat (len e) div 4096 \<le> (unat (base e) + unat (len e)) div 4096" by linarith
  also have "\<dots> \<le> 2 ^ 46 div 4096" using ms(2) [OF e(1,2)] ms(1) by (intro div_le_mono) linarith
  finally show ?thesis using e(3) by simp
qed

lemma frame_init_parts:
  assumes init: "frame_init off entries m = Some (b, m')" and ok: "memmap_ok entries"
  obtains e where "unat (bm_size b) \<le> 2 ^ 32" "bm_data b = phys_to_virt off (base e)" "bitmap_home entries (bm_size b) = base e" "e \<in> set entries" "usable e"
    "(unat (bm_size b) + 4095) div 4096 \<le> unat (len e) div 4096" "unat (base e) \<le> 2 ^ 46"
    "\<And>e. e \<in> set entries \<Longrightarrow> usable e \<Longrightarrow> unat (base e) mod 4096 = 0 \<and> unat (base e) div 4096 + unat (len e) div 4096 \<le> 8 * unat (bm_size b)"
    "m' = bitmap_set_range (fold (free_region b) entries (memset m (bm_data b) 0 (bm_size b div 8))) b (base e div PAGE_SIZE)
        (base e div PAGE_SIZE + (bm_size b + PAGE_SIZE - 1) div PAGE_SIZE) False"
proof -
  obtain ms where ms: "get_memory_size entries = Some ms" using ok by (auto simp: memmap_ok_def split: option.splits)
  note ok = ok [unfolded memmap_ok_def ms option.case]
  from init ms have b: "bm_size b = (ms div PAGE_SIZE + 7) div 8" "bm_data b = phys_to_virt off (bitmap_home entries (bm_size b))"
    and m': "m' = bitmap_set_range (fold (free_region b) entries (memset m (bm_data b) 0 (bm_size b div 8))) b (bitmap_home entries (bm_size b) div PAGE_SIZE)
        (bitmap_home entries (bm_size b) div PAGE_SIZE + (bm_size b + PAGE_SIZE - 1) div PAGE_SIZE) False"
    by (auto simp: frame_init_def bitmap_init_def Let_def)
  obtain e where e: "List.find (\<lambda>region. usable region \<and> len region \<ge> bm_size b) entries = Some e"
  proof (cases "List.find (\<lambda>region. usable region \<and> len region \<ge> bm_size b) entries")
    case None
    then show ?thesis using ok b(1) by (auto simp: find_None_iff)
  qed (rule that)
  then have e': "e \<in> set entries" "usable e" "bm_size b \<le> len e" by (auto simp: find_Some_iff)
  have home: "bitmap_home entries (bm_size b) = base e" by (simp add: bitmap_home_def e)
  have "unat (ms div PAGE_SIZE + 7) = unat ms div 4096 + 7"
    using page_div_less [of ms] by (simp add: unat_word_ariths(1) unat_page_div)
  then have sz: "unat (bm_size b) = (unat ms div 4096 + 7) div 8" unfolding b(1) by (simp add: unat_div)
  have regions: "unat (base e) mod 4096 = 0 \<and> unat (base e) div 4096 + unat (len e) div 4096 \<le> 8 * unat (bm_size b)"
    if "e \<in> set entries" "usable e" for e
  proof -
    have "unat (base e) mod 4096 = 0" "unat (len e) mod 4096 = 0" "unat (base e) + unat (len e) \<le> unat ms" using ok that by blast+
    moreover from this have "unat (base e) div 4096 + unat (len e) div 4096 \<le> unat ms div 4096"
      using div_le_mono [of "unat (base e) + unat (len e)" "unat ms" 4096] by (simp add: div_plus_div_distrib_dvd_left dvd_eq_mod_eq_0)
    ultimately show ?thesis unfolding sz by linarith
  qed
  have "unat (bm_size b) \<le> unat (len e)" "unat (len e) mod 4096 = 0" "unat (base e) \<le> 2 ^ 46"
    using e' ok by (auto simp: word_le_nat_alt)
  moreover from this have "(unat (bm_size b) + 4095) div 4096 \<le> unat (len e) div 4096" by (auto simp: dvd_eq_mod_eq_0 [symmetric])
  moreover have "unat (bm_size b) \<le> 2 ^ 32"
  proof -
    have "unat ms \<le> 70368744177664" using ok by simp
    then have "(unat ms div 4096 + 7) div 8 \<le> 4294967296" by linarith
    then show ?thesis unfolding sz by simp
  qed
  ultimately show thesis using that [OF _ b(2) [unfolded home] home e'(1,2) _ _ regions m' [unfolded home]] by blast
qed

text \<open>Every byte that starting writes is a byte of the region reserved for the map, although the last bits lie beyond its size.\<close>

lemma set_frames_writes:
  assumes "unat s < 2 ^ 52" "unat n < 2 ^ 52" "unat s + unat n \<le> 8 * unat (bm_size b)" "\<And>j. j < unat (bm_size b) \<Longrightarrow> x \<noteq> bm_data b + of_nat j"
  shows "bitmap_set_range m b s (s + n) v x = m x"
proof (cases "s < s + n \<and> s < bm_size b")
  case True
  have sum: "unat (s + n) = unat s + unat n" using assms(1,2) by (simp add: unat_word_ariths)
  have "x \<noteq> bm_data b + of_nat (i div 8)" if "i < unat (s + n)" for i
    by (rule assms(4)) (use that sum assms(3) in linarith)
  then show ?thesis using True set_range_bits [of s "s + n" b m v] assms(1) by (auto simp: bits_set_def)
next
  case False
  then have "bitmap_set_range m b s (s + n) v = m" by (intro set_range_ignored) auto
  then show ?thesis by simp
qed

lemma fold_kept: "(\<And>e m. e \<in> set es \<Longrightarrow> f e m x = m x) \<Longrightarrow> fold f es m x = m x" for m :: mem
  by (induction es arbitrary: m) simp_all

lemma frame_init_writes:
  assumes init: "frame_init off entries m = Some (b, m')" and ok: "memmap_ok entries"
    and x: "\<And>j. j < unat (bm_size b) \<Longrightarrow> x \<noteq> bm_data b + of_nat j"
  shows "m' x = m x"
proof -
  obtain e where P: "unat (bm_size b) \<le> 2 ^ 32" "bm_data b = phys_to_virt off (base e)" "bitmap_home entries (bm_size b) = base e" "e \<in> set entries" "usable e"
    "(unat (bm_size b) + 4095) div 4096 \<le> unat (len e) div 4096" "unat (base e) \<le> 2 ^ 46"
    "\<And>e. e \<in> set entries \<Longrightarrow> usable e \<Longrightarrow> unat (base e) mod 4096 = 0 \<and> unat (base e) div 4096 + unat (len e) div 4096 \<le> 8 * unat (bm_size b)"
    "m' = bitmap_set_range (fold (free_region b) entries (memset m (bm_data b) 0 (bm_size b div 8))) b (base e div PAGE_SIZE)
        (base e div PAGE_SIZE + (bm_size b + PAGE_SIZE - 1) div PAGE_SIZE) False"
    by (rule frame_init_parts [OF init ok]) (rule that)
  have reg: "free_region b e M x = M x" if "e \<in> set entries" for e M
    using P(8) [OF that] set_frames_writes [of "base e div PAGE_SIZE" "len e div PAGE_SIZE" b x M True] x page_div_less
    by (simp add: free_region_def Let_def unat_page_div)
  have cnt: "unat ((bm_size b + PAGE_SIZE - 1) div PAGE_SIZE) = (unat (bm_size b) + 4095) div 4096"
  proof -
    have "unat (bm_size b + PAGE_SIZE - 1) = unat (bm_size b) + 4095" using P(1) by (simp add: PAGE_SIZE_def unat_word_ariths)
    then show ?thesis by (simp add: unat_page_div)
  qed
  have "m' x = fold (free_region b) entries (memset m (bm_data b) 0 (bm_size b div 8)) x"
    unfolding P(9) using P(6) P(8) [OF P(4,5)] page_div_less [of "base e"] page_div_less [of "len e"]
    by (intro set_frames_writes) (simp_all add: cnt, simp_all add: unat_page_div x)
  also have "\<dots> = memset m (bm_data b) 0 (bm_size b div 8) x" by (rule fold_kept) (rule reg)
  also have "\<dots> = m x"
  proof -
    have "\<not> x - bm_data b < bm_size b div 8"
    proof
      assume "x - bm_data b < bm_size b div 8"
      then have "unat (x - bm_data b) < unat (bm_size b)" by (simp add: word_less_nat_alt unat_div)
      from x [OF this] show False by simp
    qed
    then show ?thesis by (simp add: memset_eq)
  qed
  finally show ?thesis .
qed

section \<open>Properties\<close>

text \<open>C9: while enough frames are free, \<open>n\<close> successive calls \<^verbatim>\<open>alloc_frames(1)\<close> return \<open>n\<close> different free frames,
  and afterwards exactly those are no longer free.\<close>

theorem alloc_frames_distinct:
  assumes "frames_ok b" "n \<le> card (free_set b m)"
  shows "\<exists>is. fst (alloc_list alloc1 n (b, m)) = map frame_addr is \<and> distinct is \<and> length is = n \<and>
    set is \<subseteq> free_set b m \<and>
    free_set (fst (snd (alloc_list alloc1 n (b, m)))) (snd (snd (alloc_list alloc1 n (b, m)))) = free_set b m - set is"
  using frames.alloc_list_frames [of "(b, m)" n] assms by simp

definition demo_bitmap :: bitmap where
  "demo_bitmap = \<lparr>bm_data = 0x1000, bm_size = 8\<rparr>"

lemma demo_free_set: "free_set demo_bitmap (\<lambda>_. w) = set (filter (bit w) [0..<8])"
  by (auto simp: free_set_def frame_cap_def bm_bit_def demo_bitmap_def)

lemma demo_free: "free_set demo_bitmap (\<lambda>_. 3) = {0, 1}" "free_set demo_bitmap (\<lambda>_. 10) = {1, 3}"
  unfolding demo_free_set by (simp_all add: upt_rec bit_numeral_rec numeral_3_eq_3)

theorem alloc_frames_distinct_witness:
  "\<exists>is. fst (alloc_list alloc1 2 (demo_bitmap, \<lambda>_. 3)) = map frame_addr is \<and> distinct is \<and> length is = 2 \<and>
     set is \<subseteq> {0, 1}"
  using alloc_frames_distinct [of demo_bitmap 2 "\<lambda>_. 3", unfolded demo_free]
  by (auto simp: frames_ok_def demo_bitmap_def)

text \<open>a frame obtained with \<^verbatim>\<open>alloc_frames(1)\<close> and given back with \<^verbatim>\<open>free_frames\<close> leaves the set of free
  frames as it was.\<close>

theorem alloc_free_roundtrip:
  assumes "frames_ok b" "free_set b m \<noteq> {}"
  shows "free_set b (free_frames b (snd (alloc_frames b m 1)) (fst (alloc_frames b m 1)) 1) = free_set b m"
  using frames.alloc_release [of "(b, m)"] assms by (simp add: alloc1_def free1_def split_beta)

theorem alloc_free_roundtrip_witness:
  "free_set demo_bitmap (free_frames demo_bitmap (snd (alloc_frames demo_bitmap (\<lambda>_. 3) 1))
      (fst (alloc_frames demo_bitmap (\<lambda>_. 3) 1)) 1) = {0, 1}"
  using alloc_free_roundtrip [of demo_bitmap "\<lambda>_. 3", unfolded demo_free]
  by (simp add: frames_ok_def demo_bitmap_def)

text \<open>C37: \<^verbatim>\<open>alloc_frames(count)\<close> never looks for \<open>count\<close> free frames in a row. When any frame is free it takes
  one and marks the \<open>count\<close> frames from there as used, including frames that were already in use.\<close>

theorem alloc_frames_ignores_count:
  assumes "frames_ok b" "0 < n" "n < 2 ^ 63" "free_set b m \<noteq> {}"
  shows "\<exists>i\<in>free_set b m. fst (alloc_frames b m (of_nat n)) = frame_addr i \<and>
    free_set b (snd (alloc_frames b m (of_nat n))) = free_set b m - {k. i \<le> k \<and> k < i + n}"
  using alloc_frames_cases [OF assms(1-3), of m] assms(4) bits_set_free_set [OF assms(1)] by fastforce

text \<open>With frames 0 and 2 in use and 1 and 3 free, a request for two frames is answered with frame 1, so that the
  caller also holds frame 2, which another caller owns.\<close>

theorem alloc_frames_ignores_count_witness:
  "\<exists>i\<in>free_set demo_bitmap (\<lambda>_. 10). fst (alloc_frames demo_bitmap (\<lambda>_. 10) 2) = frame_addr i \<and>
     i + 1 \<notin> free_set demo_bitmap (\<lambda>_. 10)"
  using alloc_frames_ignores_count [of demo_bitmap 2 "\<lambda>_. 10"] unfolding demo_free
  by (auto simp: frames_ok_def demo_bitmap_def)

end
