(* ===== verification/Heap.thy ===== *)
theory Heap
  imports Allocator Spinlock Frame
begin

unbundle bit_operations_syntax

text \<open>
  The kernel heap: \<^verbatim>\<open>mm/heap/heap.cpp\<close>, the C library interface over one memory pool and one spin lock.

  The state is the pool, memory, the lock and the flags register of the processor. Every operation takes the lock, runs the
  pool function and releases the lock; \<open>locked\<close> is that bracket. \<open>None\<close> is a call that does not return: the lock is held already,
  or a list walk of the pool does not end. The callbacks of the pool are never set.

  \<open>kernel\<close> interprets the contract \<open>allocator\<close> on \<open>malloc\<close> and \<open>free\<close>: callers of the heap get the guarantees of the pool, and
  the lock is free again after every call.
\<close>

record kheap =
  kh_pool :: mpool
  kh_mem :: mem
  kh_lock :: spinlock
  kh_rflags :: u64

definition KERNEL_HEAP_START :: u64 where "KERNEL_HEAP_START = 0xffffc00000000000"
definition KERNEL_HEAP_SIZE :: u64 where "KERNEL_HEAP_SIZE = 8 * 1024 * 1024"

definition get_all_memusage :: u64 where "get_all_memusage = KERNEL_HEAP_SIZE"

definition alloc_enter :: "kheap \<Rightarrow> kheap option" where
  "alloc_enter h =
     map_option (\<lambda>(l, rf). h\<lparr>kh_lock := l, kh_rflags := rf\<rparr>) (spin_lock (kh_lock h, kh_rflags h))"

definition alloc_exit :: "kheap \<Rightarrow> kheap" where
  "alloc_exit h = (let (l, rf) = spin_unlock (kh_lock h, kh_rflags h) in h\<lparr>kh_lock := l, kh_rflags := rf\<rparr>)"

definition locked :: "(pmem \<Rightarrow> ('a \<times> pmem) option) \<Rightarrow> kheap \<Rightarrow> ('a \<times> kheap) option" where
  "locked f h = do {
     h1 \<leftarrow> alloc_enter h;
     (r, pm) \<leftarrow> f (kh_pool h1, kh_mem h1);
     Some (r, alloc_exit (h1\<lparr>kh_pool := fst pm, kh_mem := snd pm\<rparr>)) }"

definition malloc :: "kheap \<Rightarrow> u64 \<Rightarrow> (u64 \<times> kheap) option" where
  "malloc h sz = locked (\<lambda>pm. mpool_alloc pm sz) h"

definition free :: "kheap \<Rightarrow> u64 \<Rightarrow> kheap option" where
  "free h p = map_option snd (locked (\<lambda>pm. Some ((), mpool_free pm p)) h)"

definition xmalloc :: "kheap \<Rightarrow> u64 \<Rightarrow> (u64 \<times> kheap) option" where
  "xmalloc h sz = malloc h sz"

definition calloc :: "kheap \<Rightarrow> u64 \<Rightarrow> u64 \<Rightarrow> (u64 \<times> kheap) option" where
  "calloc h n sz =
     (if unat n * unat sz \<ge> 2 ^ 64 then Some (0, h)
      else do {
        (p, h1) \<leftarrow> malloc h (n * sz);
        if p = 0 then Some (0, h1) else Some (p, h1\<lparr>kh_mem := memset (kh_mem h1) p 0 (n * sz)\<rparr>) })"

definition realloc :: "kheap \<Rightarrow> u64 \<Rightarrow> u64 \<Rightarrow> (u64 \<times> kheap) option" where
  "realloc h p newsize = locked (\<lambda>pm. mpool_realloc pm p newsize) h"

definition reallocarray :: "kheap \<Rightarrow> u64 \<Rightarrow> u64 \<Rightarrow> u64 \<Rightarrow> (u64 \<times> kheap) option" where
  "reallocarray h p n sz = realloc h p (n * sz)"

definition aligned_alloc :: "kheap \<Rightarrow> u64 \<Rightarrow> u64 \<Rightarrow> (u64 \<times> kheap) option" where
  "aligned_alloc h align sz = locked (\<lambda>pm. mpool_aligned_alloc pm sz align) h"

definition malloc_usable_size :: "kheap \<Rightarrow> u64 \<Rightarrow> (u64 \<times> kheap) option" where
  "malloc_usable_size h p = locked (\<lambda>pm. Some (mpool_msize pm p, pm)) h"

definition memalign :: "kheap \<Rightarrow> u64 \<Rightarrow> u64 \<Rightarrow> (u64 \<times> kheap) option" where
  "memalign h align sz = locked (\<lambda>pm. mpool_aligned_alloc pm sz align) h"

definition posix_memalign :: "kheap \<Rightarrow> u64 \<Rightarrow> u64 \<Rightarrow> u64 \<Rightarrow> (u32 \<times> kheap) option" where
  "posix_memalign h memptr alignment sz = do {
     (p, h1) \<leftarrow> locked (\<lambda>pm. mpool_aligned_alloc pm sz alignment) h;
     if p = 0 then Some (1, h1) else Some (0, h1\<lparr>kh_mem := wr64 (kh_mem h1) memptr p\<rparr>) }"

definition valloc :: "kheap \<Rightarrow> u64 \<Rightarrow> (u64 \<times> kheap) option" where
  "valloc h sz = locked (\<lambda>pm. mpool_aligned_alloc pm sz PAGE_SIZE) h"

definition pvalloc :: "kheap \<Rightarrow> u64 \<Rightarrow> (u64 \<times> kheap) option" where
  "pvalloc h sz = locked (\<lambda>pm. mpool_aligned_alloc pm sz PAGE_SIZE) h"

text \<open>An allocation whose result the caller uses without a test. Using a null pointer faults, so a failed one does not return.\<close>

definition new_block :: "kheap \<Rightarrow> u64 \<Rightarrow> (u64 \<times> kheap) option" where
  "new_block h sz = do { (p, h') \<leftarrow> malloc h sz; if p = 0 then None else Some (p, h') }"

lemma locked_eq:
  assumes "\<not> bit (sl_lock (kh_lock h)) 0"
  shows "locked f h = map_option (\<lambda>(r, pm).
     (r, h\<lparr>kh_pool := fst pm, kh_mem := snd pm, kh_lock := (kh_lock h)\<lparr>sl_rflags := kh_rflags h\<rparr>\<rparr>)) (f (kh_pool h, kh_mem h))"
proof -
  obtain l1 where l: "spin_lock (kh_lock h, kh_rflags h) = Some (l1, cli (kh_rflags h))"
    "\<And>rf'. spin_unlock (l1, rf') = ((kh_lock h)\<lparr>sl_rflags := kh_rflags h\<rparr>, kh_rflags h)"
    using spin_lock_unlock [OF assms, of "kh_rflags h"] by (auto simp: spin_unlock_def)
  show ?thesis
    using l by (cases "f (kh_pool h, kh_mem h)"; cases h) (simp_all add: locked_def alloc_enter_def alloc_exit_def split_beta)
qed

section \<open>The kernel heap meets the contract\<close>

definition heap_malloc :: "kheap \<Rightarrow> nat \<Rightarrow> (nat option \<times> kheap) option" where
  "heap_malloc h n = map_option (\<lambda>(p, h'). (if p = 0 then None else Some (unat p), h')) (malloc h (of_nat n))"

definition heap_dealloc :: "kheap \<Rightarrow> nat \<Rightarrow> kheap option" where
  "heap_dealloc h p = free h (of_nat p)"

definition heap_load :: "kheap \<Rightarrow> nat \<Rightarrow> u8" where
  "heap_load h x = kh_mem h (of_nat x)"

definition heap_store :: "kheap \<Rightarrow> nat \<Rightarrow> u8 \<Rightarrow> kheap" where
  "heap_store h x v = h\<lparr>kh_mem := (kh_mem h)(of_nat x := v)\<rparr>"

definition heap_repr :: "kheap \<Rightarrow> (nat \<rightharpoonup> nat) \<Rightarrow> bool" where
  "heap_repr h L \<longleftrightarrow> pool_repr (kh_pool h, kh_mem h) L \<and> \<not> bit (sl_lock (kh_lock h)) 0"

abbreviation over :: "kheap \<Rightarrow> pmem \<Rightarrow> kheap" where
  "over h pm \<equiv> h\<lparr>kh_pool := fst pm, kh_mem := snd pm, kh_lock := (kh_lock h)\<lparr>sl_rflags := kh_rflags h\<rparr>\<rparr>"

text \<open>Each operation of the heap is the operation of the pool, between taking and releasing the lock.\<close>

lemma over_simps:
  "\<not> bit (sl_lock (kh_lock h)) 0 \<Longrightarrow>
     heap_malloc h n = map_option (\<lambda>(r, pm). (r, over h pm)) (pool_malloc (kh_pool h, kh_mem h) n)"
  "\<not> bit (sl_lock (kh_lock h)) 0 \<Longrightarrow> free h p = Some (over h (mpool_free (kh_pool h, kh_mem h) p))"
  "\<not> bit (sl_lock (kh_lock h)) 0 \<Longrightarrow> heap_dealloc h p' = map_option (over h) (pool_dealloc (kh_pool h, kh_mem h) p')"
  "heap_load h x = pool_load (kh_pool h, kh_mem h) x"
  "heap_load (over h pm) x = pool_load pm x"
  "heap_repr (over h pm) L = (pool_repr pm L \<and> \<not> bit (sl_lock (kh_lock h)) 0)"
proof -
  assume u: "\<not> bit (sl_lock (kh_lock h)) 0"
  show "heap_malloc h n = map_option (\<lambda>(r, pm). (r, over h pm)) (pool_malloc (kh_pool h, kh_mem h) n)"
    by (cases "mpool_alloc (kh_pool h, kh_mem h) (of_nat n)")
      (simp_all add: heap_malloc_def malloc_def pool_malloc_def locked_eq [OF u] split_beta)
  show fr: "free h q = Some (over h (mpool_free (kh_pool h, kh_mem h) q))" for q
    by (simp add: free_def locked_eq [OF u])
  show "heap_dealloc h p' = map_option (over h) (pool_dealloc (kh_pool h, kh_mem h) p')"
    by (simp add: heap_dealloc_def fr pool_dealloc_def)
qed (simp_all add: heap_load_def pool_load_def heap_repr_def)

interpretation kernel: allocator heap_malloc heap_dealloc heap_load heap_store heap_repr pool_lim
proof (unfold_locales, goal_cases)
  case (1 s L p i q j) then show ?case using pool.apart unfolding heap_repr_def by blast
next
  case (2 s L n) then show ?case using pool.alloc_returns unfolding heap_repr_def by (fastforce simp: over_simps)
next
  case (3 s L n s') then show ?case
    using pool.alloc_none [of "(kh_pool s, kh_mem s)" L n] by (auto simp: heap_repr_def over_simps)
next
  case (4 s L n p s') then show ?case
    using pool.alloc_some [of "(kh_pool s, kh_mem s)" L n p] by (auto simp: heap_repr_def over_simps)
next
  case (5 s L n r s' x) then show ?case
    using pool.alloc_load [of "(kh_pool s, kh_mem s)" L n r _ x] unfolding heap_repr_def
    by (auto simp: over_simps(1,5)) (simp add: over_simps(4))
next
  case (6 s L p) then show ?case using pool.dealloc_returns [of "(kh_pool s, kh_mem s)" L p] by (auto simp: heap_repr_def over_simps)
next
  case (7 s L p s') then show ?case using pool.dealloc_repr [of "(kh_pool s, kh_mem s)" L p] by (auto simp: heap_repr_def over_simps)
next
  case (8 s L p s' x) then show ?case
    using pool.dealloc_load [of "(kh_pool s, kh_mem s)" L p _ x] unfolding heap_repr_def
    by (auto simp: over_simps(3,5)) (simp add: over_simps(4))
next
  case (9 s L x v) then show ?case
    using pool.store_repr [of "(kh_pool s, kh_mem s)" L x v] by (simp add: heap_repr_def heap_store_def pool_store_def)
next
  case (10 s L x y v) then show ?case
    using pool.store_load [of "(kh_pool s, kh_mem s)" L x y v]
    by (simp add: heap_repr_def heap_store_def pool_store_def heap_load_def pool_load_def)
qed

section \<open>Cleared memory\<close>

lemma memset_fold:
  "n \<le> 2 ^ 64 \<Longrightarrow> fold (\<lambda>x h. heap_store h x 0) [a..<a + n] h =
     h\<lparr>kh_mem := (\<lambda>x. if unat (x - of_nat a) < n then 0 else kh_mem h x)\<rparr>"
proof (induction n)
  case (Suc n)
  have "x = of_nat (a + n) \<longleftrightarrow> unat (x - of_nat a) = n" for x :: u64
  proof -
    have "x = of_nat (a + n) \<longleftrightarrow> x - of_nat a = of_nat n" by (auto simp: algebra_simps)
    moreover have "unat (of_nat n :: u64) = n" by (rule unat_of_nat64) (use Suc.prems in simp)
    ultimately show ?thesis by (simp only: word_unat_eq_iff)
  qed
  then have "(\<lambda>x. if unat (x - of_nat a) < n then 0 else kh_mem h x)(of_nat (a + n) := 0) =
      (\<lambda>x. if unat (x - of_nat a) < Suc n then 0 else kh_mem h x)" by (fastforce simp: less_Suc_eq)
  with Suc show ?case by (simp add: heap_store_def)
qed simp

lemma live_below: "heap_repr h L \<Longrightarrow> in_live L x \<Longrightarrow> x < 2 ^ 64"
  unfolding heap_repr_def pool_repr_def using live_blk_bounds by blast

section \<open>Properties\<close>

text \<open>C26: \<open>calloc\<close> of a representable size returns null or a new block, of at least that size, all of whose bytes are zero; no byte of
  a block allocated before changes.\<close>

theorem calloc_zeroes:
  assumes r: "heap_repr h L" and n: "unat n * unat sz < pool_lim"
  shows "\<exists>p h'. calloc h n sz = Some (p, h') \<and>
    (p = 0 \<longrightarrow> heap_repr h' L) \<and>
    (p \<noteq> 0 \<longrightarrow> unat p \<notin> dom L \<and> (\<exists>k \<ge> unat n * unat sz. heap_repr h' (L(unat p \<mapsto> k))) \<and>
       (\<forall>i < unat n * unat sz. heap_load h' (unat p + i) = 0)) \<and>
    (\<forall>x. in_live L x \<longrightarrow> heap_load h' x = heap_load h x)"
proof -
  let ?N = "unat n * unat sz"
  have N: "?N < 2 ^ 64" and w: "n * sz = of_nat ?N" using n by (simp_all add: pool_lim_def)
  have uN: "unat (n * sz) = ?N" unfolding w using N by (rule unat_of_nat64)
  obtain r h1 where m: "heap_malloc h ?N = Some (r, h1)" using kernel.alloc_returns [OF r n] by blast
  then obtain p where p: "malloc h (n * sz) = Some (p, h1)" "r = (if p = 0 then None else Some (unat p))"
    unfolding heap_malloc_def w [symmetric] by auto
  have ld: "heap_load h1 x = heap_load h x" if "in_live L x" for x
    using kernel.alloc_load [OF r n m that] .
  show ?thesis
  proof (cases "p = 0")
    case True
    then have "calloc h n sz = Some (0, h1)" using p N by (simp add: calloc_def)
    moreover have "heap_repr h1 L" using kernel.alloc_none [OF r n] m p(2) True by simp
    ultimately show ?thesis using ld by auto
  next
    case False
    then have sm: "heap_malloc h ?N = Some (Some (unat p), h1)" using m p(2) by simp
    then obtain k where k: "unat p \<notin> dom L" "?N \<le> k" "heap_repr h1 (L(unat p \<mapsto> k))"
      using kernel.alloc_some [OF r n] by blast
    let ?xs = "[unat p..<unat p + ?N]"
    let ?h = "fold (\<lambda>x h. heap_store h x 0) ?xs h1"
    have e: "?h = h1\<lparr>kh_mem := memset (kh_mem h1) p 0 (n * sz)\<rparr>"
      by (simp only: memset_eq word_less_nat_alt uN memset_fold [OF less_imp_le [OF N]] ucast_0 of_nat_unat ucast_id)
    have F: "heap_repr ?h (L(unat p \<mapsto> k)) \<and> (\<forall>y. in_live (L(unat p \<mapsto> k)) y \<longrightarrow>
        heap_load ?h y = (if y \<in> set ?xs then 0 else heap_load h1 y))"
      by (rule kernel.fill_live [OF k(3)]) (use k(2) in \<open>auto simp: in_live_def\<close>)
    have old: "heap_load ?h x = heap_load h x" if x: "in_live L x" for x
    proof -
      obtain q j where q: "L q = Some j" "q \<le> x" "x < q + j" using x by (auto simp: in_live_def)
      then have "unat p + k \<le> q \<or> q + j \<le> unat p"
        using kernel.apart [OF k(3), of "unat p" k q j] k(1) by (cases "q = unat p") auto
      then have "x \<notin> set ?xs" using q k(2) by auto
      moreover have "(L(unat p \<mapsto> k)) q = Some j" using q(1) k(1) by auto
      then have lv: "in_live (L(unat p \<mapsto> k)) x" using q(2,3) unfolding in_live_def by blast
      ultimately show ?thesis using F [THEN conjunct2, rule_format, OF lv] ld [OF x] by (simp only: if_False)
    qed
    have "heap_load ?h (unat p + i) = 0" if "i < ?N" for i
    proof -
      have "in_live (L(unat p \<mapsto> k)) (unat p + i)" using that k(2) by (auto simp: in_live_def)
      then show ?thesis using F that by simp
    qed
    moreover have "calloc h n sz = Some (p, ?h)" using p N False e by (simp add: calloc_def)
    ultimately show ?thesis using False k F old by auto
  qed
qed

text \<open>Of the two array allocators only \<open>calloc\<close> notices that the size of the array does not fit a \<^verbatim>\<open>size_t\<close>: it returns null and
  leaves the heap alone, where \<open>reallocarray\<close> allocates for the product modulo \<open>2 ^ 64\<close>.\<close>

theorem array_size_overflow:
  assumes "2 ^ 64 \<le> unat n * unat sz"
  shows "calloc h n sz = Some (0, h) \<and>
    reallocarray h 0 n sz = malloc h (of_nat (unat n * unat sz mod 2 ^ 64))"
proof -
  have "n * sz = of_nat (unat n * unat sz mod 2 ^ 64)"
    by (simp add: word_unat_eq_iff unat_word_ariths unat_of_nat)
  then show ?thesis using assms by (simp add: calloc_def reallocarray_def realloc_def malloc_def mpool_realloc_def)
qed

lemma fresh_heap:
  obtains h where "heap_repr h Map.empty" "\<not> bit (sl_lock (kh_lock h)) 0" "kh_lock h = SPIN_INIT" "kh_rflags h = 0x202"
proof -
  obtain pl m where I: "mpool_init (Some blank_pool) heap_start heap_size (\<lambda>_. 0) = (True, Some pl, m)"
    by (rule mpool_init_region [OF heap_region, of blank_pool "\<lambda>_. 0"]) blast
  let ?h = "\<lparr>kh_pool = pl, kh_mem = m, kh_lock = SPIN_INIT, kh_rflags = 0x202\<rparr>"
  have "sizes Map.empty = Map.empty" by (auto simp: sizes_def)
  then have "pool_repr (pl, m) Map.empty"
    using mpool_init_simulates [OF heap_region I] by (simp add: simulates_def)
  then show ?thesis by (intro that [of ?h]) (simp_all add: heap_repr_def SPIN_INIT_def)
qed

theorem calloc_zeroes_witness: "\<exists>h p h'. calloc h 10 4 = Some (p, h')"
proof -
  obtain h where "heap_repr h Map.empty" by (rule fresh_heap) blast
  from calloc_zeroes [OF this, of 10 4] show ?thesis by (auto simp: pool_lim_def)
qed

definition demo_heap :: kheap where
  "demo_heap = \<lparr>kh_pool = blank_pool, kh_mem = (\<lambda>_. 0), kh_lock = SPIN_INIT, kh_rflags = 0x202\<rparr>"

theorem array_size_overflow_witness:
  "calloc demo_heap 0x1000000000000000 16 = Some (0, demo_heap) \<and>
   reallocarray demo_heap 0 0x1000000000000000 16 = malloc demo_heap 0"
  using array_size_overflow [of "0x1000000000000000" 16 demo_heap] by simp

end
