(* ===== verification/PageTable.thy ===== *)
theory PageTable
  imports Heap
begin

unbundle bit_operations_syntax

text \<open>
  Four-level page tables (\<^verbatim>\<open>arch/x86_64/table.cpp\<close>).

  A table is a page of 512 words in physical memory, reached through the direct map at offset \<open>off\<close>
  (\<^verbatim>\<open>hhdm::physical_memory_offset\<close>, a parameter). The state is the frame bit map together with memory. The
  object \<^verbatim>\<open>page_table\<close> is the physical address of its root; the \<open>user\<close> field is stored and never read. The
  \<^verbatim>\<open>invlpg\<close> instruction has no effect on this state, and the value of \<^verbatim>\<open>cr3\<close> is an argument.

  The recursive copy and release take the level as a natural number. A context (\<open>mm_context\<close>) is a structure of two words in
  memory: the root at offset 0 and the reference count at offset 8.

  The second half relates the tables to a tree: \<open>T\<close> maps a path of table indices to the frame of the table it
  leads to.
\<close>

type_synonym fmem = "bitmap \<times> mem"

record page_table =
  pt_phys_addr :: u64
  pt_user :: bool

definition pte_present :: u64 where "pte_present = 1"
definition pte_read_write :: u64 where "pte_read_write = 2"
definition pte_user :: u64 where "pte_user = 4"
definition pte_no_executable :: u64 where "pte_no_executable = push_bit 63 1"

definition page_table_clear :: "mem \<Rightarrow> u64 \<Rightarrow> mem" where
  "page_table_clear m table = for_loop 0 512 (\<lambda>i m. wr64 m (table + i * 8) 0) m"

definition frame_one :: "fmem \<Rightarrow> u64 \<times> fmem" where
  "frame_one s = (let (p, m) = alloc_frames (fst s) (snd s) 1 in (p, fst s, m))"

definition unframe_one :: "fmem \<Rightarrow> u64 \<Rightarrow> fmem" where
  "unframe_one s addr = (fst s, free_frames (fst s) (snd s) addr 1)"

definition page_table_create :: "u64 \<Rightarrow> fmem \<Rightarrow> u64 \<Rightarrow> u64 \<times> fmem" where
  "page_table_create off s entry =
     (if rd64 (snd s) entry = 0 then
        let (frame, b, m1) = frame_one s;
            m2 = wr64 m1 entry (frame OR pte_present OR pte_read_write OR pte_user);
            table = phys_to_virt off (rd64 m2 entry AND NOT off AND NOT (PAGE_SIZE - 1))
        in (table, b, page_table_clear m2 table)
      else (phys_to_virt off (rd64 (snd s) entry AND NOT off AND NOT (PAGE_SIZE - 1)), s))"

definition l4_index :: "u64 \<Rightarrow> u64" where "l4_index va = drop_bit 39 va AND 0x1FF"
definition l3_index :: "u64 \<Rightarrow> u64" where "l3_index va = drop_bit 30 va AND 0x1FF"
definition l2_index :: "u64 \<Rightarrow> u64" where "l2_index va = drop_bit 21 va AND 0x1FF"
definition l1_index :: "u64 \<Rightarrow> u64" where "l1_index va = drop_bit 12 va AND 0x1FF"

text \<open>The generic flags: \<open>present\<close> 1, \<open>read_write\<close> 2, \<open>user\<close> 4, \<open>executable\<close> 8.\<close>

definition arch_flags_of :: "u32 \<Rightarrow> u64" where
  "arch_flags_of flags =
     (if flags AND 1 \<noteq> 0 then pte_present else 0) OR
     (if flags AND 2 \<noteq> 0 then pte_read_write else 0) OR
     (if flags AND 4 \<noteq> 0 then pte_user else 0) OR
     (if flags AND 8 = 0 then pte_no_executable else 0)"

definition page_table_map :: "u64 \<Rightarrow> page_table \<Rightarrow> fmem \<Rightarrow> u64 \<Rightarrow> u64 \<Rightarrow> u32 \<Rightarrow> fmem" where
  "page_table_map off pt s virt_addr phys_addr flags =
     (let l4_table = phys_to_virt off (pt_phys_addr pt);
          (l3_table, s3) = page_table_create off s (l4_table + l4_index virt_addr * 8);
          (l2_table, s2) = page_table_create off s3 (l3_table + l3_index virt_addr * 8);
          (l1_table, s1) = page_table_create off s2 (l2_table + l2_index virt_addr * 8)
      in (fst s1, wr64 (snd s1) (l1_table + l1_index virt_addr * 8)
            ((phys_addr AND NOT off AND NOT (PAGE_SIZE - 1)) OR arch_flags_of flags)))"

definition page_table_map_range :: "u64 \<Rightarrow> page_table \<Rightarrow> fmem \<Rightarrow> u64 \<Rightarrow> u64 \<Rightarrow> u64 \<Rightarrow> u32 \<Rightarrow> fmem" where
  "page_table_map_range off pt s virt_addr phys_addr count flags =
     for_loop 0 count (\<lambda>i s.
       if phys_addr = 0 then
         let (frame, s') = frame_one s in page_table_map off pt s' (virt_addr + i * PAGE_SIZE) frame flags
       else page_table_map off pt s (virt_addr + i * PAGE_SIZE) (phys_addr + i * PAGE_SIZE) flags) s"

definition next_table :: "u64 \<Rightarrow> mem \<Rightarrow> u64 \<Rightarrow> u64 \<Rightarrow> u64" where
  "next_table off m table index = phys_to_virt off (rd64 m (table + index * 8) AND 0x000fffffffff000)"

text \<open>The entry is set to zero before its value is used as the frame to free.\<close>

definition unmap_entry :: "u64 \<Rightarrow> fmem \<Rightarrow> u64 \<Rightarrow> fmem" where
  "unmap_entry off s entry =
     (let m1 = wr64 (snd s) entry 0
      in unframe_one (fst s, m1) (rd64 m1 entry AND NOT off AND NOT (PAGE_SIZE - 1)))"

definition page_table_unmap :: "u64 \<Rightarrow> page_table \<Rightarrow> fmem \<Rightarrow> u64 \<Rightarrow> fmem" where
  "page_table_unmap off pt s virt_addr =
     (let l4_table = phys_to_virt off (pt_phys_addr pt);
          l3_table = next_table off (snd s) l4_table (l4_index virt_addr);
          l2_table = next_table off (snd s) l3_table (l3_index virt_addr);
          l1_table = next_table off (snd s) l2_table (l2_index virt_addr);
          s1 = unmap_entry off s (l4_table + l4_index virt_addr * 8);
          s2 = unmap_entry off s1 (l3_table + l3_index virt_addr * 8);
          s3 = unmap_entry off s2 (l2_table + l2_index virt_addr * 8)
      in unmap_entry off s3 (l1_table + l1_index virt_addr * 8))"

definition page_table_unmap_range :: "u64 \<Rightarrow> page_table \<Rightarrow> fmem \<Rightarrow> u64 \<Rightarrow> u64 \<Rightarrow> fmem" where
  "page_table_unmap_range off pt s virt_addr count =
     for_loop 0 count (\<lambda>i s. page_table_unmap off pt s (virt_addr + i * PAGE_SIZE)) s"

definition from_current :: "u64 \<Rightarrow> bool \<Rightarrow> page_table" where
  "from_current cr3 user = \<lparr>pt_phys_addr = cr3, pt_user = user\<rparr>"

definition translate_addr :: "u64 \<Rightarrow> page_table \<Rightarrow> mem \<Rightarrow> u64 \<Rightarrow> u64" where
  "translate_addr off pt m virt_addr =
     (let l4_table = phys_to_virt off (pt_phys_addr pt);
          l3_table = next_table off m l4_table (l4_index virt_addr);
          l2_table = next_table off m l3_table (l3_index virt_addr);
          l1_table = next_table off m l2_table (l2_index virt_addr)
      in rd64 m (l1_table + l1_index virt_addr * 8) AND NOT off AND NOT (PAGE_SIZE - 1))"

section \<open>Copy and release of whole trees\<close>

primrec copy_page_table_recursive :: "nat \<Rightarrow> u64 \<Rightarrow> fmem \<Rightarrow> u64 \<Rightarrow> bool \<Rightarrow> bool \<Rightarrow> u64 \<times> fmem" where
  "copy_page_table_recursive 0 off s source_table all_copy kernel_space =
     (if source_table = 0 then (0, s)
      else if kernel_space then (source_table, s)
      else
        let (frame, b, m) = frame_one s;
            new_page_table = phys_to_virt off frame
        in (new_page_table, b, memcpy m new_page_table (phys_to_virt off source_table) PAGE_SIZE))"
| "copy_page_table_recursive (Suc level) off s source_table all_copy kernel_space =
     (if source_table = 0 then (0, s)
      else
        let (phy_frame, s1) = frame_one s;
            new_table = phys_to_virt off phy_frame;
            src = phys_to_virt off source_table;
            n = (if all_copy then 512 else if Suc level = 4 then 256 else 512)
        in (new_table,
            for_loop 0 n (\<lambda>i (b, m).
              if rd64 m (src + i * 8) \<noteq> 0 then (b, wr64 m (new_table + i * 8) (rd64 m (src + i * 8)))
              else
                let source_next = rd64 m (src + i * 8) AND 0x00007ffffffff000;
                    (new_next, b', m') = copy_page_table_recursive level off (b, m) source_next all_copy
                        (if Suc level \<noteq> 4 then kernel_space else i \<ge> 256)
                in (b', wr64 m' (new_table + i * 8)
                     (virt_to_phys off new_next OR (rd64 m' (src + i * 8) AND 0xFFFF000000000FFF)))) s1))"

primrec free_page_table_recursive :: "nat \<Rightarrow> u64 \<Rightarrow> fmem \<Rightarrow> u64 \<Rightarrow> fmem" where
  "free_page_table_recursive 0 off s table =
     (if table = phys_to_virt off 0 then s else unframe_one s (virt_to_phys off table))"
| "free_page_table_recursive (Suc level) off s table =
     (if table = phys_to_virt off 0 then s
      else
        let s1 = for_loop 0 (if Suc level = 4 then 256 else 512)
              (\<lambda>i s. free_page_table_recursive level off s
                 (phys_to_virt off (rd64 (snd s) (table + i * 8) AND 0x00007ffffffff000))) s
        in unframe_one s1 (virt_to_phys off table))"

text \<open>\<open>clone_page_table\<close> allocates the new context on the kernel heap; a null result faults in \<open>memset\<close>. \<^verbatim>\<open>CLONE_VM\<close> is
  \<open>0x100\<close>. The lock \<^verbatim>\<open>clone_lock\<close> is taken and released within the function and left out here: on one processor at a time it has no
  other effect.\<close>

definition clone_page_table :: "u64 \<Rightarrow> bitmap \<times> kheap \<Rightarrow> u64 \<Rightarrow> u64 \<Rightarrow> (u64 \<times> bitmap \<times> kheap) option" where
  "clone_page_table off st old flags =
     (let (b, h) = st in
      if flags AND 0x100 \<noteq> 0 then
        Some (old, b, h\<lparr>kh_mem := wr64 (kh_mem h) (old + 8) (rd64 (kh_mem h) (old + 8) + 1)\<rparr>)
      else
        map_option (\<lambda>(new_mm, h1).
          let m2 = memset (kh_mem h1) new_mm 0 16;
              (root, b3, m3) = copy_page_table_recursive 4 off (b, m2) (rd64 m2 old) (flags AND 0x100 \<noteq> 0) False;
              m4 = wr64 m3 new_mm (virt_to_phys off root);
              m5 = memcpy m4 (phys_to_virt off (rd64 m4 new_mm) + 256 * 8) (phys_to_virt off (rd64 m4 old) + 256 * 8)
                     (PAGE_SIZE div 2);
              m6 = wr64 m5 (new_mm + 8) (rd64 m5 (new_mm + 8) + 1)
          in (new_mm, b3, h1\<lparr>kh_mem := m6\<rparr>))
        (new_block h 16))"

definition free_page_table :: "u64 \<Rightarrow> fmem \<Rightarrow> u64 \<Rightarrow> fmem" where
  "free_page_table off s directory =
     (if rd64 (snd s) (directory + 8) = 1
      then free_page_table_recursive 4 off s (phys_to_virt off (rd64 (snd s) directory))
      else (fst s, wr64 (snd s) (directory + 8) (rd64 (snd s) (directory + 8) - 1)))"

section \<open>Physical pages through the direct map\<close>

text \<open>From here the direct map starts at the usual base of the upper half. \<open>pcell f j\<close> is the cell of word \<open>j\<close> of frame
  \<open>f\<close>, and \<open>page_no x\<close> the frame that the virtual address \<open>x\<close> belongs to.\<close>

definition hhdm_base :: u64 where "hhdm_base = 0xffff800000000000"

definition pcell :: "nat \<Rightarrow> nat \<Rightarrow> nat" where
  "pcell f j = 0x1ffff00000000000 + 512 * f + j"

definition ent :: "mem \<Rightarrow> nat \<Rightarrow> nat \<Rightarrow> u64" where
  "ent m f j = cells m (pcell f j)"

definition page_no :: "u64 \<Rightarrow> nat" where
  "page_no x = unat (x - hhdm_base) div 4096"

lemma pcell_bound: "f < 2 ^ 35 \<Longrightarrow> j < 512 \<Longrightarrow> pcell f j < 2 ^ 61"
  by (simp add: pcell_def)

lemma pcell_eq_iff: "i < 512 \<Longrightarrow> j < 512 \<Longrightarrow> pcell f i = pcell g j \<longleftrightarrow> f = g \<and> i = j"
proof -
  assume ij: "i < 512" "j < 512"
  have d: "k < 512 \<Longrightarrow> (512 * h + k) div 512 = h" for h k :: nat by simp
  have "f = g" if "512 * f + i = 512 * g + j" using d [OF ij(1), of f] d [OF ij(2), of g] that by metis
  then show ?thesis by (auto simp: pcell_def)
qed

lemma pcell_offset: "adr (pcell f j) - hhdm_base = of_nat (4096 * f + 8 * j)"
proof -
  have "hhdm_base = adr 0x1ffff00000000000" by (simp add: hhdm_base_def adr_def)
  then have "adr (pcell f j) - hhdm_base = adr (512 * f + j)"
    using adr_diff [of "0x1ffff00000000000" "pcell f j"] by (simp add: pcell_def add.assoc)
  also have "\<dots> = of_nat (4096 * f + 8 * j)" by (simp add: adr_def)
  finally show ?thesis .
qed

lemma page_no_pcell:
  assumes "f < 2 ^ 35" "j < 512" "k < 8"
  shows "page_no (adr (pcell f j) + of_nat k) = f"
proof -
  have "adr (pcell f j) + of_nat k - hhdm_base = of_nat (4096 * f + 8 * j + k)"
    using pcell_offset [of f j] by (simp add: algebra_simps)
  moreover have "4096 * f + 8 * j + k < 2 ^ 64" using assms by simp
  ultimately have "unat (adr (pcell f j) + of_nat k - hhdm_base) = 4096 * f + 8 * j + k" by (simp del: of_nat_add)
  moreover have "(4096 * f + 8 * j + k) div 4096 = f" using assms by (intro div_nat_eqI) simp_all
  ultimately show ?thesis by (simp add: page_no_def)
qed

lemma table_entry_addr: "phys_to_virt hhdm_base (frame_addr f) + of_nat i * 8 = adr (pcell f i)"
  by (simp add: phys_to_virt_def hhdm_base_def frame_addr_def adr_def pcell_def)

lemma table_addr: "phys_to_virt hhdm_base (frame_addr f) = adr (pcell f 0)"
  using table_entry_addr [of f 0] by simp

text \<open>Only bytes of the frames in \<open>F\<close> change.\<close>

definition pages_chg :: "nat set \<Rightarrow> mem \<Rightarrow> mem \<Rightarrow> bool" where
  "pages_chg F m m' \<longleftrightarrow> (\<forall>x. page_no x \<notin> F \<longrightarrow> m' x = m x)"

lemma pages_chg_trans: "pages_chg F m m1 \<Longrightarrow> pages_chg G m1 m2 \<Longrightarrow> pages_chg (F \<union> G) m m2"
  by (simp add: pages_chg_def)

lemma pages_chg_grow:
  assumes "pages_chg (K \<union> ran T1) m m1" "pages_chg (K \<union> ran T2) m1 m2" "\<And>q g. T1 q = Some g \<Longrightarrow> T2 q = Some g"
  shows "pages_chg (K \<union> ran T2) m m2"
proof -
  have "ran T1 \<subseteq> ran T2" using assms(3) by (fastforce simp: ran_def)
  then show ?thesis using assms(1,2) unfolding pages_chg_def by (metis Un_iff subsetD)
qed

lemma pages_chg_ent: "pages_chg F m m' \<Longrightarrow> f \<notin> F \<Longrightarrow> f < 2 ^ 35 \<Longrightarrow> j < 512 \<Longrightarrow> ent m' f j = ent m f j"
  unfolding ent_def using pcell_bound [of f j] page_no_pcell [of f j]
  by (simp add: rd64_adr [symmetric]) (intro rd64_cong, simp add: pages_chg_def)

lemma wr_page:
  assumes "f < 2 ^ 35" "j < 512"
  shows "pages_chg {f} m (wr64 m (adr (pcell f j)) v)"
  unfolding pages_chg_def
proof (intro allI impI)
  fix x assume x: "page_no x \<notin> {f}"
  have "8 \<le> x - adr (pcell f j)"
  proof (rule ccontr)
    assume "\<not> 8 \<le> x - adr (pcell f j)"
    then have k: "unat (x - adr (pcell f j)) < 8" by (simp add: word_le_nat_alt)
    have "x = adr (pcell f j) + of_nat (unat (x - adr (pcell f j)))" by simp
    with page_no_pcell [OF assms k] x show False by simp
  qed
  then show "wr64 m (adr (pcell f j)) v x = m x" by (rule wr64_other)
qed

lemma wr_ent:
  assumes "f < 2 ^ 35" "j < 512" "i < 512"
  shows "ent (wr64 m (adr (pcell f j)) v) g i = (if g = f \<and> i = j then v else ent m g i)"
  using assms(2,3) pcell_eq_iff [of i j g f] cells_wr64_adr [OF pcell_bound [OF assms(1,2)], of m v]
  by (simp add: ent_def)

lemma clear_table:
  assumes g: "g < 2 ^ 35"
  shows "pages_chg {g} m (page_table_clear m (adr (pcell g 0))) \<and>
    (\<forall>j<512. ent (page_table_clear m (adr (pcell g 0))) g j = 0)"
proof -
  let ?I = "\<lambda>k m'. pages_chg {g} m m' \<and> (\<forall>j<k. j < 512 \<longrightarrow> ent m' g j = 0)"
  have "?I (unat (512 :: u64)) (page_table_clear m (adr (pcell g 0)))"
    unfolding page_table_clear_def
  proof (rule for_loop_inv [where I = ?I])
    fix k m' assume k: "unat (0 :: u64) \<le> k" "k < unat (512 :: u64)" and I: "?I k m'"
    have a: "adr (pcell g 0) + of_nat k * 8 = adr (pcell g k)" by (simp add: adr_def pcell_def)
    show "?I (Suc k) (wr64 m' (adr (pcell g 0) + of_nat k * 8) 0)"
      unfolding a using k(2) I g wr_page [of g k m' 0] pages_chg_trans [of "{g}" m m' "{g}"]
      by (auto simp: wr_ent less_Suc_eq)
  qed (simp_all add: pages_chg_def)
  then show ?thesis by simp
qed

text \<open>Entries as the code writes and reads them: a frame address with low flag bits.\<close>

lemma bit_frame_addr: "bit (frame_addr g) n = (12 \<le> n \<and> n < 64 \<and> bit g (n - 12))"
proof -
  have "frame_addr g = push_bit 12 (of_nat g)" by (simp add: frame_addr_def push_bit_eq_mult)
  then show ?thesis by (auto simp: bit_push_bit_iff bit_of_nat_iff)
qed

lemma bit_nat_less: "g < 2 ^ k \<Longrightarrow> bit (g :: nat) n \<Longrightarrow> n < k"
  using bit_take_bit_iff [of k g n] by (simp add: take_bit_nat_eq_self)

lemma mask_words: "(0x000fffffffff000 :: u64) = push_bit 12 (mask 36)" "hhdm_base = push_bit 47 (mask 17)"
  "NOT (PAGE_SIZE - 1) = NOT (mask 12)" "(7 :: u64) = mask 3"
  by (simp_all add: hhdm_base_def PAGE_SIZE_def mask_eq_exp_minus_1 push_bit_eq_mult)

lemma entry_frame:
  assumes "g < 2 ^ 35"
  shows "(frame_addr g OR 7) AND NOT hhdm_base AND NOT (PAGE_SIZE - 1) = frame_addr g"
    "(frame_addr g OR 7) AND 0x000fffffffff000 = frame_addr g" "frame_addr g OR 7 \<noteq> 0"
proof -
  have n: "\<not> bit g (n - 12)" if "47 \<le> n" for n using bit_nat_less [OF assms, of "n - 12"] that by auto
  show "(frame_addr g OR 7) AND NOT hhdm_base AND NOT (PAGE_SIZE - 1) = frame_addr g"
    unfolding mask_words
    by (rule bit_word_eqI) (use n in \<open>auto simp: bit_and_iff bit_or_iff bit_not_iff bit_frame_addr bit_mask_iff bit_push_bit_iff not_less\<close>)
  show "(frame_addr g OR 7) AND 0x000fffffffff000 = frame_addr g"
    unfolding mask_words
  proof (rule bit_word_eqI)
    fix i assume "i < LENGTH(64)"
    then show "bit ((frame_addr g OR mask 3) AND push_bit 12 (mask 36)) i = bit (frame_addr g) i"
      using n [of i] by (cases "i < 47") (auto simp: bit_and_iff bit_or_iff bit_frame_addr bit_mask_iff bit_push_bit_iff)
  qed
  have "bit (frame_addr g OR 7) 0" unfolding mask_words by (simp add: bit_or_iff bit_mask_iff)
  then show "frame_addr g OR 7 \<noteq> 0" by auto
qed

section \<open>The tree of tables\<close>

text \<open>\<open>map_frames b\<close>: the frames that hold the bit map itself. \<open>tree_ok b m T\<close>: the table at path \<open>p\<close> is in frame
  \<open>T p\<close>; different paths have different frames, none of them free or part of the bit map; an entry of an inner table is
  zero, or holds the frame of the next table with the flags the code gives to tables.

  \<open>tree_on S b m T\<close> says this of the part of the address space below the top-level entries in \<open>S\<close>, and nothing of the other
  entries of the root: they may lead to tables of any shape. \<open>tree_ok\<close> is the case of all entries.\<close>

definition map_frames :: "bitmap \<Rightarrow> nat set" where
  "map_frames b = {page_no (bm_data b + of_nat (i div 8)) |i. i < frame_cap b}"

definition tree_on :: "nat set \<Rightarrow> bitmap \<Rightarrow> mem \<Rightarrow> (nat list \<rightharpoonup> nat) \<Rightarrow> bool" where
  "tree_on S b m T \<longleftrightarrow> inj_on T (dom T) \<and> (\<forall>p i. T p = None \<longrightarrow> T (p @ [i]) = None) \<and>
     (\<forall>p f. T p = Some f \<longrightarrow> f < 2 ^ 35 \<and> f \<notin> free_set b m \<and> f \<notin> map_frames b) \<and>
     (\<forall>p f i. T p = Some f \<longrightarrow> length p < 3 \<longrightarrow> i < 512 \<longrightarrow> (p = [] \<longrightarrow> i \<in> S) \<longrightarrow>
        ent m f i = (case T (p @ [i]) of None \<Rightarrow> 0 | Some g \<Rightarrow> frame_addr g OR 7)) \<and>
     (\<forall>i. T [i] \<noteq> None \<longrightarrow> i \<in> S)"

abbreviation tree_ok :: "bitmap \<Rightarrow> mem \<Rightarrow> (nat list \<rightharpoonup> nat) \<Rightarrow> bool" where
  "tree_ok \<equiv> tree_on UNIV"

definition frames_apart :: "bitmap \<Rightarrow> mem \<Rightarrow> bool" where
  "frames_apart b m \<longleftrightarrow> frames_ok b \<and> frame_cap b \<le> 2 ^ 35 \<and> free_set b m \<inter> map_frames b = {}"

lemma tree_frame: "tree_on S b m T \<Longrightarrow> T p = Some f \<Longrightarrow> f < 2 ^ 35 \<and> f \<notin> free_set b m \<and> f \<notin> map_frames b"
  by (simp add: tree_on_def)

lemma tree_ent:
  "tree_on S b m T \<Longrightarrow> T p = Some f \<Longrightarrow> length p < 3 \<Longrightarrow> i < 512 \<Longrightarrow> (p = [] \<Longrightarrow> i \<in> S) \<Longrightarrow>
   ent m f i = (case T (p @ [i]) of None \<Rightarrow> 0 | Some g \<Rightarrow> frame_addr g OR 7)"
  by (simp add: tree_on_def)

lemma tree_inj: "tree_on S b m T \<Longrightarrow> T p = Some f \<Longrightarrow> T q = Some f \<Longrightarrow> p = q"
  unfolding tree_on_def by (metis domI inj_onD)

lemma tree_down: "tree_on S b m T \<Longrightarrow> T p = None \<Longrightarrow> T (p @ [i]) = None"
  by (simp add: tree_on_def)

lemma tree_slot: "tree_on S b m T \<Longrightarrow> T (p @ [i]) = Some g \<Longrightarrow> p = [] \<Longrightarrow> i \<in> S"
  by (auto simp: tree_on_def)

lemma tree_cong:
  assumes "tree_on S b m T" "\<And>p f i. T p = Some f \<Longrightarrow> length p < 3 \<Longrightarrow> i < 512 \<Longrightarrow> ent m' f i = ent m f i"
    "free_set b m' = free_set b m"
  shows "tree_on S b m' T"
  using assms by (simp add: tree_on_def)

lemma pages_chg_free:
  assumes "pages_chg F m m'" "F \<inter> map_frames b = {}"
  shows "free_set b m' = free_set b m"
proof -
  have "m' (bm_data b + of_nat (i div 8)) = m (bm_data b + of_nat (i div 8))" if "i < frame_cap b" for i
  proof -
    have "page_no (bm_data b + of_nat (i div 8)) \<in> map_frames b" using that by (auto simp: map_frames_def)
    with assms show ?thesis by (auto simp: pages_chg_def)
  qed
  then show ?thesis by (auto simp: free_set_def bm_bit_def)
qed

text \<open>Taking frames changes bytes of the bit map only, as long as the frames that are marked lie in the map.\<close>

lemma take_frames:
  assumes "frames_apart b m" "free_set b m \<noteq> {}" "0 < n" "\<And>i. i \<in> free_set b m \<Longrightarrow> i + n \<le> frame_cap b"
  obtains f m' where "alloc_frames b m (of_nat n) = (frame_addr f, m')" "f \<in> free_set b m" "f < 2 ^ 35"
    "free_set b m' = free_set b m - {f..<f + n}" "pages_chg (map_frames b) m m'"
proof -
  have ok: "frames_ok b" "frame_cap b \<le> 2 ^ 35" using assms(1) by (simp_all add: frames_apart_def)
  have n: "n < 2 ^ 63" using assms(2,4) ok(2) by fastforce
  obtain f where f: "f \<in> free_set b m" "fst (alloc_frames b m (of_nat n)) = frame_addr f"
    "bits_set (snd (alloc_frames b m (of_nat n))) m b f (f + n) False"
    using alloc_frames_cases [OF ok(1) assms(3) n, of m] assms(2) by auto
  let ?m = "snd (alloc_frames b m (of_nat n))"
  have cap: "f + n \<le> frame_cap b" by (rule assms(4) [OF f(1)])
  have "?m x = m x" if "page_no x \<notin> map_frames b" for x
  proof -
    have "x \<noteq> bm_data b + of_nat (i div 8)" if "f \<le> i \<and> i < f + n" for i
      using that cap \<open>page_no x \<notin> map_frames b\<close> by (auto simp: map_frames_def)
    then show ?thesis using f(3) by (auto simp: bits_set_def)
  qed
  then have "pages_chg (map_frames b) m ?m" by (simp add: pages_chg_def)
  moreover have "{k. f \<le> k \<and> k < f + n} = {f..<f + n}" by auto
  then have "free_set b ?m = free_set b m - {f..<f + n}" using bits_set_free_set [OF ok(1) f(3)] by simp
  moreover have "f < 2 ^ 35" using cap ok(2) assms(3) by simp
  ultimately show ?thesis using that [of f ?m] f(1,2) by (metis prod.collapse)
qed

lemma frame_one_pages:
  assumes "frames_apart b m" "free_set b m \<noteq> {}"
  obtains f m' where "frame_one (b, m) = (frame_addr f, b, m')" "f \<in> free_set b m" "f < 2 ^ 35"
    "free_set b m' = free_set b m - {f}" "pages_chg (map_frames b) m m'"
proof -
  have cap: "i + 1 \<le> frame_cap b" if "i \<in> free_set b m" for i using that by (simp add: free_set_def)
  obtain f m' where f: "alloc_frames b m (of_nat 1) = (frame_addr f, m')" "f \<in> free_set b m" "f < 2 ^ 35"
    "free_set b m' = free_set b m - {f..<f + 1}" "pages_chg (map_frames b) m m'"
    by (rule take_frames [OF assms _ cap]) auto
  have "{f..<f + 1} = {f}" by auto
  then show ?thesis using f by (intro that [of f m']) (simp_all add: frame_one_def)
qed

text \<open>Following or creating a child table.\<close>

lemma create_st:
  assumes tr: "tree_on S b m T" and ap: "frames_apart b m" and p: "T p = Some f" "length p < 3" and i: "i < 512"
    and sl: "p = [] \<Longrightarrow> i \<in> S" and free: "free_set b m \<noteq> {}"
  obtains g m' where "page_table_create hhdm_base (b, m) (adr (pcell f i)) = (adr (pcell g 0), b, m')"
    "tree_on S b m' (T(p @ [i] \<mapsto> g))" "frames_apart b m'" "card (free_set b m) \<le> Suc (card (free_set b m'))"
    "\<And>q h j. T q = Some h \<Longrightarrow> length q = 3 \<Longrightarrow> j < 512 \<Longrightarrow> ent m' h j = ent m h j"
    "T (p @ [i]) = None \<or> T (p @ [i]) = Some g" "free_set b m' \<subseteq> free_set b m" "T (p @ [i]) = Some g \<or> g \<in> free_set b m"
    "pages_chg (map_frames b \<union> ran (T(p @ [i] \<mapsto> g))) m m'"
    "\<And>h j. T [] = Some h \<Longrightarrow> j < 512 \<Longrightarrow> j \<notin> S \<Longrightarrow> ent m' h j = ent m h j"
proof -
  have f: "f < 2 ^ 35" "f \<notin> free_set b m" "f \<notin> map_frames b" using tree_frame [OF tr p(1)] by auto
  have rd: "rd64 M (adr (pcell f i)) = ent M f i" for M
    using pcell_bound [OF f(1) i] by (simp add: ent_def rd64_adr)
  show ?thesis
  proof (cases "T (p @ [i])")
    case (Some g)
    then have e: "ent m f i = frame_addr g OR 7" using tree_ent [OF tr p i sl] by simp
    have g: "g < 2 ^ 35" using tree_frame [OF tr Some] by simp
    have "page_table_create hhdm_base (b, m) (adr (pcell f i)) = (adr (pcell g 0), b, m)"
      using entry_frame [OF g] table_addr [of g] by (simp add: page_table_create_def rd e)
    moreover have "T(p @ [i] \<mapsto> g) = T" using Some by (simp add: fun_upd_idem)
    moreover have "pages_chg (map_frames b \<union> ran (T(p @ [i] \<mapsto> g))) m m" by (simp add: pages_chg_def)
    ultimately show ?thesis using that [of g m] tr ap Some by simp
  next
    case None
    then have e: "ent m f i = 0" using tree_ent [OF tr p i sl] by simp
    obtain g m1 where F: "frame_one (b, m) = (frame_addr g, b, m1)" "g \<in> free_set b m" "g < 2 ^ 35"
      "free_set b m1 = free_set b m - {g}" "pages_chg (map_frames b) m m1"
      by (rule frame_one_pages [OF ap free])
    define m2 where "m2 = wr64 m1 (adr (pcell f i)) (frame_addr g OR 7)"
    define m3 where "m3 = page_table_clear m2 (adr (pcell g 0))"
    have gm: "g \<notin> map_frames b" using F(2) ap by (auto simp: frames_apart_def)
    have gf: "g \<noteq> f" using F(2) f(2) by auto
    have or7: "frame_addr g OR pte_present OR pte_read_write OR pte_user = frame_addr g OR 7"
      by (simp add: pte_present_def pte_read_write_def pte_user_def or.assoc)
    have eq: "page_table_create hhdm_base (b, m) (adr (pcell f i)) = (adr (pcell g 0), b, m3)"
      using entry_frame [OF F(3)] table_addr [of g]
      by (simp add: page_table_create_def rd e F(1) or7 m2_def [symmetric] Let_def)
        (simp add: m2_def m3_def wr_ent [OF f(1) i i])
    note m2 = wr_page [OF f(1) i, of m1 "frame_addr g OR 7", folded m2_def]
    note cl = clear_table [OF F(3), of m2, folded m3_def]
    have ch: "pages_chg (map_frames b \<union> {f} \<union> {g}) m m3"
      using pages_chg_trans [OF pages_chg_trans [OF F(5) m2]] cl by blast
    have "pages_chg ({f} \<union> {g}) m1 m3" using pages_chg_trans [OF m2] cl by blast
    then have fr: "free_set b m3 = free_set b m - {g}"
      using pages_chg_free [of "{f} \<union> {g}" m1 m3 b] f(3) gm F(4) by simp
    have other: "ent m3 h j = ent m h j" if "T q = Some h" "j < 512" "h \<noteq> f" for q h j
    proof -
      have h: "h < 2 ^ 35" "h \<notin> free_set b m" "h \<notin> map_frames b" using tree_frame [OF tr that(1)] by auto
      then have "h \<notin> map_frames b \<union> {f} \<union> {g}" using F(2) that(3) by auto
      then show ?thesis using pages_chg_ent [OF ch _ h(1) that(2)] by blast
    qed
    have entf: "ent m3 f j = (if j = i then frame_addr g OR 7 else ent m f j)" if "j < 512" for j
      using pages_chg_ent [of "{g}" m2 m3 f j] cl gf f(1) that wr_ent [OF f(1) i that, of m1 "frame_addr g OR 7" f]
        pages_chg_ent [OF F(5) f(3,1) that] by (simp add: m2_def)
    have inj: "T q = Some h \<Longrightarrow> h \<noteq> g" for q h using tree_frame [OF tr] F(2) by blast
    have tr3: "tree_on S b m3 (T(p @ [i] \<mapsto> g))"
      unfolding tree_on_def
    proof (intro conjI allI impI)
      show "inj_on (T(p @ [i] \<mapsto> g)) (dom (T(p @ [i] \<mapsto> g)))"
        using tree_inj [OF tr] inj by (auto simp: inj_on_def split: if_splits) metis+
      show "(T(p @ [i] \<mapsto> g)) (q @ [j]) = None" if "(T(p @ [i] \<mapsto> g)) q = None" for q j
        using that p(1) tr by (auto simp: tree_on_def split: if_splits)
      show "h < 2 ^ 35" "h \<notin> free_set b m3" "h \<notin> map_frames b" if "(T(p @ [i] \<mapsto> g)) q = Some h" for q h
        using that tree_frame [OF tr, of q h] F(2,3) fr gm by (auto split: if_splits)
      show "ent m3 h j = (case (T(p @ [i] \<mapsto> g)) (q @ [j]) of None \<Rightarrow> 0 | Some g' \<Rightarrow> frame_addr g' OR 7)"
        if q: "(T(p @ [i] \<mapsto> g)) q = Some h" and l: "length q < 3" and j: "j < 512" and js: "q = [] \<longrightarrow> j \<in> S" for q h j
      proof (cases "q = p @ [i]")
        case True
        then have "(T(p @ [i] \<mapsto> g)) (q @ [j]) = None" using tree_down [OF tr None, of j] by simp
        with True q cl j show ?thesis by simp
      next
        case False
        then have Tq: "T q = Some h" using q by simp
        show ?thesis
        proof (cases "h = f")
          case True
          then have "q = p" using tree_inj [OF tr Tq] p(1) by simp
          then show ?thesis using True entf [OF j] tree_ent [OF tr p j] js by auto
        next
          case hf: False
          then have "q \<noteq> p" using Tq p(1) by auto
          then show ?thesis using other [OF Tq j hf] tree_ent [OF tr Tq l j] js by simp
        qed
      qed
      show "j \<in> S" if "(T(p @ [i] \<mapsto> g)) [j] \<noteq> None" for j
        using that sl tr by (auto simp: tree_on_def split: if_splits)
    qed
    have ap3: "frames_apart b m3" using ap fr by (auto simp: frames_apart_def)
    have cd: "card (free_set b m) \<le> Suc (card (free_set b m3))" unfolding fr using F(2) by (simp add: card_Diff_singleton)
    have lv: "ent m3 h j = ent m h j" if "T q = Some h" "length q = 3" "j < 512" for q h j
    proof -
      have "h \<noteq> f" using tree_inj [OF tr that(1)] p that(2) by fastforce
      then show ?thesis by (rule other [OF that(1,3)])
    qed
    have rt: "ent m3 h j = ent m h j" if "T [] = Some h" "j < 512" "j \<notin> S" for h j
    proof (cases "h = f")
      case True
      then have "p = []" using tree_inj [OF tr that(1)] p(1) by blast
      then show ?thesis using True entf [OF that(2)] sl that(3) by auto
    qed (rule other [OF that(1,2)])
    have "f \<in> ran (T(p @ [i] \<mapsto> g))" "g \<in> ran (T(p @ [i] \<mapsto> g))" using p(1) ranI [of "T(p @ [i] \<mapsto> g)" p f] ranI [of "T(p @ [i] \<mapsto> g)" "p @ [i]" g] by auto
    then have tabs: "pages_chg (map_frames b \<union> ran (T(p @ [i] \<mapsto> g))) m m3" using ch by (auto simp: pages_chg_def)
    show ?thesis by (rule that [OF eq tr3 ap3 cd lv _ _ _ tabs rt]) (use F(2) in \<open>auto simp: None fr\<close>)
  qed
qed

section \<open>Mapping and translation\<close>

text \<open>The path of table indices of an address, and the index in the last table.\<close>

definition path :: "u64 \<Rightarrow> nat list" where
  "path va = [unat (l4_index va), unat (l3_index va), unat (l2_index va)]"

definition leaf :: "u64 \<Rightarrow> nat" where
  "leaf va = unat (l1_index va)"

lemma and_1ff_less: "unat (w AND (0x1FF :: u64)) < 512"
proof -
  have "(0x1FF :: u64) = mask 9" by (simp add: mask_eq_exp_minus_1)
  then have "w AND (0x1FF :: u64) = take_bit 9 w" by (simp add: take_bit_eq_mask)
  then show ?thesis using take_bit_nat_less_exp [of 9 "unat w"] by (simp add: unsigned_take_bit_eq)
qed

lemma index_less: "unat (l4_index va) < 512" "unat (l3_index va) < 512" "unat (l2_index va) < 512" "leaf va < 512"
  by (simp_all only: l4_index_def l3_index_def l2_index_def l1_index_def leaf_def and_1ff_less)

lemma entry_at: "adr (pcell f 0) + idx * 8 = adr (pcell f (unat idx))"
proof -
  have "idx = of_nat (unat idx)" by simp
  then have "idx * 8 = adr (unat idx)" by (metis adr_def of_nat_mult of_nat_numeral mult.commute)
  then show ?thesis by (simp add: pcell_def)
qed

lemma next_table_tree:
  assumes "tree_on S b m T" "T p = Some f" "length p < 3" "unat idx < 512" "T (p @ [unat idx]) = Some g"
  shows "next_table hhdm_base m (adr (pcell f 0)) idx = adr (pcell g 0)"
proof -
  have f: "f < 2 ^ 35" and g: "g < 2 ^ 35" using tree_frame [OF assms(1)] assms(2,5) by auto
  have "rd64 m (adr (pcell f (unat idx))) = ent m f (unat idx)"
    using pcell_bound [OF f assms(4)] by (simp add: ent_def rd64_adr)
  then show ?thesis
    using tree_ent [OF assms(1-4)] tree_slot [OF assms(1,5)] assms(5) entry_frame [OF g] table_addr [of g]
    by (simp add: next_table_def entry_at)
qed

lemma tree_up: "tree_on S b m T \<Longrightarrow> T (p @ [i]) = Some g \<Longrightarrow> \<exists>f. T p = Some f"
  unfolding tree_on_def by (metis not_Some_eq)

lemma translate_tree:
  assumes tr: "tree_on S b m T" and r: "T [] = Some r" "pt_phys_addr pt = frame_addr r" and h: "T (path va) = Some h"
  shows "translate_addr hhdm_base pt m va = ent m h (leaf va) AND NOT hhdm_base AND NOT (PAGE_SIZE - 1)"
proof -
  let ?i4 = "unat (l4_index va)" and ?i3 = "unat (l3_index va)" and ?i2 = "unat (l2_index va)"
  have h': "T ([?i4, ?i3] @ [?i2]) = Some h" using h by (simp add: path_def)
  obtain g2 where g2: "T ([?i4] @ [?i3]) = Some g2" using tree_up [OF tr h'] by auto
  obtain g3 where g3: "T ([] @ [?i4]) = Some g3" using tree_up [OF tr g2] by auto
  have g3': "T [?i4] = Some g3" and g2': "T [?i4, ?i3] = Some g2" using g3 g2 by simp_all
  have "rd64 m (adr (pcell h (leaf va))) = ent m h (leaf va)"
    using pcell_bound [of h "leaf va"] tree_frame [OF tr h] index_less by (simp add: ent_def rd64_adr)
  then show ?thesis
    using next_table_tree [OF tr r(1) _ index_less(1) g3] next_table_tree [OF tr g3' _ _ g2]
      next_table_tree [OF tr g2' _ _ h'] index_less
    by (simp add: translate_addr_def r(2) table_addr entry_at leaf_def)
qed

lemma map_st:
  assumes tr: "tree_on S b m T" and ap: "frames_apart b m" and r: "T [] = Some r" "pt_phys_addr pt = frame_addr r"
    and sl: "unat (l4_index va) \<in> S" and free: "3 \<le> card (free_set b m)"
  obtains m' T' h where "page_table_map hhdm_base pt (b, m) va pa flags = (b, m')" "tree_on S b m' T'" "frames_apart b m'"
    "T' [] = Some r"
    "T' (path va) = Some h" "\<And>q g. T q = Some g \<Longrightarrow> T' q = Some g"
    "ent m' h (leaf va) = (pa AND NOT hhdm_base AND NOT (PAGE_SIZE - 1)) OR arch_flags_of flags"
    "\<And>q g j. T q = Some g \<Longrightarrow> length q = 3 \<Longrightarrow> j < 512 \<Longrightarrow> (q, j) \<noteq> (path va, leaf va) \<Longrightarrow> ent m' g j = ent m g j"
    "free_set b m' \<subseteq> free_set b m" "card (free_set b m) \<le> card (free_set b m') + 3"
    "\<And>q g. T' q = Some g \<Longrightarrow> T q = Some g \<or> g \<in> free_set b m"
    "pages_chg (map_frames b \<union> ran T') m m'" "\<And>j. j < 512 \<Longrightarrow> j \<notin> S \<Longrightarrow> ent m' r j = ent m r j"
proof -
  let ?i4 = "unat (l4_index va)" and ?i3 = "unat (l3_index va)" and ?i2 = "unat (l2_index va)"
  have ne: "free_set b M \<noteq> {}" if "1 \<le> card (free_set b M)" for M using that by auto
  obtain g3 m3 where A: "page_table_create hhdm_base (b, m) (adr (pcell r ?i4)) = (adr (pcell g3 0), b, m3)"
    "tree_on S b m3 (T([] @ [?i4] \<mapsto> g3))" "frames_apart b m3" "card (free_set b m) \<le> Suc (card (free_set b m3))"
    "\<And>q h j. T q = Some h \<Longrightarrow> length q = 3 \<Longrightarrow> j < 512 \<Longrightarrow> ent m3 h j = ent m h j"
    "T ([] @ [?i4]) = None \<or> T ([] @ [?i4]) = Some g3" "free_set b m3 \<subseteq> free_set b m"
    "T ([] @ [?i4]) = Some g3 \<or> g3 \<in> free_set b m" "pages_chg (map_frames b \<union> ran (T([] @ [?i4] \<mapsto> g3))) m m3"
    "\<And>h j. T [] = Some h \<Longrightarrow> j < 512 \<Longrightarrow> j \<notin> S \<Longrightarrow> ent m3 h j = ent m h j"
    by (rule create_st [OF tr ap r(1) _ index_less(1) sl ne]) (use free in auto)
  let ?T3 = "T([] @ [?i4] \<mapsto> g3)"
  obtain g2 m2 where B: "page_table_create hhdm_base (b, m3) (adr (pcell g3 ?i3)) = (adr (pcell g2 0), b, m2)"
    "tree_on S b m2 (?T3([?i4] @ [?i3] \<mapsto> g2))" "frames_apart b m2" "card (free_set b m3) \<le> Suc (card (free_set b m2))"
    "\<And>q h j. ?T3 q = Some h \<Longrightarrow> length q = 3 \<Longrightarrow> j < 512 \<Longrightarrow> ent m2 h j = ent m3 h j"
    "?T3 ([?i4] @ [?i3]) = None \<or> ?T3 ([?i4] @ [?i3]) = Some g2" "free_set b m2 \<subseteq> free_set b m3"
    "?T3 ([?i4] @ [?i3]) = Some g2 \<or> g2 \<in> free_set b m3" "pages_chg (map_frames b \<union> ran (?T3([?i4] @ [?i3] \<mapsto> g2))) m3 m2"
    "\<And>h j. ?T3 [] = Some h \<Longrightarrow> j < 512 \<Longrightarrow> j \<notin> S \<Longrightarrow> ent m2 h j = ent m3 h j"
    by (rule create_st [OF A(2,3), of "[?i4]" g3, OF _ _ index_less(2) _ ne]) (use free A(4) in auto)
  let ?T2 = "?T3([?i4] @ [?i3] \<mapsto> g2)"
  obtain g1 m1 where C: "page_table_create hhdm_base (b, m2) (adr (pcell g2 ?i2)) = (adr (pcell g1 0), b, m1)"
    "tree_on S b m1 (?T2([?i4, ?i3] @ [?i2] \<mapsto> g1))" "frames_apart b m1" "card (free_set b m2) \<le> Suc (card (free_set b m1))"
    "\<And>q h j. ?T2 q = Some h \<Longrightarrow> length q = 3 \<Longrightarrow> j < 512 \<Longrightarrow> ent m1 h j = ent m2 h j"
    "?T2 ([?i4, ?i3] @ [?i2]) = None \<or> ?T2 ([?i4, ?i3] @ [?i2]) = Some g1" "free_set b m1 \<subseteq> free_set b m2"
    "?T2 ([?i4, ?i3] @ [?i2]) = Some g1 \<or> g1 \<in> free_set b m2" "pages_chg (map_frames b \<union> ran (?T2([?i4, ?i3] @ [?i2] \<mapsto> g1))) m2 m1"
    "\<And>h j. ?T2 [] = Some h \<Longrightarrow> j < 512 \<Longrightarrow> j \<notin> S \<Longrightarrow> ent m1 h j = ent m2 h j"
    by (rule create_st [OF B(2,3), of "[?i4, ?i3]" g2, OF _ _ index_less(3) _ ne]) (use free A(4) B(4) in auto)
  let ?T1 = "?T2([?i4, ?i3] @ [?i2] \<mapsto> g1)"
  define v where "v = (pa AND NOT hhdm_base AND NOT (PAGE_SIZE - 1)) OR arch_flags_of flags"
  define m' where "m' = wr64 m1 (adr (pcell g1 (leaf va))) v"
  have T1: "?T1 (path va) = Some g1" by (simp add: path_def)
  have g1: "g1 < 2 ^ 35" "g1 \<notin> map_frames b" using tree_frame [OF C(2) T1] by auto
  note wr = wr_ent [OF g1(1) index_less(4), folded m'_def]
  have eq: "page_table_map hhdm_base pt (b, m) va pa flags = (b, m')"
    using A(1) B(1) C(1) by (simp add: page_table_map_def r(2) table_addr entry_at leaf_def m'_def v_def)
  have fr: "free_set b m' = free_set b m1"
    using pages_chg_free [OF wr_page [OF g1(1) index_less(4), of m1 va v]] g1(2) by (simp add: m'_def)
  have lf: "ent m' f i = ent m1 f i" if "?T1 p = Some f" "length p < 3" "i < 512" for p f i
  proof -
    have "f \<noteq> g1" using tree_inj [OF C(2) that(1)] T1 that(2) by (fastforce simp: path_def)
    then show ?thesis using wr that(3) by (simp add: m'_def wr_ent [OF g1(1) index_less(4)])
  qed
  have tr': "tree_on S b m' ?T1" by (rule tree_cong [OF C(2) lf fr])
  have keep: "?T1 q = Some g" if "T q = Some g" for q g using that A(6) B(6) C(6) by (auto split: if_splits)
  have T2: "?T2 q = Some g" if "T q = Some g" for q g using that A(6) B(6) by (auto split: if_splits)
  have T3: "?T3 q = Some g" if "T q = Some g" for q g using that A(6) by (auto split: if_splits)
  have tabs: "pages_chg (map_frames b \<union> ran ?T1) m m'"
  proof -
    have B': "?T2 q = Some g" if "?T3 q = Some g" for q g using that B(6) by (auto split: if_splits)
    have C': "?T1 q = Some g" if "?T2 q = Some g" for q g using that C(6) by (auto split: if_splits)
    have "pages_chg (map_frames b \<union> ran ?T1) m m1"
      by (rule pages_chg_grow [OF pages_chg_grow [OF A(9) B(9) B'] C(9) C'])
    moreover have "g1 \<in> ran ?T1" by (rule ranI) (rule T1)
    ultimately show ?thesis using wr_page [OF g1(1) index_less(4), of m1 va v, folded m'_def] by (auto simp: pages_chg_def)
  qed
  have rt: "ent m' r j = ent m r j" if j: "j < 512" "j \<notin> S" for j
  proof -
    have "r \<noteq> g1" using tree_inj [OF C(2) keep [OF r(1)], of "path va"] T1 by (auto simp: path_def)
    then have "ent m' r j = ent m1 r j" using j(1) by (simp add: m'_def wr_ent [OF g1(1) index_less(4)])
    then show ?thesis using A(10) [OF r(1) j] B(10) [OF T3 [OF r(1)] j] C(10) [OF T2 [OF r(1)] j] by simp
  qed
  have "ent m' g j = ent m g j" if q: "T q = Some g" "length q = 3" "j < 512" "(q, j) \<noteq> (path va, leaf va)" for q g j
  proof -
    have "q = path va" if "g = g1" using tree_inj [OF C(2) keep [OF q(1)]] T1 that by metis
    then have "\<not> (g = g1 \<and> j = leaf va)" using q(4) by auto
    then have "ent m' g j = ent m1 g j" using q(3) by (auto simp: m'_def wr_ent [OF g1(1) index_less(4)])
    then show ?thesis using A(5) [OF q(1-3)] B(5) [OF T3 [OF q(1)] q(2,3)] C(5) [OF T2 [OF q(1)] q(2,3)] by simp
  qed
  moreover have "ent m' g1 (leaf va) = v" by (simp add: m'_def wr_ent [OF g1(1) index_less(4,4)])
  moreover have "frames_apart b m'" using C(3) fr by (simp add: frames_apart_def)
  moreover have "T q = Some g \<or> g \<in> free_set b m" if "?T1 q = Some g" for q g
    using that A(7,8) B(7,8) C(7,8) by (fastforce split: if_splits)
  moreover have "free_set b m' \<subseteq> free_set b m" "card (free_set b m) \<le> card (free_set b m') + 3"
    using A(4,7) B(4,7) C(4,7) fr by auto
  ultimately show ?thesis using that [OF eq tr' _ _ T1 keep _ _ _ _ _ tabs rt] r(1) by (simp add: v_def)
qed

lemma pte_powers: "pte_present = 2 ^ 0" "pte_read_write = 2 ^ 1" "pte_user = 2 ^ 2" "pte_no_executable = 2 ^ 63"
  by (simp_all add: pte_present_def pte_read_write_def pte_user_def pte_no_executable_def push_bit_eq_mult)

lemma bit_arch_flags: "bit (arch_flags_of flags) n \<Longrightarrow> n < 3 \<or> n = 63"
proof -
  have "bit pte_present n = (n = 0)" "bit pte_read_write n = (n = 1)" "bit pte_user n = (n = 2)"
    "bit pte_no_executable n = (n = 63)" unfolding pte_powers by (rule bit_exp64, simp)+
  then show "bit (arch_flags_of flags) n \<Longrightarrow> n < 3 \<or> n = 63"
    by (auto simp: arch_flags_of_def bit_or_iff split: if_splits)
qed

lemma entry_address:
  "((pa AND NOT hhdm_base AND NOT (PAGE_SIZE - 1)) OR arch_flags_of flags) AND NOT hhdm_base AND NOT (PAGE_SIZE - 1) =
   pa AND NOT hhdm_base AND NOT (PAGE_SIZE - 1)"
proof (rule bit_word_eqI)
  fix n assume n: "n < LENGTH(64)"
  have "\<not> bit (arch_flags_of flags) n" if "bit (NOT hhdm_base) n" "bit (NOT (mask 12 :: u64)) n"
  proof
    assume "bit (arch_flags_of flags) n"
    then have "n < 3 \<or> n = 63" by (rule bit_arch_flags)
    with that show False unfolding mask_words(2) by (auto simp: bit_not_iff bit_mask_iff bit_push_bit_iff)
  qed
  then show "bit (((pa AND NOT hhdm_base AND NOT (PAGE_SIZE - 1)) OR arch_flags_of flags) AND NOT hhdm_base AND NOT (PAGE_SIZE - 1)) n
      = bit (pa AND NOT hhdm_base AND NOT (PAGE_SIZE - 1)) n"
    unfolding mask_words(3) by (auto simp: bit_and_iff bit_or_iff)
qed

section \<open>Unmapping and copying\<close>

lemma unmap_entry_st:
  assumes ok: "frames_ok b" "0 < frame_cap b" and f: "f < 2 ^ 35" "f \<notin> map_frames b" "i < 512"
  obtains m' where "unmap_entry hhdm_base (b, m) (adr (pcell f i)) = (b, m')" "free_set b m' = insert 0 (free_set b m)"
    "\<And>h j. h < 2 ^ 35 \<Longrightarrow> h \<notin> map_frames b \<Longrightarrow> j < 512 \<Longrightarrow> ent m' h j = (if h = f \<and> j = i then 0 else ent m h j)"
proof -
  define m1 where "m1 = wr64 m (adr (pcell f i)) 0"
  define m' where "m' = free_frames b m1 0 1"
  have ch1: "pages_chg {f} m m1" unfolding m1_def by (rule wr_page [OF f(1,3)])
  have bs: "bits_set m' m1 b 0 1 True"
    using free_frames_bits [OF ok, of 1 m1] by (simp add: m'_def frame_addr_def)
  have "m' x = m1 x" if x: "page_no x \<notin> map_frames b" for x
  proof -
    have "x \<noteq> bm_data b + of_nat (k div 8)" if "0 \<le> k \<and> k < 1" for k
      using that ok(2) x by (auto simp: map_frames_def)
    then show ?thesis using bs by (auto simp: bits_set_def)
  qed
  then have ch2: "pages_chg (map_frames b) m1 m'" by (simp add: pages_chg_def)
  have "free_set b m1 = free_set b m" using f(2) by (intro pages_chg_free [OF ch1]) simp
  then have fr: "free_set b m' = insert 0 (free_set b m)"
    using bits_set_free_set [OF ok(1) bs] ok(2) by auto
  have en: "ent m' h j = (if h = f \<and> j = i then 0 else ent m h j)" if "h < 2 ^ 35" "h \<notin> map_frames b" "j < 512" for h j
    using pages_chg_ent [OF ch2 that(2,1,3)] wr_ent [OF f(1,3) that(3)] by (simp add: m1_def)
  have "unmap_entry hhdm_base (b, m) (adr (pcell f i)) = (b, m')"
    by (simp add: unmap_entry_def unframe_one_def m1_def [symmetric] m'_def) (simp add: m1_def)
  then show ?thesis using that fr en by blast
qed

text \<open>Below the top level the copy never recurses: an empty entry leads to the null table, whose copy is null.\<close>

lemma copy_null: "copy_page_table_recursive n off s 0 all_copy kernel_space = (0, s)"
  by (cases n) simp_all

lemma copy_st:
  assumes ap: "frames_apart b m" "free_set b m \<noteq> {}" and r: "r < 2 ^ 35" "r \<noteq> 0" "r \<notin> free_set b m" "r \<notin> map_frames b"
  obtains g m' where "copy_page_table_recursive 4 hhdm_base (b, m) (frame_addr r) False False = (adr (pcell g 0), b, m')"
    "g \<in> free_set b m" "g < 2 ^ 35"
    "\<And>j. j < 256 \<Longrightarrow> ent m' g j = (if ent m r j \<noteq> 0 then ent m r j else - hhdm_base)"
proof -
  obtain g m1 where F: "frame_one (b, m) = (frame_addr g, b, m1)" "g \<in> free_set b m" "g < 2 ^ 35"
    "pages_chg (map_frames b) m m1"
    by (rule frame_one_pages [OF ap])
  have gr: "g \<noteq> r" using F(2) r(3) by auto
  have r0: "frame_addr r \<noteq> 0"
  proof -
    have "4096 * r < 2 ^ 64" using r(1) by simp
    then show ?thesis using r(2) by (simp only: frame_addr_def of_nat64_eq_0_iff)
  qed
  define body where "body i = (\<lambda>(b :: bitmap, m).
    if rd64 m (adr (pcell r 0) + i * 8) \<noteq> 0
    then (b, wr64 m (adr (pcell g 0) + i * 8) (rd64 m (adr (pcell r 0) + i * 8)))
    else (b, wr64 m (adr (pcell g 0) + i * 8) (- hhdm_base)))" for i :: u64
  let ?I = "\<lambda>k (s :: fmem). fst s = b \<and> (\<forall>j<512. ent (snd s) r j = ent m r j) \<and>
     (\<forall>j<k. j < 512 \<longrightarrow> ent (snd s) g j = (if ent m r j \<noteq> 0 then ent m r j else - hhdm_base))"
  have "?I (unat (256 :: u64)) (for_loop 0 256 body (b, m1))"
  proof (rule for_loop_inv [where I = ?I])
    show "?I (unat (0 :: u64)) (b, m1)" using pages_chg_ent [OF F(4) r(4,1)] by simp
  next
    fix k s assume k: "k < unat (256 :: u64)" and I: "?I k s"
    have a: "adr (pcell h 0) + of_nat k * 8 = adr (pcell h k)" for h by (simp add: adr_def pcell_def)
    have k5: "k < 512" using k by simp
    have rd: "rd64 (snd s) (adr (pcell r k)) = ent m r k"
      using I k5 pcell_bound [OF r(1) k5] by (simp add: ent_def rd64_adr)
    show "?I (Suc k) (body (of_nat k) s)"
      using I k5 gr unfolding body_def split_beta a rd
      by (auto simp: wr_ent [OF F(3) k5] less_Suc_eq)
  qed simp
  then have res: "\<And>j. j < 256 \<Longrightarrow> ent (snd (for_loop 0 256 body (b, m1))) g j = (if ent m r j \<noteq> 0 then ent m r j else - hhdm_base)"
    and fb: "fst (for_loop 0 256 body (b, m1)) = b" by simp_all
  have four: "copy_page_table_recursive 4 = copy_page_table_recursive (Suc 3)" by simp
  have "(\<lambda>i (b, m). if rd64 m (adr (pcell r 0) + i * 8) \<noteq> 0
       then (b, wr64 m (adr (pcell g 0) + i * 8) (rd64 m (adr (pcell r 0) + i * 8)))
       else let source_next = rd64 m (adr (pcell r 0) + i * 8) AND 0x00007ffffffff000;
                (new_next, b', m') = copy_page_table_recursive 3 hhdm_base (b, m) source_next False
                    (if Suc 3 \<noteq> 4 then False else i \<ge> 256)
            in (b', wr64 m' (adr (pcell g 0) + i * 8)
                 (virt_to_phys hhdm_base new_next OR (rd64 m' (adr (pcell r 0) + i * 8) AND 0xFFFF000000000FFF)))) = body"
    by (intro ext) (auto simp: body_def copy_null virt_to_phys_def Let_def split: prod.splits)
  then have "copy_page_table_recursive 4 hhdm_base (b, m) (frame_addr r) False False =
      (adr (pcell g 0), for_loop 0 256 body (b, m1))"
    unfolding four copy_page_table_recursive.simps(2) by (simp add: r0 F(1) table_addr)
  then show ?thesis using that [of g "snd (for_loop 0 256 body (b, m1))"] F(2,3) res fb by (metis prod.collapse)
qed

section \<open>A small machine for the examples\<close>

text \<open>Frame 0 holds the bit map, frame 1 an empty root table, frames 4 to 7 are free.\<close>

definition demo_bm :: bitmap where
  "demo_bm = \<lparr>bm_data = hhdm_base, bm_size = 64\<rparr>"

definition demo_mem :: mem where
  "demo_mem = (\<lambda>x. if x = hhdm_base then 0xF0 else 0)"

definition demo_pt :: page_table where
  "demo_pt = \<lparr>pt_phys_addr = 4096, pt_user = False\<rparr>"

lemma demo_cap: "frame_cap demo_bm = 64"
  by (simp add: frame_cap_def demo_bm_def)

lemma demo_map_frames: "map_frames demo_bm = {0}"
proof -
  have "page_no (bm_data demo_bm + of_nat (i div 8)) = 0" if "i < 64" for i
  proof -
    have "i div 8 < 8" using that by (simp add: less_mult_imp_div_less)
    then show ?thesis by (simp add: page_no_def demo_bm_def)
  qed
  moreover have "0 < frame_cap demo_bm" by (simp add: demo_cap)
  ultimately show ?thesis unfolding map_frames_def demo_cap by fastforce
qed

lemma demo_table_free_set: "free_set demo_bm demo_mem = {4, 5, 6, 7}"
proof -
  have "bm_bit demo_mem demo_bm i = (i \<in> set (filter (bit (0xF0 :: u8)) [0..<8]))" if "i < 64" for i
  proof -
    have d: "i div 8 < 8" using that by (simp add: less_mult_imp_div_less)
    then have "(hhdm_base + of_nat (i div 8) = hhdm_base) = (i div 8 = 0)"
      using of_nat64_eq_iff [of "i div 8" 0] by simp
    then show ?thesis by (auto simp: bm_bit_def demo_mem_def demo_bm_def div_eq_0_iff)
  qed
  moreover have "set (filter (bit (0xF0 :: u8)) [0..<8]) = {4, 5, 6, 7}"
    by (simp add: upt_rec bit_numeral_rec eval_nat_numeral)
  ultimately show ?thesis by (auto simp: free_set_def demo_cap)
qed

lemma demo_apart: "frames_apart demo_bm demo_mem"
  by (simp add: frames_apart_def demo_table_free_set demo_map_frames demo_cap) (simp add: frames_ok_def demo_bm_def)

lemma demo_tree: "tree_ok demo_bm demo_mem [[] \<mapsto> 1]"
proof -
  have "ent demo_mem 1 i = 0" if "i < 512" for i
  proof -
    have "demo_mem (adr (pcell 1 i) + of_nat k) = 0" if "k < 8" for k
      using page_no_pcell [of 1 i k] that \<open>i < 512\<close> by (auto simp: demo_mem_def page_no_def)
    then have "rd64 demo_mem (adr (pcell 1 i)) = rd64 (\<lambda>_. 0) 0" by (intro rd64_cong) simp
    moreover have "rd64 (\<lambda>_. 0) 0 = 0" by (simp add: rd64_def upt_rec)
    ultimately show ?thesis using pcell_bound [of 1 i] that by (simp add: ent_def rd64_adr)
  qed
  then show ?thesis by (auto simp: tree_on_def demo_table_free_set demo_map_frames split: if_splits)
qed

lemma demo_root: "pt_phys_addr demo_pt = frame_addr 1"
  by (simp add: demo_pt_def frame_addr_def)

section \<open>One page\<close>

text \<open>Writes outside the tables leave them and what they translate as they are; taking frames is such a write.\<close>

lemma tree_kept:
  assumes "tree_on S b m T" "frames_apart b m" "T [] = Some r" "pt_phys_addr pt = frame_addr r"
    and "free_set b m1 \<subseteq> free_set b m" "pages_chg F m m1" "F \<inter> ran T = {}"
  shows "tree_on S b m1 T" "frames_apart b m1"
    "\<And>va. T (path va) \<noteq> None \<Longrightarrow> translate_addr hhdm_base pt m1 va = translate_addr hhdm_base pt m va"
    "\<And>q g j. T q = Some g \<Longrightarrow> j < 512 \<Longrightarrow> ent m1 g j = ent m g j"
proof -
  show e: "ent m1 g j = ent m g j" if "T q = Some g" "j < 512" for q g j
    using pages_chg_ent [OF assms(6)] tree_frame [OF assms(1) that(1)] that assms(7) by (auto simp: ran_def)
  show t: "tree_on S b m1 T" using assms(1,5) e unfolding tree_on_def by auto
  show "frames_apart b m1" using assms(2,5) by (auto simp: frames_apart_def)
  show "translate_addr hhdm_base pt m1 va = translate_addr hhdm_base pt m va" if "T (path va) \<noteq> None" for va
    using that translate_tree [OF assms(1,3,4)] translate_tree [OF t assms(3,4)] e index_less(4) by fastforce
qed

lemma tree_apart: "tree_on S b m T \<Longrightarrow> map_frames b \<inter> ran T = {}"
  using tree_frame by (fastforce simp: ran_def)

lemmas tree_taken = tree_kept [where F = "map_frames b" for b, OF _ _ _ _ _ _ tree_apart]

lemma map_page:
  assumes "tree_on S b m T" "frames_apart b m" "T [] = Some r" "pt_phys_addr pt = frame_addr r" "unat (l4_index va) \<in> S"
    "3 \<le> card (free_set b m)"
  obtains m' T' where "page_table_map hhdm_base pt (b, m) va pa flags = (b, m')" "tree_on S b m' T'" "frames_apart b m'"
    "T' [] = Some r" "T' (path va) \<noteq> None" "translate_addr hhdm_base pt m' va = pa AND NOT hhdm_base AND NOT (PAGE_SIZE - 1)"
    "\<forall>va'. T (path va') \<noteq> None \<and> (path va', leaf va') \<noteq> (path va, leaf va) \<longrightarrow>
       T' (path va') \<noteq> None \<and> translate_addr hhdm_base pt m' va' = translate_addr hhdm_base pt m va'"
    "\<And>q g. T q = Some g \<Longrightarrow> T' q = Some g" "\<And>q g. T' q = Some g \<Longrightarrow> T q = Some g \<or> g \<in> free_set b m"
    "free_set b m' \<subseteq> free_set b m" "card (free_set b m) \<le> card (free_set b m') + 3" "pages_chg (map_frames b \<union> ran T') m m'"
    "\<And>j. j < 512 \<Longrightarrow> j \<notin> S \<Longrightarrow> ent m' r j = ent m r j"
proof -
  obtain m' T' h where M: "page_table_map hhdm_base pt (b, m) va pa flags = (b, m')" "tree_on S b m' T'" "frames_apart b m'"
    "T' [] = Some r" "T' (path va) = Some h" "\<And>q g. T q = Some g \<Longrightarrow> T' q = Some g"
    "ent m' h (leaf va) = (pa AND NOT hhdm_base AND NOT (PAGE_SIZE - 1)) OR arch_flags_of flags"
    "\<And>q g j. T q = Some g \<Longrightarrow> length q = 3 \<Longrightarrow> j < 512 \<Longrightarrow> (q, j) \<noteq> (path va, leaf va) \<Longrightarrow> ent m' g j = ent m g j"
    "free_set b m' \<subseteq> free_set b m" "card (free_set b m) \<le> card (free_set b m') + 3"
    "\<And>q g. T' q = Some g \<Longrightarrow> T q = Some g \<or> g \<in> free_set b m" "pages_chg (map_frames b \<union> ran T') m m'"
    "\<And>j. j < 512 \<Longrightarrow> j \<notin> S \<Longrightarrow> ent m' r j = ent m r j"
    by (rule map_st [OF assms, where pa = pa and flags = flags]) (rule that)
  have "translate_addr hhdm_base pt m' va = pa AND NOT hhdm_base AND NOT (PAGE_SIZE - 1)"
    using translate_tree [OF M(2,4) assms(4) M(5)] M(7) entry_address by simp
  moreover have "T' (path va') \<noteq> None \<and> translate_addr hhdm_base pt m' va' = translate_addr hhdm_base pt m va'"
    if t: "T (path va') \<noteq> None" "(path va', leaf va') \<noteq> (path va, leaf va)" for va'
  proof -
    obtain g where g: "T (path va') = Some g" using t(1) by auto
    have "length (path va') = 3" by (simp add: path_def)
    from M(8) [OF g this index_less(4) t(2)] show ?thesis
      using translate_tree [OF assms(1,3,4) g] translate_tree [OF M(2,4) assms(4) M(6) [OF g]] M(6) [OF g] by simp
  qed
  ultimately show ?thesis using that [OF M(1-4)] M(5,6,9-13) by blast
qed

section \<open>Properties\<close>

text \<open>C2: after \<open>map\<close>, the page translates to the frame it was mapped to, every other page that had a table
  before translates as it did, and the tables again form a tree without sharing (so that the statement applies to the next
  \<open>map\<close>). The tables that are missing on the path are created from free frames, at most three. Nothing is written but the bit map and tables.\<close>

theorem map_then_translate:
  assumes "tree_ok b m T" "frames_apart b m" "T [] = Some r" "pt_phys_addr pt = frame_addr r" "3 \<le> card (free_set b m)"
  shows "\<exists>m' T'. page_table_map hhdm_base pt (b, m) va pa flags = (b, m') \<and>
    tree_ok b m' T' \<and> frames_apart b m' \<and> T' [] = Some r \<and> T' (path va) \<noteq> None \<and>
    translate_addr hhdm_base pt m' va = pa AND NOT hhdm_base AND NOT (PAGE_SIZE - 1) \<and>
    (\<forall>va'. T (path va') \<noteq> None \<and> (path va', leaf va') \<noteq> (path va, leaf va) \<longrightarrow>
       T' (path va') \<noteq> None \<and> translate_addr hhdm_base pt m' va' = translate_addr hhdm_base pt m va') \<and>
    pages_chg (map_frames b \<union> ran T') m m'"
  by (rule map_page [where va = va and pa = pa and flags = flags, OF assms(1-4) UNIV_I assms(5)]) blast

theorem map_then_translate_witness:
  "\<exists>m'. page_table_map hhdm_base demo_pt (demo_bm, demo_mem) 0x400000 0x2000 7 = (demo_bm, m') \<and>
     translate_addr hhdm_base demo_pt m' 0x400000 = 0x2000"
  using map_then_translate [OF demo_tree demo_apart _ demo_root, where va = "0x400000" and pa = "0x2000" and flags = 7]
  by (auto simp: demo_table_free_set hhdm_base_def PAGE_SIZE_def)

text \<open>C35: \<open>unmap\<close> of one page clears the top-level entry, and so drops the whole 512 GiB region of the page. It
  frees none of the frames involved: every entry is set to zero before it is read, so frame 0 is marked as free (four
  times) instead.\<close>

theorem unmap_drops_region:
  assumes "tree_ok b m T" "frames_ok b" "0 < frame_cap b" "T [] = Some r" "pt_phys_addr pt = frame_addr r"
    and "T (path va) = Some h"
  shows "\<exists>m'. page_table_unmap hhdm_base pt (b, m) va = (b, m') \<and> ent m' r (unat (l4_index va)) = 0 \<and>
    free_set b m' = insert 0 (free_set b m)"
proof -
  let ?i4 = "unat (l4_index va)" and ?i3 = "unat (l3_index va)" and ?i2 = "unat (l2_index va)"
  have h': "T ([?i4, ?i3] @ [?i2]) = Some h" using assms(6) by (simp add: path_def)
  obtain g2 where g2: "T ([?i4] @ [?i3]) = Some g2" using tree_up [OF assms(1) h'] by auto
  obtain g3 where g3: "T ([] @ [?i4]) = Some g3" using tree_up [OF assms(1) g2] by auto
  have g3': "T [?i4] = Some g3" and g2': "T [?i4, ?i3] = Some g2" using g3 g2 by simp_all
  note fr = tree_frame [OF assms(1,4)] tree_frame [OF assms(1) g3'] tree_frame [OF assms(1) g2'] tree_frame [OF assms(1,6)]
  have ne: "r \<noteq> g3" "r \<noteq> g2" "r \<noteq> h"
    using tree_inj [OF assms(1,4)] g3' g2' assms(6) by (fastforce simp: path_def)+
  have tb: "next_table hhdm_base m (adr (pcell r 0)) (l4_index va) = adr (pcell g3 0)"
    "next_table hhdm_base m (adr (pcell g3 0)) (l3_index va) = adr (pcell g2 0)"
    "next_table hhdm_base m (adr (pcell g2 0)) (l2_index va) = adr (pcell h 0)"
    using next_table_tree [OF assms(1,4) _ index_less(1) g3] next_table_tree [OF assms(1) g3' _ index_less(2) g2]
      next_table_tree [OF assms(1) g2' _ index_less(3) h'] by simp_all
  note un = unmap_entry_st [OF assms(2,3)]
  obtain m1 where A: "unmap_entry hhdm_base (b, m) (adr (pcell r ?i4)) = (b, m1)" "free_set b m1 = insert 0 (free_set b m)"
    "ent m1 r ?i4 = 0" using un [of r ?i4 m] fr(1) index_less(1) by metis
  obtain m2 where B: "unmap_entry hhdm_base (b, m1) (adr (pcell g3 ?i3)) = (b, m2)" "free_set b m2 = insert 0 (free_set b m1)"
    "ent m2 r ?i4 = 0" using un [of g3 ?i3 m1] fr index_less A(3) ne by metis
  obtain m3 where C: "unmap_entry hhdm_base (b, m2) (adr (pcell g2 ?i2)) = (b, m3)" "free_set b m3 = insert 0 (free_set b m2)"
    "ent m3 r ?i4 = 0" using un [of g2 ?i2 m2] fr index_less B(3) ne by metis
  obtain m4 where D: "unmap_entry hhdm_base (b, m3) (adr (pcell h (leaf va))) = (b, m4)" "free_set b m4 = insert 0 (free_set b m3)"
    "ent m4 r ?i4 = 0" using un [of h "leaf va" m3] fr index_less C(3) ne by metis
  have "page_table_unmap hhdm_base pt (b, m) va = (b, m4)"
    using A(1) B(1) C(1) D(1)
    by (simp add: page_table_unmap_def assms(5) table_addr tb entry_at leaf_def)
  with A(2) B(2) C(2) D(2,3) show ?thesis by auto
qed

theorem unmap_drops_region_witness:
  "\<exists>m' m''. page_table_map hhdm_base demo_pt (demo_bm, demo_mem) 0x400000 0x2000 7 = (demo_bm, m') \<and>
     page_table_unmap hhdm_base demo_pt (demo_bm, m') 0x400000 = (demo_bm, m'') \<and> 0 \<in> free_set demo_bm m''"
proof -
  have three: "3 \<le> card (free_set demo_bm demo_mem)" by (simp add: demo_table_free_set)
  obtain m' T' h where M: "page_table_map hhdm_base demo_pt (demo_bm, demo_mem) 0x400000 0x2000 7 = (demo_bm, m')"
    "tree_ok demo_bm m' T'" "T' [] = Some 1" "T' (path 0x400000) = Some h"
    by (rule map_st [where va = "0x400000" and pa = "0x2000" and flags = 7, OF demo_tree demo_apart _ demo_root UNIV_I three]) auto
  have "frames_ok demo_bm" "0 < frame_cap demo_bm" using demo_apart by (simp_all add: frames_apart_def demo_cap)
  from unmap_drops_region [OF M(2) this M(3) demo_root M(4)] M(1) show ?thesis by blast
qed

text \<open>C36: copying an address space shares every lower table with the original instead of copying it, because the test
  that should recurse into used entries is reversed. Every empty entry of the new root becomes the nonzero value
  \<open>- hhdm_base\<close>, the physical address the code computes for a null pointer, so that a later \<open>map\<close> through it takes frame
  0 for a table.\<close>

theorem copy_shares_tables:
  assumes "frames_apart b m" "free_set b m \<noteq> {}" "r < 2 ^ 35" "r \<noteq> 0" "r \<notin> free_set b m" "r \<notin> map_frames b" "j < 256"
  shows "\<exists>g m'. copy_page_table_recursive 4 hhdm_base (b, m) (frame_addr r) False False = (adr (pcell g 0), b, m') \<and>
    g \<in> free_set b m \<and> ent m' g j = (if ent m r j \<noteq> 0 then ent m r j else - hhdm_base)"
proof -
  obtain g m' where "copy_page_table_recursive 4 hhdm_base (b, m) (frame_addr r) False False = (adr (pcell g 0), b, m')"
    "g \<in> free_set b m" "\<And>j. j < 256 \<Longrightarrow> ent m' g j = (if ent m r j \<noteq> 0 then ent m r j else - hhdm_base)"
    by (rule copy_st [OF assms(1-6)]) blast
  with assms(7) show ?thesis by blast
qed

theorem copy_shares_tables_witness:
  "\<exists>g m'. copy_page_table_recursive 4 hhdm_base (demo_bm, demo_mem) (frame_addr 1) False False = (adr (pcell g 0), demo_bm, m') \<and>
     ent m' g 0 = 0x800000000000"
proof -
  have "ent demo_mem 1 0 = 0" using tree_ent [OF demo_tree, of "[]" 1 0] by simp
  moreover have "- hhdm_base = 0x800000000000" by (simp add: hhdm_base_def)
  ultimately show ?thesis
    using copy_shares_tables [OF demo_apart, where r = 1 and j = 0] by (simp add: demo_table_free_set demo_map_frames) blast
qed

end
