(* ===== verification/MapRange.thy ===== *)
theory MapRange
  imports PageTable
begin

unbundle bit_operations_syntax

text \<open>
  Mapping a range of pages (\<^verbatim>\<open>map_range\<close> of \<^verbatim>\<open>arch/x86_64/table.cpp\<close>), with given addresses or with fresh frames.

  The loop is proved by one relation between the state at its start and the state after \<open>k\<close> rounds, \<open>mapped\<close>: the tables are again a tree,
  which contains the old one, the first \<open>k\<close> pages translate as asked, all others as before, and the frames given out for pages
  are different, were free, and hold neither a table nor the bit map.
\<close>

section \<open>Pages\<close>

text \<open>The path and the leaf of an address are the 36 bits above its offset.\<close>

lemma unat_index: "unat (drop_bit k va AND (0x1FF :: u64)) = unat va div 2 ^ k mod 512"
proof -
  have "(0x1FF :: u64) = mask 9" by (simp add: mask_eq_exp_minus_1)
  then have "drop_bit k va AND (0x1FF :: u64) = take_bit 9 (drop_bit k va)" by (simp add: take_bit_eq_mask)
  moreover have "unat (drop_bit k va) = unat va div 2 ^ k"
    unfolding unsigned_drop_bit_eq using unat_less_2p64 [of va] by (simp add: drop_bit_eq_div take_bit_nat_eq_self)
  ultimately show ?thesis by (simp add: unat_mod take_bit_eq_mod)
qed

lemma mod_split9: "a mod 2 ^ (k + 9) = (2 :: nat) ^ k * (a div 2 ^ k mod 512) + a mod 2 ^ k"
  using mod_mult2_eq [of a "2 ^ k" 512] by (simp add: power_add)

lemma same_page:
  assumes "(path va, leaf va) = (path va', leaf va')" "unat va mod 4096 = unat va' mod 4096"
  shows "unat va mod 2 ^ 48 = unat va' mod 2 ^ 48"
proof -
  have i: "unat va div 2 ^ k mod 512 = unat va' div 2 ^ k mod 512" if "k \<in> {12, 21, 30, 39}" for k
    using assms(1) that by (auto simp: path_def leaf_def l4_index_def l3_index_def l2_index_def l1_index_def unat_index)
  have 21: "unat va mod 2 ^ 21 = unat va' mod 2 ^ 21"
    using mod_split9 [of _ 12] i [of 12] assms(2) by simp
  have 30: "unat va mod 2 ^ 30 = unat va' mod 2 ^ 30" using mod_split9 [of _ 21] i [of 21] 21 by simp
  have 39: "unat va mod 2 ^ 39 = unat va' mod 2 ^ 39" using mod_split9 [of _ 30] i [of 30] 30 by simp
  then show ?thesis using mod_split9 [of _ 39] i [of 39] by simp
qed

definition page_at :: "u64 \<Rightarrow> nat \<Rightarrow> u64" where
  "page_at va i = va + of_nat i * PAGE_SIZE"

lemma unat_page_at: "i < 2 ^ 36 \<Longrightarrow> unat (page_at va i) = (unat va + 4096 * i) mod 2 ^ 64"
proof -
  assume i: "i < 2 ^ 36"
  have "of_nat i * PAGE_SIZE = (of_nat (4096 * i) :: u64)" by (simp add: PAGE_SIZE_def mult.commute)
  moreover have "unat (of_nat (4096 * i) :: u64) = 4096 * i" by (rule unat_of_nat64) (use i in simp)
  ultimately show ?thesis by (simp only: page_at_def unat_word_ariths) simp
qed

lemma pages_distinct:
  assumes "i < 2 ^ 36" "j < 2 ^ 36" "(path (page_at va i), leaf (page_at va i)) = (path (page_at va j), leaf (page_at va j))"
  shows "i = j"
proof -
  have m: "unat (page_at va k) mod 2 ^ n = (unat va + 4096 * k) mod 2 ^ n" if "k < 2 ^ 36" "n \<le> 64" for k n
    unfolding unat_page_at [OF that(1)] by (rule mod_mod_cancel) (rule le_imp_power_dvd [OF that(2)])
  have low: "unat (page_at va k) mod 4096 = unat va mod 4096" if "k < 2 ^ 36" for k using m [OF that, of 12] by simp
  then have e: "(unat va + 4096 * i) mod 2 ^ 48 = (unat va + 4096 * j) mod 2 ^ 48"
    using same_page [OF assms(3)] assms(1,2) m [of _ 48] by simp
  have "i = j" if "i \<le> j" "j < 2 ^ 36" "(unat va + 4096 * i) mod 2 ^ 48 = (unat va + 4096 * j) mod 2 ^ 48" for i j
  proof -
    have "2 ^ 48 dvd (unat va + 4096 * j) - (unat va + 4096 * i)"
      by (rule iffD1 [OF mod_eq_dvd_iff_nat]) (use that in simp_all)
    then have "(2 ^ 48 :: nat) dvd 4096 * (j - i)" by (simp add: diff_mult_distrib2)
    then have "j - i = 0" using that(2) by (auto dest: dvd_imp_le)
    then show ?thesis using that(1) by simp
  qed
  from this [of i j] this [of j i] e assms(1,2) show ?thesis by (cases "i \<le> j") simp_all
qed

section \<open>The state after some rounds\<close>

text \<open>\<open>mapped S pt b m T r va k tgt F m'\<close>: from \<open>m\<close> with the tree \<open>T\<close>, the first \<open>k\<close> pages are mapped, page \<open>i\<close> to \<open>tgt i\<close>, and the frames \<open>F\<close> given
  out on the way for pages hold no table. The tree is that of the top-level entries in \<open>S\<close>, and the other entries of the root stay as they were.\<close>

definition mapped ::
  "nat set \<Rightarrow> page_table \<Rightarrow> bitmap \<Rightarrow> mem \<Rightarrow> (nat list \<rightharpoonup> nat) \<Rightarrow> nat \<Rightarrow> u64 \<Rightarrow> nat \<Rightarrow> (nat \<Rightarrow> u64) \<Rightarrow> nat set \<Rightarrow> mem \<Rightarrow> (nat list \<rightharpoonup> nat) \<Rightarrow> bool" where
  "mapped S pt b m T r va k tgt F m' T' \<longleftrightarrow>
     tree_on S b m' T' \<and> frames_apart b m' \<and> T' [] = Some r \<and> (\<forall>q g. T q = Some g \<longrightarrow> T' q = Some g) \<and>
     pages_chg (map_frames b \<union> ran T') m m' \<and> (\<forall>j < 512. j \<notin> S \<longrightarrow> ent m' r j = ent m r j) \<and>
     (\<forall>q g. T' q = Some g \<longrightarrow> T q = Some g \<or> g \<in> free_set b m) \<and> free_set b m' \<subseteq> free_set b m \<and> F \<subseteq> free_set b m \<and> F \<inter> free_set b m' = {} \<and> F \<inter> ran T' = {} \<and>
     (\<forall>i < k. T' (path (page_at va i)) \<noteq> None \<and> translate_addr hhdm_base pt m' (page_at va i) = tgt i) \<and>
     (\<forall>va'. T (path va') \<noteq> None \<and> (\<forall>i < k. (path va', leaf va') \<noteq> (path (page_at va i), leaf (page_at va i))) \<longrightarrow>
        translate_addr hhdm_base pt m' va' = translate_addr hhdm_base pt m va')"

lemma mappedD:
  assumes "mapped S pt b m T r va k tgt F m' T'"
  shows "tree_on S b m' T'" "frames_apart b m'" "T' [] = Some r" "\<And>q g. T q = Some g \<Longrightarrow> T' q = Some g"
    "\<And>q g. T' q = Some g \<Longrightarrow> T q = Some g \<or> g \<in> free_set b m"
    "free_set b m' \<subseteq> free_set b m" "F \<subseteq> free_set b m" "F \<inter> free_set b m' = {}" "F \<inter> ran T' = {}"
    "\<And>i. i < k \<Longrightarrow> T' (path (page_at va i)) \<noteq> None" "\<And>i. i < k \<Longrightarrow> translate_addr hhdm_base pt m' (page_at va i) = tgt i"
    "\<And>va'. T (path va') \<noteq> None \<Longrightarrow> (\<And>i. i < k \<Longrightarrow> (path va', leaf va') \<noteq> (path (page_at va i), leaf (page_at va i))) \<Longrightarrow>
       translate_addr hhdm_base pt m' va' = translate_addr hhdm_base pt m va'"
    "\<And>q. T q \<noteq> None \<Longrightarrow> T' q \<noteq> None" "pages_chg (map_frames b \<union> ran T') m m'"
    "\<And>j. j < 512 \<Longrightarrow> j \<notin> S \<Longrightarrow> ent m' r j = ent m r j"
proof -
  note d = assms [unfolded mapped_def]
  show "tree_on S b m' T'" "frames_apart b m'" "T' [] = Some r" "free_set b m' \<subseteq> free_set b m" "F \<subseteq> free_set b m"
    "F \<inter> free_set b m' = {}" "F \<inter> ran T' = {}" "pages_chg (map_frames b \<union> ran T') m m'" using d by blast+
  show "\<And>j. j < 512 \<Longrightarrow> j \<notin> S \<Longrightarrow> ent m' r j = ent m r j" using d by blast
  show k: "\<And>q g. T q = Some g \<Longrightarrow> T' q = Some g" using d by blast
  show "\<And>q g. T' q = Some g \<Longrightarrow> T q = Some g \<or> g \<in> free_set b m" using d by blast
  show "\<And>i. i < k \<Longrightarrow> T' (path (page_at va i)) \<noteq> None" "\<And>i. i < k \<Longrightarrow> translate_addr hhdm_base pt m' (page_at va i) = tgt i"
    using d by blast+
  show "\<And>va'. T (path va') \<noteq> None \<Longrightarrow> (\<And>i. i < k \<Longrightarrow> (path va', leaf va') \<noteq> (path (page_at va i), leaf (page_at va i))) \<Longrightarrow>
      translate_addr hhdm_base pt m' va' = translate_addr hhdm_base pt m va'" using d by blast
  show "\<And>q. T q \<noteq> None \<Longrightarrow> T' q \<noteq> None" using k by auto
qed

lemma mapped_start:
  assumes "tree_on S b m T" "frames_apart b m" "T [] = Some r"
  shows "mapped S pt b m T r va 0 tgt {} m T"
  using assms by (simp add: mapped_def pages_chg_def)

text \<open>Taking a frame between two rounds.\<close>

lemma mapped_frame:
  assumes M: "mapped S pt b m T r va k tgt F m' T'" and pt: "pt_phys_addr pt = frame_addr r" and ne: "free_set b m' \<noteq> {}"
  obtains f m1 where "frame_one (b, m') = (frame_addr f, b, m1)" "f \<in> free_set b m'" "f < 2 ^ 35" "f \<notin> F"
    "mapped S pt b m T r va k tgt (insert f F) m1 T'" "free_set b m1 = free_set b m' - {f}"
proof -
  have t: "tree_on S b m' T'" "frames_apart b m'" "T' [] = Some r" using M by (simp_all add: mapped_def)
  obtain f m1 where f: "frame_one (b, m') = (frame_addr f, b, m1)" "f \<in> free_set b m'" "f < 2 ^ 35"
    "free_set b m1 = free_set b m' - {f}" "pages_chg (map_frames b) m' m1" by (rule frame_one_pages [OF t(2) ne])
  note T = tree_taken [OF t pt _ _ t(1), of m1]
  have sub: "free_set b m1 \<subseteq> free_set b m'" using f(4) by blast
  note D = mappedD [OF M]
  have new: "f \<notin> ran T'" using tree_frame [OF t(1)] f(2) by (auto simp: ran_def)
  note T = T [OF sub f(5)]
  have "mapped S pt b m T r va k tgt (insert f F) m1 T'"
    unfolding mapped_def
  proof (intro conjI)
    show "\<forall>i < k. T' (path (page_at va i)) \<noteq> None \<and> translate_addr hhdm_base pt m1 (page_at va i) = tgt i"
      using D(10,11) T(3) by simp
    show "\<forall>va'. T (path va') \<noteq> None \<and> (\<forall>i < k. (path va', leaf va') \<noteq> (path (page_at va i), leaf (page_at va i))) \<longrightarrow>
        translate_addr hhdm_base pt m1 va' = translate_addr hhdm_base pt m va'"
      using D(12) T(3) [OF D(13)] by simp
    show "insert f F \<inter> free_set b m1 = {}" "insert f F \<inter> ran T' = {}" "insert f F \<subseteq> free_set b m" "free_set b m1 \<subseteq> free_set b m"
      using D(6-9) f(2,4) new by auto
    show "pages_chg (map_frames b \<union> ran T') m m1" using D(14) f(5) by (simp add: pages_chg_def)
    show "\<forall>j < 512. j \<notin> S \<longrightarrow> ent m1 r j = ent m r j" using D(15) T(4) [OF t(3)] by simp
    show "\<forall>q g. T q = Some g \<longrightarrow> T' q = Some g" "\<forall>q g. T' q = Some g \<longrightarrow> T q = Some g \<or> g \<in> free_set b m"
      using D(4,5) by blast+
  qed (rule T(1) T(2) t(3))+
  moreover have "f \<notin> F" using D(8) f(2) by blast
  ultimately show thesis using that f(1-4) by blast
qed

text \<open>One more page.\<close>

lemma mapped_page:
  assumes M: "mapped S pt b m T r va k tgt F m' T'" and pt: "pt_phys_addr pt = frame_addr r" and free: "3 \<le> card (free_set b m')"
    and k: "k < 2 ^ 36" and sl: "unat (l4_index (page_at va k)) \<in> S"
  obtains m2 T2 where "page_table_map hhdm_base pt (b, m') (page_at va k) pa flags = (b, m2)"
    "mapped S pt b m T r va (Suc k) (tgt(k := pa AND NOT hhdm_base AND NOT (PAGE_SIZE - 1))) F m2 T2"
    "card (free_set b m') \<le> card (free_set b m2) + 3"
proof -
  let ?va = "page_at va k"
  have t: "tree_on S b m' T'" "frames_apart b m'" "T' [] = Some r" using M by (simp_all add: mapped_def)
  obtain m2 T2 where P: "page_table_map hhdm_base pt (b, m') ?va pa flags = (b, m2)" "tree_on S b m2 T2" "frames_apart b m2"
    "T2 [] = Some r" "T2 (path ?va) \<noteq> None" "translate_addr hhdm_base pt m2 ?va = pa AND NOT hhdm_base AND NOT (PAGE_SIZE - 1)"
    "\<forall>va'. T' (path va') \<noteq> None \<and> (path va', leaf va') \<noteq> (path ?va, leaf ?va) \<longrightarrow>
       T2 (path va') \<noteq> None \<and> translate_addr hhdm_base pt m2 va' = translate_addr hhdm_base pt m' va'"
    "\<And>q g. T' q = Some g \<Longrightarrow> T2 q = Some g" "\<And>q g. T2 q = Some g \<Longrightarrow> T' q = Some g \<or> g \<in> free_set b m'"
    "free_set b m2 \<subseteq> free_set b m'" "card (free_set b m') \<le> card (free_set b m2) + 3"
    "pages_chg (map_frames b \<union> ran T2) m' m2"
    "\<And>j. j < 512 \<Longrightarrow> j \<notin> S \<Longrightarrow> ent m2 r j = ent m' r j"
    by (rule map_page [OF t pt sl free, where pa = pa and flags = flags]) (rule that)
  note D = mappedD [OF M]
  have "g \<notin> F" if "T2 q = Some g" for q g using P(9) [OF that] D(8,9) by (auto simp: ran_def)
  then have tabs: "F \<inter> ran T2 = {}" by (auto simp: ran_def)
  have old: "T2 (path (page_at va i)) \<noteq> None \<and> translate_addr hhdm_base pt m2 (page_at va i) = tgt i" if "i < k" for i
  proof -
    have "T' (path (page_at va i)) \<noteq> None \<and> translate_addr hhdm_base pt m' (page_at va i) = tgt i" using D(10,11) that by blast
    moreover have "(path (page_at va i), leaf (page_at va i)) \<noteq> (path ?va, leaf ?va)" using pages_distinct [of i k va] that k by auto
    ultimately show ?thesis using P(7) by metis
  qed
  have other: "translate_addr hhdm_base pt m2 va' = translate_addr hhdm_base pt m va'"
    if v: "T (path va') \<noteq> None" "\<forall>i < Suc k. (path va', leaf va') \<noteq> (path (page_at va i), leaf (page_at va i))" for va'
  proof -
    have "translate_addr hhdm_base pt m2 va' = translate_addr hhdm_base pt m' va'" using P(7) D(13) [OF v(1)] v(2) by blast
    also have "\<dots> = translate_addr hhdm_base pt m va'" by (rule D(12) [OF v(1)]) (use v(2) in auto)
    finally show ?thesis .
  qed
  have "mapped S pt b m T r va (Suc k) (tgt(k := pa AND NOT hhdm_base AND NOT (PAGE_SIZE - 1))) F m2 T2"
    unfolding mapped_def
  proof (intro conjI)
    show "\<forall>i < Suc k. T2 (path (page_at va i)) \<noteq> None \<and>
        translate_addr hhdm_base pt m2 (page_at va i) = (tgt(k := pa AND NOT hhdm_base AND NOT (PAGE_SIZE - 1))) i"
      using old P(5,6) by (auto simp: less_Suc_eq)
    show "pages_chg (map_frames b \<union> ran T2) m m2" by (rule pages_chg_grow [OF D(14) P(12) P(8)])
    show "\<forall>j < 512. j \<notin> S \<longrightarrow> ent m2 r j = ent m r j" using P(13) D(15) by simp
    show "\<forall>q g. T2 q = Some g \<longrightarrow> T q = Some g \<or> g \<in> free_set b m" using P(9) D(5,6) by blast
    show "\<forall>q g. T q = Some g \<longrightarrow> T2 q = Some g" "free_set b m2 \<subseteq> free_set b m" "F \<subseteq> free_set b m" "F \<inter> free_set b m2 = {}"
      using P(8,10) D(4,6-8) by blast+
  qed (use P(2-4) tabs other in blast)+
  with P(1,11) show thesis using that by blast
qed

section \<open>The loop\<close>

lemma mapped_cong: "mapped S pt b m T r va k tgt F m' T' \<Longrightarrow> (\<And>i. i < k \<Longrightarrow> tgt i = tgt' i) \<Longrightarrow> mapped S pt b m T r va k tgt' F m' T'"
  by (simp add: mapped_def)

lemma frame_masked: "f < 2 ^ 35 \<Longrightarrow> frame_addr f AND NOT hhdm_base AND NOT (PAGE_SIZE - 1) = frame_addr f"
proof (rule bit_word_eqI)
  fix n assume f: "f < 2 ^ 35" and n: "n < LENGTH(64)"
  have "n < 47" if "bit (frame_addr f) n" using that bit_nat_less [OF f, of "n - 12"] by (auto simp: bit_frame_addr)
  then show "bit (frame_addr f AND NOT hhdm_base AND NOT (PAGE_SIZE - 1)) n = bit (frame_addr f) n"
    using n unfolding mask_words(2,3)
    by (auto simp: bit_and_iff bit_not_iff bit_push_bit_iff bit_mask_iff bit_frame_addr possible_bit_word)
qed

text \<open>With fresh frames: each round needs at most four, three of them for tables.\<close>

lemma range_fresh:
  assumes t: "tree_on S b m T" "frames_apart b m" "T [] = Some r" and pt: "pt_phys_addr pt = frame_addr r"
    and n: "4 * n \<le> card (free_set b m)" "n < 2 ^ 36"
    and sl: "\<And>i. i < n \<Longrightarrow> unat (l4_index (page_at va i)) \<in> S"
  obtains m' T' fs where "page_table_map_range hhdm_base pt (b, m) va 0 (of_nat n) flags = (b, m')" "length fs = n" "distinct fs"
    "mapped S pt b m T r va n (\<lambda>i. frame_addr (fs ! i)) (set fs) m' T'"
proof -
  let ?I = "\<lambda>k s. \<exists>m' T' fs. s = (b, m') \<and> length fs = k \<and> distinct fs \<and>
    mapped S pt b m T r va k (\<lambda>i. frame_addr (fs ! i)) (set fs) m' T' \<and> card (free_set b m) \<le> card (free_set b m') + 4 * k"
  have un: "unat (of_nat n :: u64) = n" using n(2) by simp
  have "?I (unat (of_nat n :: u64)) (page_table_map_range hhdm_base pt (b, m) va 0 (of_nat n) flags)"
    unfolding page_table_map_range_def
  proof (rule for_loop_inv)
    show "?I (unat (0 :: u64)) (b, m)" using mapped_start [OF t, of pt va "\<lambda>i. frame_addr ([] ! i)"] by auto
    fix k s assume k: "k < unat (of_nat n :: u64)" and "?I k s"
    then obtain m' T' fs where I: "s = (b, m')" "length fs = k" "distinct fs"
      "mapped S pt b m T r va k (\<lambda>i. frame_addr (fs ! i)) (set fs) m' T'" "card (free_set b m) \<le> card (free_set b m') + 4 * k" by blast
    have c: "4 \<le> card (free_set b m')" using I(5) n(1) k un by simp
    then have ne: "free_set b m' \<noteq> {}" by auto
    obtain f m1 where F: "frame_one (b, m') = (frame_addr f, b, m1)" "f \<in> free_set b m'" "f < 2 ^ 35" "f \<notin> set fs"
      "mapped S pt b m T r va k (\<lambda>i. frame_addr (fs ! i)) (insert f (set fs)) m1 T'" "free_set b m1 = free_set b m' - {f}"
      by (rule mapped_frame [OF I(4) pt ne])
    have fin: "finite (free_set b m')" using c by (metis card.infinite not_numeral_le_zero)
    then have c1: "Suc (card (free_set b m1)) = card (free_set b m')" unfolding F(6) using F(2) by (metis card.remove)
    obtain m2 T2 where P: "page_table_map hhdm_base pt (b, m1) (page_at va k) (frame_addr f) flags = (b, m2)"
      "mapped S pt b m T r va (Suc k) ((\<lambda>i. frame_addr (fs ! i))(k := frame_addr f AND NOT hhdm_base AND NOT (PAGE_SIZE - 1)))
         (insert f (set fs)) m2 T2" "card (free_set b m1) \<le> card (free_set b m2) + 3"
      by (rule mapped_page [OF F(5) pt, of "frame_addr f" flags]) (use c c1 k un n(2) sl [of k] in simp_all)
    have "((\<lambda>i. frame_addr (fs ! i))(k := frame_addr f AND NOT hhdm_base AND NOT (PAGE_SIZE - 1))) i = frame_addr ((fs @ [f]) ! i)"
      if "i < Suc k" for i using that I(2) by (auto simp: frame_masked [OF F(3)] nth_append)
    from mapped_cong [OF P(2) this]
    have "mapped S pt b m T r va (Suc k) (\<lambda>i. frame_addr ((fs @ [f]) ! i)) (set (fs @ [f])) m2 T2" by simp
    moreover have "page_table_map hhdm_base pt (b, m1) (va + of_nat k * PAGE_SIZE) (frame_addr f) flags = (b, m2)"
      using P(1) by (simp add: page_at_def)
    ultimately show "?I (Suc k) (if (0 :: u64) = 0 then let (frame, s') = frame_one s in
        page_table_map hhdm_base pt s' (va + of_nat k * PAGE_SIZE) frame flags else
        page_table_map hhdm_base pt s (va + of_nat k * PAGE_SIZE) (0 + of_nat k * PAGE_SIZE) flags)"
      using I(1-3,5) F(1,4) P(3) c1 by (intro exI [of _ m2] exI [of _ T2] exI [of _ "fs @ [f]"]) simp
  qed simp
  then show thesis using that unfolding un by blast
qed

text \<open>With given addresses, each round needs at most three frames.\<close>

lemma range_given:
  assumes t: "tree_on S b m T" "frames_apart b m" "T [] = Some r" and pt: "pt_phys_addr pt = frame_addr r"
    and n: "3 * n \<le> card (free_set b m)" "n < 2 ^ 36" and pa: "pa \<noteq> 0"
    and sl: "\<And>i. i < n \<Longrightarrow> unat (l4_index (page_at va i)) \<in> S"
  obtains m' T' where "page_table_map_range hhdm_base pt (b, m) va pa (of_nat n) flags = (b, m')"
    "mapped S pt b m T r va n (\<lambda>i. page_at pa i AND NOT hhdm_base AND NOT (PAGE_SIZE - 1)) {} m' T'"
proof -
  let ?tgt = "\<lambda>i. page_at pa i AND NOT hhdm_base AND NOT (PAGE_SIZE - 1)"
  let ?I = "\<lambda>k s. \<exists>m' T'. s = (b, m') \<and> mapped S pt b m T r va k ?tgt {} m' T' \<and> card (free_set b m) \<le> card (free_set b m') + 3 * k"
  have un: "unat (of_nat n :: u64) = n" using n(2) by simp
  have "?I (unat (of_nat n :: u64)) (page_table_map_range hhdm_base pt (b, m) va pa (of_nat n) flags)"
    unfolding page_table_map_range_def
  proof (rule for_loop_inv)
    show "?I (unat (0 :: u64)) (b, m)" using mapped_start [OF t] by auto
    fix k s assume k: "k < unat (of_nat n :: u64)" and "?I k s"
    then obtain m' T' where I: "s = (b, m')" "mapped S pt b m T r va k ?tgt {} m' T'" "card (free_set b m) \<le> card (free_set b m') + 3 * k"
      by blast
    have c: "3 \<le> card (free_set b m')" "k < 2 ^ 36" using I(3) n k un by simp_all
    obtain m2 T2 where P: "page_table_map hhdm_base pt (b, m') (page_at va k) (page_at pa k) flags = (b, m2)"
      "mapped S pt b m T r va (Suc k) (?tgt(k := ?tgt k)) {} m2 T2" "card (free_set b m') \<le> card (free_set b m2) + 3"
      by (rule mapped_page [OF I(2) pt c sl, of "page_at pa k" flags]) (use k un in simp_all)
    from mapped_cong [OF P(2), of ?tgt] have "mapped S pt b m T r va (Suc k) ?tgt {} m2 T2" by simp
    with P(1,3) show "?I (Suc k) (if pa = 0 then let (frame, s') = frame_one s in
        page_table_map hhdm_base pt s' (va + of_nat k * PAGE_SIZE) frame flags else
        page_table_map hhdm_base pt s (va + of_nat k * PAGE_SIZE) (pa + of_nat k * PAGE_SIZE) flags)"
      using I(1,3) pa by (intro exI [of _ m2] exI [of _ T2]) (simp add: page_at_def [symmetric])
  qed simp
  then show thesis using that unfolding un by blast
qed

section \<open>Properties\<close>

text \<open>C3: Mapping \<open>n\<close> pages with no address given, while four free frames a page are left, backs page \<open>i\<close> by a frame of its own: the frames are different,
  were free and are no longer, hold no table and not the bit map, and every other page that had a table translates as before. The
  tables form a tree again. Nothing is written but the bit map and tables: the frames given out keep their contents.\<close>

theorem map_range_fresh:
  assumes "tree_ok b m T" "frames_apart b m" "T [] = Some r" "pt_phys_addr pt = frame_addr r"
    and "4 * n \<le> card (free_set b m)" "n < 2 ^ 36"
  shows "\<exists>m' T' fs. page_table_map_range hhdm_base pt (b, m) va 0 (of_nat n) flags = (b, m') \<and>
    tree_ok b m' T' \<and> frames_apart b m' \<and> T' [] = Some r \<and>
    length fs = n \<and> distinct fs \<and> set fs \<subseteq> free_set b m - free_set b m' \<and> set fs \<inter> (ran T' \<union> map_frames b) = {} \<and>
    (\<forall>i < n. translate_addr hhdm_base pt m' (va + of_nat i * PAGE_SIZE) = frame_addr (fs ! i)) \<and>
    (\<forall>va'. T (path va') \<noteq> None \<and> (\<forall>i < n. (path va', leaf va') \<noteq> (path (page_at va i), leaf (page_at va i))) \<longrightarrow>
       translate_addr hhdm_base pt m' va' = translate_addr hhdm_base pt m va') \<and>
    pages_chg (map_frames b \<union> ran T') m m'"
proof -
  obtain m' T' fs where R: "page_table_map_range hhdm_base pt (b, m) va 0 (of_nat n) flags = (b, m')" "length fs = n" "distinct fs"
    "mapped UNIV pt b m T r va n (\<lambda>i. frame_addr (fs ! i)) (set fs) m' T'" by (rule range_fresh [OF assms UNIV_I])
  moreover have "set fs \<inter> map_frames b = {}" using R(4) assms(2) by (auto simp: mapped_def frames_apart_def)
  ultimately show ?thesis
    by (intro exI [of _ m'] exI [of _ T'] exI [of _ fs]) (auto simp: mapped_def page_at_def [symmetric])
qed

theorem map_range_fresh_witness:
  "\<exists>m' f. page_table_map_range hhdm_base demo_pt (demo_bm, demo_mem) 0x400000 0 1 3 = (demo_bm, m') \<and> f \<in> {4, 5, 6, 7} \<and>
     translate_addr hhdm_base demo_pt m' 0x400000 = frame_addr f"
proof -
  have c: "4 * 1 \<le> card (free_set demo_bm demo_mem)" unfolding demo_table_free_set by simp
  obtain m' T' fs where "page_table_map_range hhdm_base demo_pt (demo_bm, demo_mem) 0x400000 0 (of_nat 1) 3 = (demo_bm, m')"
    "length fs = 1" "set fs \<subseteq> free_set demo_bm demo_mem"
    "\<forall>i < 1. translate_addr hhdm_base demo_pt m' (0x400000 + of_nat i * PAGE_SIZE) = frame_addr (fs ! i)"
    using map_range_fresh [OF demo_tree demo_apart _ demo_root c, of "0x400000" 3] by auto
  then show ?thesis unfolding demo_table_free_set
    by (intro exI [of _ m'] exI [of _ "fs ! 0"]) (auto simp: subset_iff)
qed

end
