(* ===== verification/Boot.thy ===== *)
theory Boot
  imports Heap MapRange
begin

text \<open>
  Starting the heap: \<open>init_heap\<close> of \<^verbatim>\<open>mm/heap/heap.cpp\<close>, which \<^verbatim>\<open>heap::init\<close> calls at boot. It is where page tables, frames and the
  memory pool meet. After it come the facts about the start of the frame allocator that every mapping relies on, and
  that each page of the heap gets a frame of its own (\<open>start_backs_heap\<close>).
\<close>

text \<open>\<open>init_heap\<close> maps the heap region to fresh frames, page by page, and makes it one pool. The pages are read through the
  current page table; the frames behind them are not reached in any other way.\<close>

definition init_heap :: "u64 \<Rightarrow> u64 \<Rightarrow> bitmap \<Rightarrow> kheap \<Rightarrow> bitmap \<times> kheap" where
  "init_heap off cr3 bm h =
     (let (bm1, m1) = page_table_map_range off (from_current cr3 False) (bm, kh_mem h) KERNEL_HEAP_START 0
            (KERNEL_HEAP_SIZE div PAGE_SIZE) 3;
          (ok, pl, m2) = mpool_init (Some (kh_pool h)) KERNEL_HEAP_START KERNEL_HEAP_SIZE m1
      in (bm1, h\<lparr>kh_pool := the pl, kh_mem := m2\<rparr>))"

lemma init_heap_pool:
  assumes "init_heap off cr3 bm h = (bm1, h1)"
  obtains m1 pl m2 a k where "mpool_init (Some (kh_pool h)) heap_start heap_size m1 = (True, Some pl, m2)" "h1 = h\<lparr>kh_pool := pl, kh_mem := m2\<rparr>"
    "pool_inv a [Blk k True (heap_size = SIZE_2M)] pl m2" "mp_cb_reqmem pl = None" "2048 \<le> k"
proof -
  have K: "KERNEL_HEAP_START = heap_start" "KERNEL_HEAP_SIZE = heap_size"
    by (simp_all add: KERNEL_HEAP_START_def KERNEL_HEAP_SIZE_def)
  obtain m1 where m1: "page_table_map_range off (from_current cr3 False) (bm, kh_mem h) heap_start 0
      (heap_size div PAGE_SIZE) 3 = (bm1, m1)"
    using assms by (auto simp: init_heap_def K split: prod.splits)
  obtain pl m2 a k where I: "mpool_init (Some (kh_pool h)) heap_start heap_size m1 = (True, Some pl, m2)"
    "pool_inv a [Blk k True (heap_size = SIZE_2M)] pl m2" "mp_cb_reqmem pl = None" "2048 \<le> k"
    by (rule mpool_init_region [OF heap_region, of "kh_pool h" m1]) blast
  have "h1 = h\<lparr>kh_pool := pl, kh_mem := m2\<rparr>" using assms m1 I(1) by (simp add: init_heap_def K)
  with I show thesis using that by blast
qed

text \<open>C10: From boot on, the kernel heap behaves like the abstract heap. \<open>init_heap\<close>, with the lock free, leaves an empty heap;
  then any sequence of calls of \<open>malloc\<close> and \<open>free\<close>, and of stores into allocated blocks, runs to its end with results the
  abstract heap allows and with the lock free again, and what was stored in a block stays there. The only exception is a call the client may
  not make: after the calls before it have returned, with the results they gave, it frees or writes outside the blocks the client
  holds, or asks for too much.\<close>

theorem kernel_heap_refines:
  assumes "\<not> bit (sl_lock (kh_lock h)) 0" "init_heap off cr3 bm h = (bm1, h1)"
  shows "(\<exists>rs h2 H'. exec_all (exec heap_malloc heap_dealloc heap_store) h1 cs = Some (rs, h2) \<and> hrun Map.empty cs rs H' \<and>
       simulates heap_load heap_repr h2 H') \<or>
    (\<exists>cs1 c cs2 rs h2 H1. cs = cs1 @ c # cs2 \<and> exec_all (exec heap_malloc heap_dealloc heap_store) h1 cs1 = Some (rs, h2) \<and>
       hrun Map.empty cs1 rs H1 \<and> simulates heap_load heap_repr h2 H1 \<and> \<not> legal pool_lim H1 c)"
proof -
  obtain m1 pl m2 where I: "mpool_init (Some (kh_pool h)) heap_start heap_size m1 = (True, Some pl, m2)" "h1 = h\<lparr>kh_pool := pl, kh_mem := m2\<rparr>"
    by (rule init_heap_pool [OF assms(2)])
  have "simulates heap_load heap_repr h1 Map.empty"
    using mpool_init_simulates [OF heap_region I(1)] assms(1) I(2) by (simp add: simulates_def heap_repr_def)
  then show ?thesis by (rule kernel.run_simulates)
qed

text \<open>A block is allocated, its last byte written, and it is given back; then another is allocated.\<close>

theorem kernel_heap_refines_witness:
  "\<exists>h bm1 h1 p rs h2. init_heap 0xffff800000000000 0 demo_bm h = (bm1, h1) \<and>
     exec_all (exec heap_malloc heap_dealloc heap_store) h1 [Alloc 100, Store p 99 7, Free p, Alloc 20000] = Some (Some p # rs, h2)"
proof -
  obtain h :: kheap where h: "\<not> bit (sl_lock (kh_lock h)) 0" by (rule fresh_heap) blast
  obtain bm1 h1 where i: "init_heap 0xffff800000000000 0 demo_bm h = (bm1, h1)" by force
  obtain m1 pl m2 a k where I: "h1 = h\<lparr>kh_pool := pl, kh_mem := m2\<rparr>" "pool_inv a [Blk k True (heap_size = SIZE_2M)] pl m2"
    "mp_cb_reqmem pl = None" "2048 \<le> k" by (rule init_heap_pool [OF i]) blast
  have lim: "99 < (100 :: nat)" "(100 :: nat) < pool_lim" "(20000 :: nat) < pool_lim" by (simp_all add: pool_lim_def)
  obtain p pm1 where "pool_malloc (pl, m2) 100 = Some (Some p, pm1)"
    by (rule pool_malloc_fresh [OF I(2,3) lim(2)]) (use I(4) in \<open>auto simp: req_words_def\<close>)
  then have al: "heap_malloc h1 100 = Some (Some p, over h1 pm1)" using h I(1) by (simp add: over_simps(1))
  show ?thesis using client_runs [where alloc = heap_malloc, OF al lim kernel_heap_refines [OF h i]] i by blast
qed

section \<open>The frames at start-up\<close>

text \<open>The map lies where \<open>frame_init\<close> put it in the direct map: its bytes are in \<open>bitmap_frames\<close>, and those are usable frames.\<close>

lemma frame_init_map:
  assumes init: "frame_init hhdm_base entries m = Some (b, m')" and ok: "memmap_ok entries"
  shows "\<And>j. j < unat (bm_size b) \<Longrightarrow> page_no (bm_data b + of_nat j) \<in> bitmap_frames entries b"
    "\<And>f. f \<in> bitmap_frames entries b \<Longrightarrow> in_usable entries f" "unat (bm_size b) \<le> 2 ^ 32"
proof -
  obtain e where P: "unat (bm_size b) \<le> 2 ^ 32" "bm_data b = phys_to_virt hhdm_base (base e)" "bitmap_home entries (bm_size b) = base e" "e \<in> set entries" "usable e"
    "(unat (bm_size b) + 4095) div 4096 \<le> unat (len e) div 4096" "unat (base e) \<le> 2 ^ 46"
    "\<And>e. e \<in> set entries \<Longrightarrow> usable e \<Longrightarrow> unat (base e) mod 4096 = 0 \<and> unat (base e) div 4096 + unat (len e) div 4096 \<le> 8 * unat (bm_size b)"
    "m' = bitmap_set_range (fold (free_region b) entries (memset m (bm_data b) 0 (bm_size b div 8))) b (base e div PAGE_SIZE)
        (base e div PAGE_SIZE + (bm_size b + PAGE_SIZE - 1) div PAGE_SIZE) False"
    by (rule frame_init_parts [OF init ok]) (rule that)
  show "unat (bm_size b) \<le> 2 ^ 32" by (rule P(1))
  show "page_no (bm_data b + of_nat j) \<in> bitmap_frames entries b" if "j < unat (bm_size b)" for j
  proof -
    have "unat (base e + of_nat j) = unat (base e) + j" by (rule unat_add_of_nat) (use P(1,7) that in simp)
    then have "unat (bm_data b + of_nat j - hhdm_base) = unat (base e) + j" by (simp add: P(2) phys_to_virt_def algebra_simps)
    moreover have "unat (base e) mod 4096 = 0" using P(8) [OF P(4,5)] by simp
    moreover have "(a + j) div 4096 < a div 4096 + (s + 4095) div 4096" "a div 4096 \<le> (a + j) div 4096"
      if "a mod 4096 = 0" "j < s" for a s :: nat
    proof -
      have "a = 4096 * (a div 4096)" using mult_div_mod_eq [of 4096 a] that(1) by simp
      then obtain q where "a = 4096 * q" by blast
      moreover have "j div 4096 < (s + 4095) div 4096" using that(2) by linarith
      ultimately show "(a + j) div 4096 < a div 4096 + (s + 4095) div 4096" "a div 4096 \<le> (a + j) div 4096" by simp_all
    qed
    ultimately show ?thesis using that by (simp add: page_no_def bitmap_frames_def P(3))
  qed
  show "in_usable entries f" if "f \<in> bitmap_frames entries b" for f
    using that P(4-6) unfolding in_usable_def bitmap_frames_def P(3) by auto
qed

lemma frame_init_starts:
  assumes init: "frame_init hhdm_base entries m = Some (b, m')" and ok: "memmap_ok entries"
  shows "frames_apart b m'" "map_frames b \<subseteq> bitmap_frames entries b" "pages_chg (bitmap_frames entries b) m m'"
proof -
  note M = frame_init_map [OF init ok]
  show sub: "map_frames b \<subseteq> bitmap_frames entries b"
  proof -
    have "i div 8 < unat (bm_size b)" if "i < frame_cap b" for i using that frame_cap_le [of b] by linarith
    then show ?thesis using M(1) by (auto simp: map_frames_def)
  qed
  have "frame_cap b \<le> 2 ^ 35" "frames_ok b" using M(3) frame_cap_le [of b] by (simp_all add: frames_ok_def)
  then show "frames_apart b m'" using sub by (auto simp: frames_apart_def frame_init_free [OF init])
  have "m' x = m x" if "page_no x \<notin> bitmap_frames entries b" for x
    by (rule frame_init_writes [OF init ok]) (use that M(1) in auto)
  then show "pages_chg (bitmap_frames entries b) m m'" by (simp add: pages_chg_def)
qed

text \<open>A tree of tables made by someone else, of whose frames no bit map knows.\<close>

definition no_map :: bitmap where
  "no_map = \<lparr>bm_data = 0, bm_size = 0\<rparr>"

lemma no_map_frames: "free_set no_map m = {}" "map_frames no_map = {}"
  by (simp_all add: no_map_def free_set_def map_frames_def frame_cap_def)

lemma frame_init_tree:
  assumes init: "frame_init hhdm_base entries m = Some (b, m')" and ok: "memmap_ok entries"
    and T: "tree_ok no_map m T" and sep: "\<And>f. f \<in> ran T \<Longrightarrow> \<not> in_usable entries f"
  shows "tree_ok b m' T"
proof -
  note S = frame_init_starts [OF init ok] and M = frame_init_map [OF init ok]
  have out: "f \<notin> free_set b m' \<and> f \<notin> bitmap_frames entries b \<and> f \<notin> map_frames b \<and> f < 2 ^ 35" if "T p = Some f" for p f
    using sep [of f] that M(2) [of f] S(2) tree_frame [OF T that] by (auto simp: ran_def frame_init_free [OF init])
  have "ent m' f i = ent m f i" if "T p = Some f" "i < 512" for p f i
    by (rule pages_chg_ent [OF S(3)]) (use out [OF that(1)] that(2) in auto)
  then show ?thesis using T out unfolding tree_on_def by simp
qed

text \<open>C23: From the boot loader's memory map and tables, \<open>frame_init\<close> establishes what every mapping relies on. Exactly the usable frames that the map
  covers, less those that hold it, are free; the map lies in usable frames and none of its frames is free; only frames of the map were written, so that the
  loader's tables, which it puts outside the usable regions, still form their tree, now apart from the free frames and from the map.\<close>

theorem frame_init_establishes:
  assumes "frame_init hhdm_base entries m = Some (b, m')" "memmap_ok entries"
    and "tree_ok no_map m T" "\<And>f. f \<in> ran T \<Longrightarrow> \<not> in_usable entries f"
  shows "free_set b m' = {i. i < frame_cap b \<and> in_usable entries i} - bitmap_frames entries b \<and>
    frames_apart b m' \<and> tree_ok b m' T \<and> pages_chg (bitmap_frames entries b) m m' \<and> (\<forall>f \<in> bitmap_frames entries b. in_usable entries f)"
  using frame_init_free [OF assms(1)] frame_init_starts [OF assms(1,2)] frame_init_tree [OF assms] frame_init_map(2) [OF assms(1,2)] by blast

definition demo_entries :: "memmap_entry list" where
  "demo_entries = [\<lparr>base = 0, len = 0x100000, usable = False\<rparr>, \<lparr>base = 0x100000, len = 0x1000000, usable = True\<rparr>]"

lemma demo_usable: "in_usable demo_entries i = (256 \<le> i \<and> i < 4352)"
  by (auto simp: in_usable_def demo_entries_def)

lemma zero_tree: "tree_ok no_map (\<lambda>_. 0) [[] \<mapsto> 1]"
proof -
  have "ent (\<lambda>_. 0) 1 i = 0" if "i < 512" for i
    using pcell_bound [of 1 i] that by (simp add: ent_def rd64_adr [symmetric] rd64_def upt_rec)
  then show ?thesis by (auto simp: tree_on_def no_map_frames split: if_splits)
qed

theorem frame_init_establishes_witness:
  "\<exists>b m'. frame_init hhdm_base demo_entries (\<lambda>_. 0) = Some (b, m') \<and> frames_apart b m' \<and> tree_ok b m' [[] \<mapsto> 1] \<and>
     free_set b m' = {256..<544} - {256}"
proof -
  let ?b = "\<lparr>bm_data = 0xffff800000100000, bm_size = 544\<rparr> :: bitmap"
  have ok: "memmap_ok demo_entries" by (simp add: memmap_ok_def demo_entries_def get_memory_size_def PAGE_SIZE_def)
  obtain m' where F: "frame_init hhdm_base demo_entries (\<lambda>_. 0) = Some (?b, m')"
    by (simp add: frame_init_def get_memory_size_def demo_entries_def bitmap_init_def bitmap_home_def phys_to_virt_def hhdm_base_def PAGE_SIZE_def Let_def)
  have "bitmap_home demo_entries 544 = 0x100000" by (simp add: bitmap_home_def demo_entries_def)
  then have E: "{i. i < frame_cap ?b \<and> in_usable demo_entries i} - bitmap_frames demo_entries ?b = {256..<544} - {256}"
    by (auto simp: demo_usable frame_cap_def bitmap_frames_def)
  show ?thesis using frame_init_establishes [OF F ok zero_tree] F unfolding E by (auto simp: demo_usable)
qed

section \<open>The pages of the heap\<close>

text \<open>The heap starts 64 TiB above the direct map of physical memory: what is written there changes no frame below that.\<close>

lemma heap_write_pages:
  assumes "\<And>x. unat x < unat heap_start \<Longrightarrow> m' x = m x"
  shows "pages_chg {f. 2 ^ 34 \<le> f} m m'"
  unfolding pages_chg_def
proof (intro allI impI)
  fix x
  assume "page_no x \<notin> {f. 2 ^ 34 \<le> f}"
  then have d: "unat (x - hhdm_base) < 2 ^ 46" by (simp add: page_no_def div_less_iff_less_mult)
  have "unat (hhdm_base + of_nat (unat (x - hhdm_base))) = unat hhdm_base + unat (x - hhdm_base)"
    by (rule unat_add_of_nat) (use d in \<open>simp add: hhdm_base_def\<close>)
  then have "unat x = unat hhdm_base + unat (x - hhdm_base)" by simp
  also have "\<dots> < unat heap_start" using d by (simp add: hhdm_base_def)
  finally show "m' x = m x" by (rule assms)
qed

text \<open>All pages of the heap are below one top-level entry.\<close>

lemma heap_slot: "i < 2048 \<Longrightarrow> unat (l4_index (page_at heap_start i)) = 384"
proof -
  assume i: "i < 2048"
  have "(18446673704965373952 + 4096 * i) div 549755813888 = 33554304" by (rule div_nat_eqI) (use i in simp_all)
  then show ?thesis unfolding l4_index_def unat_index by (subst unat_page_at) (use i in simp_all)
qed

lemma heap_slot_start: "unat (l4_index KERNEL_HEAP_START) = 384"
  using heap_slot [of 0] by (simp add: page_at_def KERNEL_HEAP_START_def)

text \<open>Starting the heap maps all of it. While 8192 frames are free and the frames of tables and bit map lie in the first 64 TiB, each of the
  2048 pages of the heap region translates, after \<open>init_heap\<close>, to a frame of its own that was free before and is no longer; the tables still form
  a tree, and none of these frames holds a table or the bit map, so that the heap cannot write to either. The tree is only that below
  the top-level entry of the heap.\<close>

lemma heap_backed:
  assumes t: "tree_on {384} b (kh_mem h) T" "frames_apart b (kh_mem h)" "T [] = Some r" and cr3: "cr3 = frame_addr r"
    and n: "8192 \<le> card (free_set b (kh_mem h))" and low: "ran T \<union> map_frames b \<subseteq> {..<2 ^ 34}" "frame_cap b \<le> 2 ^ 34"
  obtains h1 fs R where "init_heap hhdm_base cr3 b h = (b, h1)" "length fs = 2048" "distinct fs"
    "set fs \<subseteq> free_set b (kh_mem h) - free_set b (kh_mem h1)" "set fs \<inter> (R \<union> map_frames b) = {}" "r \<in> R"
    "\<And>g. g \<in> R \<Longrightarrow> g \<in> ran T \<or> g \<in> free_set b (kh_mem h)"
    "\<And>i. i < 2048 \<Longrightarrow> translate_addr hhdm_base (from_current cr3 False) (kh_mem h1) (KERNEL_HEAP_START + of_nat i * PAGE_SIZE) = frame_addr (fs ! i)"
    "\<And>j. j < 512 \<Longrightarrow> j \<noteq> 384 \<Longrightarrow> ent (kh_mem h1) r j = ent (kh_mem h) r j"
    "pages_chg (map_frames b \<union> R \<union> {f. 2 ^ 34 \<le> f}) (kh_mem h) (kh_mem h1)"
proof -
  let ?pt = "from_current cr3 False"
  have K: "KERNEL_HEAP_START = heap_start" "KERNEL_HEAP_SIZE = heap_size" "heap_size div PAGE_SIZE = of_nat 2048"
    by (simp_all add: KERNEL_HEAP_START_def KERNEL_HEAP_SIZE_def PAGE_SIZE_def)
  have pt: "pt_phys_addr ?pt = frame_addr r" by (simp add: from_current_def cr3)
  obtain m1 T' fs where R: "page_table_map_range hhdm_base ?pt (b, kh_mem h) heap_start 0 (of_nat 2048) 3 = (b, m1)"
    "length fs = 2048" "distinct fs" "mapped {384} ?pt b (kh_mem h) T r heap_start 2048 (\<lambda>i. frame_addr (fs ! i)) (set fs) m1 T'"
    by (rule range_fresh [OF t pt, of 2048 heap_start 3]) (use n heap_slot in auto)
  note D = mappedD [OF R(4)]
  obtain pl m2 a k where I: "mpool_init (Some (kh_pool h)) heap_start heap_size m1 = (True, Some pl, m2)" "chg {a..<a + k + 4} m1 m2"
    "unat heap_start = 8 * a"
    by (rule mpool_init_region [OF heap_region, of "kh_pool h" m1]) (rule that)
  have ch: "pages_chg {f. 2 ^ 34 \<le> f} m1 m2"
    by (rule heap_write_pages, rule byte_cell [OF I(2) [unfolded add.assoc]]) (use I(3) in simp)
  have tabs: "{f. 2 ^ 34 \<le> f} \<inter> ran T' = {}"
    using D(5) low by (fastforce simp: ran_def free_set_def)
  have fr: "free_set b m2 = free_set b m1" by (rule pages_chg_free [OF ch]) (use low(1) in auto)
  note E = tree_kept [OF D(1-3) pt _ ch tabs, OF eq_refl [OF fr]]
  have "init_heap hhdm_base cr3 b h = (b, h\<lparr>kh_pool := pl, kh_mem := m2\<rparr>)" unfolding init_heap_def K R(1) Let_def prod.case using I(1) by simp
  moreover have "set fs \<inter> (ran T' \<union> map_frames b) = {}" using D(7,9) t(2) by (auto simp: frames_apart_def)
  moreover have "translate_addr hhdm_base ?pt m2 (KERNEL_HEAP_START + of_nat i * PAGE_SIZE) = frame_addr (fs ! i)" if "i < 2048" for i
    using E(3) [OF D(10) [OF that]] D(11) [OF that] by (simp add: K page_at_def)
  moreover have "ent m2 r j = ent (kh_mem h) r j" if "j < 512" "j \<noteq> 384" for j
    using E(4) [OF D(3)] D(15) that by simp
  moreover have tb: "g \<in> ran T \<or> g \<in> free_set b (kh_mem h)" if "g \<in> ran T'" for g
    using that D(5) by (fastforce simp: ran_def)
  moreover have "pages_chg (map_frames b \<union> ran T' \<union> {f. 2 ^ 34 \<le> f}) (kh_mem h) m2" by (rule pages_chg_trans [OF D(14) ch])
  ultimately show thesis by (intro that [of "h\<lparr>kh_pool := pl, kh_mem := m2\<rparr>" fs "ran T'", OF _ R(2,3)]) (use ranI [of T' "[]" r] D(3) tb D(7,8) fr in auto)
qed

text \<open>A root table whose entry for the heap is empty is such a tree, whatever the other entries are.\<close>

lemma root_tree:
  assumes "r < 2 ^ 35" "r \<notin> free_set b m" "r \<notin> map_frames b" "ent m r s = 0"
  shows "tree_on {s} b m [[] \<mapsto> r]"
  using assms by (auto simp: tree_on_def split: if_splits)

text \<open>C4: From the boot loader to the kernel heap. The frame allocator has started on the loader's memory map, and since then frames have only been taken.
  The top-level table is not in usable memory, and maps nothing yet in the region of the heap; nothing is assumed of what
  it maps elsewhere, so it may be the loader's. Then, while 8192 frames are free, the start of the heap backs each of its 2048
  pages by a frame of its own: a frame of usable memory that was free and is no longer, and that holds neither the bit map, nor the top-level table, nor a
  table made for these pages. All other top-level entries stay, and in the first 64 TiB nothing is written but the bit map, the top-level table and the
  frames taken for tables: whatever else the loader mapped stays mapped.\<close>

theorem start_backs_heap:
  assumes init: "frame_init hhdm_base entries m = Some (b, m1)" "memmap_ok entries"
    and taken: "free_set b (kh_mem h) \<subseteq> free_set b m1" "8192 \<le> card (free_set b (kh_mem h))"
    and root: "r < 2 ^ 34" "\<not> in_usable entries r" "ent (kh_mem h) r (unat (l4_index KERNEL_HEAP_START)) = 0"
  shows "\<exists>h1 fs ts. init_heap hhdm_base (frame_addr r) b h = (b, h1) \<and>
    length fs = 2048 \<and> distinct fs \<and> (\<forall>f \<in> set fs. in_usable entries f) \<and> set fs \<subseteq> free_set b (kh_mem h) - free_set b (kh_mem h1) \<and>
    ts \<subseteq> free_set b (kh_mem h) \<and> set fs \<inter> (map_frames b \<union> insert r ts) = {} \<and>
    (\<forall>i < 2048. translate_addr hhdm_base (from_current (frame_addr r) False) (kh_mem h1) (KERNEL_HEAP_START + of_nat i * PAGE_SIZE) =
       frame_addr (fs ! i)) \<and>
    (\<forall>j < 512. j \<noteq> unat (l4_index KERNEL_HEAP_START) \<longrightarrow> ent (kh_mem h1) r j = ent (kh_mem h) r j) \<and>
    (\<forall>x. page_no x < 2 ^ 34 \<and> page_no x \<notin> map_frames b \<union> insert r ts \<longrightarrow> kh_mem h1 x = kh_mem h x)"
proof -
  note S = frame_init_starts [OF init] and M = frame_init_map [OF init] and F = frame_init_free [OF init(1)]
  have us: "in_usable entries f" if "f \<in> free_set b (kh_mem h) \<or> f \<in> map_frames b" for f
    using that taken(1) S(2) M(2) unfolding F by blast
  have ap: "frames_apart b (kh_mem h)" using S(1) taken(1) by (auto simp: frames_apart_def)
  have cap: "frame_cap b \<le> 2 ^ 34" using M(3) frame_cap_le [of b] by simp
  let ?R = "[[] \<mapsto> r] :: nat list \<rightharpoonup> nat"
  have low: "ran ?R \<union> map_frames b \<subseteq> {..<2 ^ 34}"
    using root(1) us in_usable_less [OF init(2)] by auto
  have t: "tree_on {384} b (kh_mem h) ?R"
    using root us by (intro root_tree) (auto simp: heap_slot_start)
  have T0: "?R [] = Some r" by simp
  obtain h1 fs R where H: "init_heap hhdm_base (frame_addr r) b h = (b, h1)" "length fs = 2048" "distinct fs"
    "set fs \<subseteq> free_set b (kh_mem h) - free_set b (kh_mem h1)" "set fs \<inter> (R \<union> map_frames b) = {}" "r \<in> R"
    "\<And>g. g \<in> R \<Longrightarrow> g \<in> ran ?R \<or> g \<in> free_set b (kh_mem h)"
    "\<And>i. i < 2048 \<Longrightarrow> translate_addr hhdm_base (from_current (frame_addr r) False) (kh_mem h1) (KERNEL_HEAP_START + of_nat i * PAGE_SIZE) = frame_addr (fs ! i)"
    "\<And>j. j < 512 \<Longrightarrow> j \<noteq> 384 \<Longrightarrow> ent (kh_mem h1) r j = ent (kh_mem h) r j"
    "pages_chg (map_frames b \<union> R \<union> {f. 2 ^ 34 \<le> f}) (kh_mem h) (kh_mem h1)"
    by (rule heap_backed [OF t ap T0 refl taken(2) low cap]) (rule that)
  have "g = r \<or> g \<in> free_set b (kh_mem h)" if "g \<in> R" for g
    using that H(7) by auto
  then have ts: "R = insert r (R - {r})" "R - {r} \<subseteq> free_set b (kh_mem h)" using H(6) by auto
  have w: "kh_mem h1 x = kh_mem h x" if "page_no x < 2 ^ 34 \<and> page_no x \<notin> map_frames b \<union> insert r (R - {r})" for x
    using H(10) that ts(1) by (auto simp: pages_chg_def)
  show ?thesis
    by (rule exI [of _ h1], rule exI [of _ fs], rule exI [of _ "R - {r}"])
      (use H(1-5,8,9) ts us w in \<open>auto simp: heap_slot_start\<close>)
qed

text \<open>A machine with 513 megabytes, the first of them not usable. The loader's top table is in the second frame, and maps the direct map through
  an entry that has the accessed bit set.\<close>

definition large_entries :: "memmap_entry list" where
  "large_entries = [\<lparr>base = 0, len = 0x100000, usable = False\<rparr>, \<lparr>base = 0x100000, len = 0x20000000, usable = True\<rparr>]"

definition loader_mem :: mem where
  "loader_mem = wr64 (\<lambda>_. 0) (adr (pcell 1 256)) 0x2023"

lemma large_usable: "in_usable large_entries i = (256 \<le> i \<and> i < 131328)"
  by (auto simp: in_usable_def large_entries_def)

lemma loader_root: "ent loader_mem 1 384 = 0"
proof -
  have "ent (\<lambda>_. 0) 1 384 = 0" using tree_ent [OF zero_tree, of "[]" 1 384] by simp
  then show ?thesis unfolding loader_mem_def using wr_ent [of 1 256 384 "\<lambda>_. 0" "0x2023" 1] by simp
qed

lemma large_start:
  obtains b m1 where "frame_init hhdm_base large_entries loader_mem = Some (b, m1)" "8192 \<le> card (free_set b m1)" "ent m1 1 384 = 0"
    "memmap_ok large_entries"
proof -
  let ?b = "\<lparr>bm_data = 0xffff800000100000, bm_size = 16416\<rparr> :: bitmap"
  obtain m1 where F: "frame_init hhdm_base large_entries loader_mem = Some (?b, m1)"
    by (simp add: frame_init_def get_memory_size_def large_entries_def bitmap_init_def bitmap_home_def phys_to_virt_def hhdm_base_def PAGE_SIZE_def Let_def)
  have ok: "memmap_ok large_entries" by (simp add: memmap_ok_def large_entries_def get_memory_size_def PAGE_SIZE_def)
  have home: "bitmap_home large_entries 16416 = 0x100000" by (simp add: bitmap_home_def large_entries_def)
  then have "{261..<16416} \<subseteq> free_set ?b m1"
    unfolding frame_init_free [OF F] by (auto simp: large_usable frame_cap_def bitmap_frames_def)
  then have "card {261..<16416 :: nat} \<le> card (free_set ?b m1)" by (rule card_mono [OF finite_free_set])
  moreover have "ent m1 1 384 = ent loader_mem 1 384"
    by (rule pages_chg_ent [OF frame_init_starts(3) [OF F ok]]) (use home in \<open>simp_all add: bitmap_frames_def\<close>)
  ultimately show thesis using that [OF F _ _ ok] by (simp add: loader_root del: One_nat_def)
qed

theorem start_backs_heap_witness:
  "\<exists>b m1 h h1 f. frame_init hhdm_base large_entries loader_mem = Some (b, m1) \<and> kh_mem h = m1 \<and>
     init_heap hhdm_base (frame_addr 1) b h = (b, h1) \<and> 256 \<le> f \<and> f < 131328 \<and>
     translate_addr hhdm_base (from_current 4096 False) (kh_mem h1) 0xffffc00000000000 = frame_addr f"
proof -
  obtain b m1 where F: "frame_init hhdm_base large_entries loader_mem = Some (b, m1)" "8192 \<le> card (free_set b m1)" "ent m1 1 384 = 0"
    "memmap_ok large_entries" by (rule large_start)
  obtain h0 :: kheap where "\<not> bit (sl_lock (kh_lock h0)) 0" by (rule fresh_heap) blast
  let ?h = "h0\<lparr>kh_mem := m1\<rparr>"
  have hm: "kh_mem ?h = m1" by simp
  have r: "(1 :: nat) < 2 ^ 34" "\<not> in_usable large_entries 1" "ent (kh_mem ?h) 1 (unat (l4_index KERNEL_HEAP_START)) = 0"
    using F(3) by (simp_all add: large_usable heap_slot_start)
  obtain h1 fs where H: "init_heap hhdm_base (frame_addr 1) b ?h = (b, h1)" "length fs = 2048" "\<forall>f \<in> set fs. in_usable large_entries f"
    "\<forall>i < 2048. translate_addr hhdm_base (from_current (frame_addr 1) False) (kh_mem h1) (KERNEL_HEAP_START + of_nat i * PAGE_SIZE) =
       frame_addr (fs ! i)"
    using start_backs_heap [OF F(1,4) _ _ r] F(2) hm by auto
  have "fs ! 0 \<in> set fs" using H(2) by simp
  then have "256 \<le> fs ! 0" "fs ! 0 < 131328" using H(3) by (auto simp: large_usable)
  moreover have "frame_addr 1 = 4096" by (simp add: frame_addr_def)
  ultimately show ?thesis using F(1) hm H(1) H(4) [rule_format, of 0]
    by (intro exI [of _ b] exI [of _ m1] exI [of _ ?h] exI [of _ h1] exI [of _ "fs ! 0"]) (simp add: KERNEL_HEAP_START_def)
qed

end
