(* ===== verification/LargeBlk.thy ===== *)
theory LargeBlk
  imports Heap
begin

unbundle bit_operations_syntax

text \<open>
  The table of large blocks: \<^verbatim>\<open>mm/alloc/large-blk.hpp\<close>.

  An allocation of \<open>ALLOC_LARGE_BLK_SIZE\<close> bytes or more comes straight from the embedder's callback. What was allocated is
  remembered in sixteen lists of nodes, chosen by a hash of the address. A node is four words of kernel heap memory: \<open>next\<close>,
  \<open>prev\<close>, the address and the size of the allocation. The table is the list of the sixteen heads; heap and memory are the
  record \<open>kheap\<close>.

  The callbacks are pointers that may be null. \<open>None\<close> is a call that does not return: a null callback is called, the heap
  does not return, or a list walk does not end.

  \<open>large_blk_alloc\<close> clears the links of the node it has just put at the head of its list, so a list never has more than one
  node: \<open>large_alloc_free\<close> shows that the newest allocation of a list is found and released, \<open>large_alloc_forgets\<close> that every
  other one is lost.
\<close>

type_synonym cb_reqmem = "u64 \<Rightarrow> u64 \<Rightarrow> mem \<Rightarrow> u64 \<times> mem"
type_synonym cb_delmem = "u64 \<Rightarrow> u64 \<Rightarrow> mem \<Rightarrow> mem"

definition ALLOC_LARGE_BLK_SIZE :: u64 where "ALLOC_LARGE_BLK_SIZE = 16384"
definition LARGEBLKLIST_NUM :: u64 where "LARGEBLKLIST_NUM = 16"

definition LARGE_BLK_BYTES :: u64 where "LARGE_BLK_BYTES = 32"

definition large_blk_blokp :: "u64 \<Rightarrow> nat" where
  "large_blk_blokp p =
     unat (((p div SIZE_4k) OR (p div SIZE_4k div LARGEBLKLIST_NUM div 2)) mod LARGEBLKLIST_NUM)"

definition large_blk_put :: "u64 list \<Rightarrow> u64 \<Rightarrow> u64 \<Rightarrow> kheap \<Rightarrow> (u64 \<times> u64 list \<times> kheap) option" where
  "large_blk_put lblks p s h = do {
     let i = large_blk_blokp p;
     (blk, h1) \<leftarrow> malloc h LARGE_BLK_BYTES;
     if blk = 0 then Some (0, lblks, h1)
     else
       let m1 = wr64 (wr64 (kh_mem h1) (blk + 16) p) (blk + 24) s;
           (hd, m2) = freelist_put m1 (lblks ! i) blk
       in Some (blk, lblks[i := hd], h1\<lparr>kh_mem := m2\<rparr>) }"

definition large_blk_find :: "u64 list \<Rightarrow> u64 \<Rightarrow> mem \<Rightarrow> u64 option" where
  "large_blk_find lblks p m = freelist_scan (\<lambda>blk. rd64 m (blk + 16) = p) m (lblks ! large_blk_blokp p)"

definition large_blk_alloc ::
  "u64 \<Rightarrow> u64 list \<Rightarrow> cb_reqmem option \<Rightarrow> cb_delmem option \<Rightarrow> kheap \<Rightarrow> (u64 \<times> u64 list \<times> kheap) option" where
  "large_blk_alloc s0 lblks reqmem delmem h = do {
     let s = PADDING_4k s0;
     rq \<leftarrow> reqmem;
     let (p, m1) = rq 0 s (kh_mem h);
     if p = 0 then Some (0, lblks, h\<lparr>kh_mem := m1\<rparr>)
     else do {
       (blk, blks1, h1) \<leftarrow> large_blk_put lblks p s (h\<lparr>kh_mem := m1\<rparr>);
       if blk = 0 then do {
         dl \<leftarrow> delmem;
         Some (0, blks1, h1\<lparr>kh_mem := dl p s (kh_mem h1)\<rparr>) }
       else
         let m2 = wr64 (kh_mem h1) (blk + 16) p;
             m3 = wr64 m2 (blk + 24) s;
             m4 = wr64 m3 (blk + 8) 0;
             m5 = wr64 m4 blk 0
         in Some (p, blks1, h1\<lparr>kh_mem := m5\<rparr>) } }"

definition large_blk_free ::
  "u64 list \<Rightarrow> u64 \<Rightarrow> cb_delmem option \<Rightarrow> kheap \<Rightarrow> (bool \<times> u64 list \<times> kheap) option" where
  "large_blk_free lblks p delmem h = do {
     let i = large_blk_blokp p;
     blk \<leftarrow> large_blk_find lblks p (kh_mem h);
     if blk = 0 then Some (False, lblks, h)
     else do {
       let (hd, m1) = freelist_detach (kh_mem h) (lblks ! i) blk;
       dl \<leftarrow> delmem;
       h2 \<leftarrow> free (h\<lparr>kh_mem := dl (rd64 m1 (blk + 16)) (rd64 m1 (blk + 24)) m1\<rparr>) blk;
       Some (True, lblks[i := hd], h2) } }"

lemma blokp_less [simp]: "large_blk_blokp p < 16"
proof -
  have "w mod 16 < (16 :: u64)" for w by (rule word_mod_less_divisor) simp
  then show ?thesis by (simp add: large_blk_blokp_def LARGEBLKLIST_NUM_def word_less_nat_alt)
qed

text \<open>An allocation that succeeds leaves the bucket of its address with exactly one node, its own.\<close>

definition only_node :: "u64 list \<Rightarrow> mem \<Rightarrow> u64 \<Rightarrow> u64 \<Rightarrow> u64 \<Rightarrow> bool" where
  "only_node lblks m blk p s \<longleftrightarrow> blk \<noteq> 0 \<and> lblks ! large_blk_blokp p = blk \<and> rd64 m blk = 0 \<and>
     rd64 m (blk + 16) = p \<and> rd64 m (blk + 24) = s"

lemma large_alloc_node:
  assumes len: "length lblks = 16" and rq: "rq 0 (PADDING_4k s) (kh_mem h) = (p, m1)" "p \<noteq> 0"
    and node: "malloc (h\<lparr>kh_mem := m1\<rparr>) LARGE_BLK_BYTES = Some (blk, h1)" "blk \<noteq> 0"
  obtains m' where
    "large_blk_alloc s lblks (Some rq) dl h = Some (p, lblks[large_blk_blokp p := blk], h1\<lparr>kh_mem := m'\<rparr>)"
    "only_node (lblks[large_blk_blokp p := blk]) m' blk p (PADDING_4k s)"
proof -
  let ?i = "large_blk_blokp p" and ?s = "PADDING_4k s"
  define m2 where "m2 = snd (freelist_put (wr64 (wr64 (kh_mem h1) (blk + 16) p) (blk + 24) ?s) (lblks ! ?i) blk)"
  define m' where "m' = wr64 (wr64 (wr64 (wr64 m2 (blk + 16) p) (blk + 24) ?s) (blk + 8) 0) blk 0"
  have "fst (freelist_put m x blk) = blk" for m x by (simp add: freelist_put_def Let_def)
  then have put: "large_blk_put lblks p ?s (h\<lparr>kh_mem := m1\<rparr>) = Some (blk, lblks[?i := blk], h1\<lparr>kh_mem := m2\<rparr>)"
    using node by (simp add: large_blk_put_def split_beta m2_def Let_def)
  have "large_blk_alloc s lblks (Some rq) dl h = Some (p, lblks[?i := blk], h1\<lparr>kh_mem := m'\<rparr>)"
    using rq node(2) put by (simp add: large_blk_alloc_def m'_def)
  moreover have "only_node (lblks[?i := blk]) m' blk p ?s"
    using len node(2) by (simp add: only_node_def m'_def)
  ultimately show thesis by (rule that)
qed

lemma find_only_node:
  assumes "only_node lblks m blk p s" "large_blk_blokp q = large_blk_blokp p"
  shows "large_blk_find lblks q m = Some (if q = p then blk else 0)"
proof -
  have 0: "freelist_scan fits m 0 = Some 0" for fits by (subst freelist_scan.simps) simp
  from assms have n: "lblks ! large_blk_blokp q = blk" "blk \<noteq> 0" "rd64 m blk = 0" "(rd64 m (blk + 16) = q) = (q = p)"
    by (auto simp: only_node_def)
  show ?thesis
    unfolding large_blk_find_def n(1) by (subst freelist_scan.simps) (simp add: n 0)
qed

text \<open>A fresh kernel heap has room for a node.\<close>

lemma fresh_node:
  obtains h blk h1 where "heap_repr h Map.empty" "malloc h LARGE_BLK_BYTES = Some (blk, h1)" "blk \<noteq> 0"
proof -
  obtain pl m a k where I: "mpool_init (Some blank_pool) heap_start heap_size (\<lambda>_. 0) = (True, Some pl, m)"
    "pool_inv a [Blk k True (heap_size = SIZE_2M)] pl m" "mp_cb_reqmem pl = None" "2048 \<le> k"
    by (rule mpool_init_region [OF heap_region, of blank_pool "\<lambda>_. 0"]) blast
  let ?h = "\<lparr>kh_pool = pl, kh_mem = m, kh_lock = SPIN_INIT, kh_rflags = 0x202\<rparr>"
  have "sizes Map.empty = Map.empty" by (auto simp: sizes_def)
  then have r: "heap_repr ?h Map.empty"
    using mpool_init_simulates [OF heap_region I(1)] by (simp add: simulates_def heap_repr_def SPIN_INIT_def)
  have "req_words LARGE_BLK_BYTES = 4" by (simp add: req_words_def LARGE_BLK_BYTES_def)
  then obtain p pm where al: "mpool_alloc (pl, m) LARGE_BLK_BYTES = Some (adr p, pm)" "(p, Blk k True (heap_size = SIZE_2M)) \<in> blks a [Blk k True (heap_size = SIZE_2M)]"
    using mpool_alloc_st [OF I(2,3), of LARGE_BLK_BYTES] I(4)
    by (fastforce simp: no_fit_def LARGE_BLK_BYTES_def Cons_eq_append_conv)
  have "area (cells m) a [Blk k True (heap_size = SIZE_2M)]" using I(2) by (simp add: pool_inv_def pool_st_def)
  from area_blk(3,4) [OF this al(2)] have "adr p \<noteq> 0" by simp
  moreover have "\<not> bit (sl_lock (kh_lock ?h)) 0" by (simp add: SPIN_INIT_def)
  then have "\<exists>h1. malloc ?h LARGE_BLK_BYTES = Some (adr p, h1)"
    unfolding malloc_def by (subst locked_eq, assumption) (simp add: al(1) split_beta)
  ultimately show thesis using that r by blast
qed

section \<open>Properties\<close>

text \<open>C29: an allocation of a large block that gets memory from the callback and a node from the heap returns that memory, and
  \<open>large_blk_free\<close> of its address finds the node, gives the same memory back with its size rounded up to whole pages, releases the
  node and empties its list.\<close>

theorem large_alloc_free:
  assumes "length lblks = 16" "rq 0 (PADDING_4k s) (kh_mem h) = (p, m1)" "p \<noteq> 0"
    and "malloc (h\<lparr>kh_mem := m1\<rparr>) LARGE_BLK_BYTES = Some (blk, h1)" "blk \<noteq> 0"
  shows "\<exists>lblks' h'. large_blk_alloc s lblks (Some rq) delmem h = Some (p, lblks', h') \<and>
    large_blk_free lblks' p (Some dl) h' =
      map_option (\<lambda>h2. (True, lblks'[large_blk_blokp p := 0], h2))
        (free (h'\<lparr>kh_mem := dl p (PADDING_4k s) (kh_mem h')\<rparr>) blk)"
proof -
  obtain m' where A: "large_blk_alloc s lblks (Some rq) delmem h = Some (p, lblks[large_blk_blokp p := blk], h1\<lparr>kh_mem := m'\<rparr>)"
    and N: "only_node (lblks[large_blk_blokp p := blk]) m' blk p (PADDING_4k s)"
    by (rule large_alloc_node [where rq = rq and s = s and h = h and dl = delmem, OF assms])
  then show ?thesis
    using find_only_node [OF N refl] assms(1)
    by (simp add: large_blk_free_def freelist_detach_def only_node_def map_option_case Let_def split: option.split)
qed

theorem large_alloc_free_witness:
  "\<exists>h lblks' h' blk. large_blk_alloc 20000 (replicate 16 0) (Some (\<lambda>_ _ m. (0x400000, m))) None h = Some (0x400000, lblks', h') \<and>
     large_blk_free lblks' 0x400000 (Some (\<lambda>_ _ m. m)) h' =
       map_option (\<lambda>h2. (True, lblks'[large_blk_blokp 0x400000 := 0], h2)) (free h' blk)"
proof -
  obtain h blk h1 where "malloc h LARGE_BLK_BYTES = Some (blk, h1)" "blk \<noteq> 0" by (rule fresh_node) blast
  then show ?thesis
    using large_alloc_free [of "replicate 16 0" "\<lambda>_ _ m. (0x400000, m)" 20000 h "0x400000" "kh_mem h" blk h1 None "\<lambda>_ _ m. m"]
    by auto
qed

text \<open>the same allocation makes the table forget every other large block whose address falls in the same list: it is not
  found any more, and \<open>large_blk_free\<close> refuses it and changes nothing, so its memory is never given back.\<close>

theorem large_alloc_forgets:
  assumes "length lblks = 16" "rq 0 (PADDING_4k s) (kh_mem h) = (p, m1)" "p \<noteq> 0"
    and "malloc (h\<lparr>kh_mem := m1\<rparr>) LARGE_BLK_BYTES = Some (blk, h1)" "blk \<noteq> 0"
    and "q \<noteq> p" "large_blk_blokp q = large_blk_blokp p"
  shows "\<exists>lblks' h'. large_blk_alloc s lblks (Some rq) delmem h = Some (p, lblks', h') \<and>
    large_blk_find lblks' q (kh_mem h') = Some 0 \<and> large_blk_free lblks' q dl h' = Some (False, lblks', h')"
proof -
  obtain m' where A: "large_blk_alloc s lblks (Some rq) delmem h = Some (p, lblks[large_blk_blokp p := blk], h1\<lparr>kh_mem := m'\<rparr>)"
    and N: "only_node (lblks[large_blk_blokp p := blk]) m' blk p (PADDING_4k s)"
    by (rule large_alloc_node [where rq = rq and s = s and h = h and dl = delmem, OF assms(1-5)])
  then show ?thesis
    using find_only_node [OF N assms(7)] assms(6) by (simp add: large_blk_free_def Let_def)
qed

text \<open>Two megabytes apart, two addresses share a list.\<close>

theorem large_alloc_forgets_witness:
  "\<exists>h blk h1. malloc h LARGE_BLK_BYTES = Some (blk, h1) \<and>
     (\<exists>lblks' h'. large_blk_alloc 20000 ((replicate 16 0)[0 := blk]) (Some (\<lambda>_ _ m. (0x600000, m))) None h = Some (0x600000, lblks', h') \<and>
        large_blk_find lblks' 0x400000 (kh_mem h') = Some 0 \<and> large_blk_free lblks' 0x400000 None h' = Some (False, lblks', h'))"
proof -
  obtain h blk h1 where B: "malloc h LARGE_BLK_BYTES = Some (blk, h1)" "blk \<noteq> 0" by (rule fresh_node) blast
  have "large_blk_blokp 0x400000 = large_blk_blokp 0x600000"
    by (simp add: large_blk_blokp_def SIZE_4k_def LARGEBLKLIST_NUM_def)
  then show ?thesis
    using large_alloc_forgets [of "(replicate 16 0)[0 := blk]" "\<lambda>_ _ m. (0x600000, m)" 20000 h "0x600000" "kh_mem h" blk h1 "0x400000" None None] B
    by auto
qed

end
