(* ===== verification/Mman.thy ===== *)
theory Mman
  imports LargeBlk
begin

unbundle bit_operations_syntax

text \<open>
  The two-level memory manager: \<^verbatim>\<open>mm/heap/mman.cpp\<close>.

  A manager owns one main area of 4 KiB or 2 MiB, and asks its embedder for more areas when the free lists have no room; each
  further area starts with a block that holds the area's own \<^verbatim>\<open>struct mman_pool\<close>. Requests of 16 KiB and more go to the table of
  large blocks instead.

  A \<^verbatim>\<open>struct mman_pool\<close> is three words of memory: the area, the bytes allocated in it and the next area. The one of the main area is the
  first field of the manager; \<open>mm_main\<close> is its address, and the other fields of the manager are the record \<open>mman\<close>. Block-level
  operations take and return the manager and memory; those that reach the table of large blocks also take the kernel heap, where
  its nodes are. A null \<open>mman_t\<close> is \<open>None\<close> where the source tests for it.

  \<open>None\<close> as a result is a call that does not return: a list walk that does not end, a null callback that is called, or a null pointer
  that is dereferenced.
\<close>

section \<open>The manager\<close>

record mman =
  mm_main :: u64
  mm_size :: u64
  mm_alloced_size :: u64
  mm_cb_reqmem :: "cb_reqmem option"
  mm_cb_delmem :: "cb_delmem option"
  mm_large_blk :: u64
  mm_freed :: "u64 list"
  mm_large :: "u64 list"

type_synonym mmem = "mman \<times> mem"

text \<open>The fields of a \<^verbatim>\<open>struct mman_pool\<close> are at offsets 0, 8 and 16; its size is 24.\<close>

definition MMAN_POOL_BYTES :: u64 where "MMAN_POOL_BYTES = 24"

definition mpl_ptr :: "mem \<Rightarrow> u64 \<Rightarrow> u64" where "mpl_ptr m q = rd64 m q"
definition mpl_alloced :: "mem \<Rightarrow> u64 \<Rightarrow> u64" where "mpl_alloced m q = rd64 m (q + 8)"
definition mpl_next :: "mem \<Rightarrow> u64 \<Rightarrow> u64" where "mpl_next m q = rd64 m (q + 16)"

definition mman_put_large :: "mmem \<Rightarrow> u64 \<Rightarrow> mmem" where
  "mman_put_large mm p =
     (let (h, m') = freelist_put (snd mm) (mm_large_blk (fst mm)) p in ((fst mm)\<lparr>mm_large_blk := h\<rparr>, m'))"

definition mman_detach :: "mmem \<Rightarrow> u64 \<Rightarrow> mmem" where
  "mman_detach mm p =
     (let man = fst mm; m = snd mm; idx = freelists_size2id (blk_size m p) in
      if idx < 0 then
        let (h, m') = freelist_detach m (mm_large_blk man) p in (man\<lparr>mm_large_blk := h\<rparr>, m')
      else
        let (fls, m') = freelists_detach m (mm_freed man) (nat idx) p in (man\<lparr>mm_freed := fls\<rparr>, m'))"

definition mman_init :: "mman option \<Rightarrow> u64 \<Rightarrow> u64 \<Rightarrow> mem \<Rightarrow> bool \<times> mman option \<times> mem" where
  "mman_init mo p s m =
     (case mo of None \<Rightarrow> (False, mo, m)
      | Some man \<Rightarrow>
          if p = 0 \<or> s = 0 then (False, mo, m)
          else if s \<noteq> SIZE_2M \<and> s \<noteq> SIZE_4k then (False, mo, m)
          else
            let m1 = wr64 (wr64 (wr64 m (mm_main man) p) (mm_main man + 8) 0) (mm_main man + 16) 0;
                man1 = man\<lparr>mm_size := s, mm_alloced_size := 0, mm_cb_reqmem := None, mm_cb_delmem := None,
                           mm_large_blk := 0, mm_freed := replicate FREELIST_NUM 0,
                           mm_large := replicate (unat LARGEBLKLIST_NUM) 0\<rparr>;
                m2 = allocarea_init m1 p s (mm_main man);
                (man2, m3) = mman_put_large (man1, m2) (p + 2 * 8)
            in (True, Some man2, m3))"

text \<open>The loop of \<open>mman_deinit\<close> reads \<open>p->next\<close> before it tests \<open>p\<close>.\<close>

definition next_or_fault :: "mem \<Rightarrow> u64 \<Rightarrow> u64 option" where
  "next_or_fault m p = (if p = 0 then None else Some (mpl_next m p))"

partial_function (option) mman_release :: "cb_delmem \<Rightarrow> u64 \<Rightarrow> u64 \<Rightarrow> mem \<Rightarrow> mem option" where
  "mman_release delmem p n m =
     (if p = 0 then Some m
      else
        let m' = delmem (mpl_ptr m p) (allocarea_size m (mpl_ptr m p)) m in
        Option.bind (next_or_fault m' n) (\<lambda>n'. mman_release delmem n n' m'))"

definition mman_deinit :: "mman option \<Rightarrow> mem \<Rightarrow> (mman option \<times> mem) option" where
  "mman_deinit mo m =
     (case mo of None \<Rightarrow> Some (mo, m)
      | Some man \<Rightarrow> do {
          m1 \<leftarrow> (case mm_cb_delmem man of None \<Rightarrow> Some m
                 | Some delmem \<Rightarrow> do {
                     let p = mpl_next m (mm_main man);
                     n \<leftarrow> next_or_fault m p;
                     m' \<leftarrow> mman_release delmem p n m;
                     let area = mpl_ptr m' (mm_main man);
                     Some (delmem area (allocarea_size m' area) m') });
          let m2 = wr64 (wr64 (wr64 m1 (mm_main man) 0) (mm_main man + 8) 0) (mm_main man + 16) 0;
          Some (Some (man\<lparr>mm_size := 0, mm_alloced_size := 0, mm_cb_reqmem := None, mm_cb_delmem := None,
                          mm_large_blk := 0, mm_freed := replicate FREELIST_NUM 0,
                          mm_large := replicate (unat LARGEBLKLIST_NUM) 0\<rparr>), m2) })"

definition mman_get_alloced_size :: "mman option \<Rightarrow> u64" where
  "mman_get_alloced_size mo = (case mo of None \<Rightarrow> 0 | Some man \<Rightarrow> mm_alloced_size man)"

definition mman_total_size :: "mman option \<Rightarrow> u64" where
  "mman_total_size mo = (case mo of None \<Rightarrow> 0 | Some man \<Rightarrow> mm_size man)"

definition mman_setcb :: "mman option \<Rightarrow> cb_reqmem option \<Rightarrow> cb_delmem option \<Rightarrow> mman option" where
  "mman_setcb mo reqmem delmem =
     (case mo of None \<Rightarrow> None | Some man \<Rightarrow> Some (man\<lparr>mm_cb_reqmem := reqmem, mm_cb_delmem := delmem\<rparr>))"

section \<open>Areas\<close>

definition area_bytes :: "u64 \<Rightarrow> u64" where
  "area_bytes s = (if s > SIZE_4k then SIZE_2M else SIZE_4k)"

text \<open>What \<open>mman_reqmem\<close> writes into the new area at \<open>mem\<close>: the area's headers, a block for its \<^verbatim>\<open>struct mman_pool\<close>, and that
  structure, linked behind the main one. The result is the pointer of the free block behind it.\<close>

definition new_area :: "u64 \<Rightarrow> u64 \<Rightarrow> u64 \<Rightarrow> mem \<Rightarrow> u64 \<times> mem" where
  "new_area main mem s m =
     (let pool = mem + 2 * 8;
          m1 = allocarea_init m mem s pool;
          (p, m2) = blk_split m1 pool (PADDING MMAN_POOL_BYTES);
          m3 = blk_setalloced m2 pool (blk_size m2 pool);
          m4 = blk_setfreed m3 p (blk_size m3 p);
          m5 = wr64 m4 pool mem;
          m6 = wr64 m5 (pool + 8) 0;
          m7 = wr64 m6 (pool + 16) (mpl_next m6 main);
          m8 = wr64 m7 (main + 16) pool
      in (p, m8))"

definition mman_reqmem :: "mmem \<Rightarrow> u64 \<Rightarrow> bool \<times> mmem" where
  "mman_reqmem mm s0 =
     (let man = fst mm; s = s0 + (MMAN_POOL_BYTES + 4 * 8) in
      case mm_cb_reqmem man of
        None \<Rightarrow> (False, mm)
      | Some reqmem \<Rightarrow>
          if s > SIZE_2M then (False, mm)
          else
            let s' = area_bytes s; (mem, m1) = reqmem 0 s' (snd mm) in
            if mem = 0 then (False, man, m1)
            else let (p, m2) = new_area (mm_main man) mem s' m1
                 in (True, mman_put_large (man\<lparr>mm_size := mm_size man + s'\<rparr>, m2) p))"

partial_function (option) mman_find_prev :: "mem \<Rightarrow> u64 \<Rightarrow> u64 \<Rightarrow> u64 option" where
  "mman_find_prev m prev pool =
     (if prev = 0 then Some 0
      else if mpl_next m prev = pool then Some prev
      else mman_find_prev m (mpl_next m prev) pool)"

definition mman_delmem :: "mmem \<Rightarrow> u64 \<Rightarrow> (bool \<times> mmem) option" where
  "mman_delmem mm pool =
     (let man = fst mm; m = snd mm in
      case mm_cb_delmem man of
        None \<Rightarrow> Some (False, mm)
      | Some delmem \<Rightarrow> do {
          prev \<leftarrow> mman_find_prev m (mm_main man) pool;
          if prev = 0 then Some (False, mm)
          else
            let m1 = wr64 m (prev + 16) (mpl_next m pool);
                s = allocarea_size m1 (mpl_ptr m1 pool);
                m2 = delmem (mpl_ptr m1 pool) s m1
            in Some (True, man\<lparr>mm_size := mm_size man - s\<rparr>, m2) })"

section \<open>Allocation\<close>

definition mman_do_free :: "mmem \<Rightarrow> u64 \<Rightarrow> mmem" where
  "mman_do_free mm p =
     (let m1 = blk_setfreed (snd mm) p (blk_size (snd mm) p);
          (puted, fls, m2) = freelists_put m1 (mm_freed (fst mm)) p;
          mm' = ((fst mm)\<lparr>mm_freed := fls\<rparr>, m2)
      in if \<not> puted then mman_put_large mm' p else mm')"

definition mman_try_split_and_free :: "mmem \<Rightarrow> u64 \<Rightarrow> u64 \<Rightarrow> bool \<times> mmem" where
  "mman_try_split_and_free mm p s =
     (if blk_size (snd mm) p \<ge> s + 8 * 8
      then let (new_ptr, m') = blk_split (snd mm) p s in (True, mman_do_free (fst mm, m') new_ptr)
      else (False, mm))"

definition mman_match_large :: "mmem \<Rightarrow> u64 \<Rightarrow> (u64 \<times> mmem) option" where
  "mman_match_large mm s = do {
     (p, h, m') \<leftarrow> freelist_match (snd mm) (mm_large_blk (fst mm)) s;
     Some (p, (fst mm)\<lparr>mm_large_blk := h\<rparr>, m') }"

definition mman_match :: "mmem \<Rightarrow> u64 \<Rightarrow> (u64 \<times> mmem) option" where
  "mman_match mm s = do {
     (p, fls, m') \<leftarrow> freelists_match (snd mm) (mm_freed (fst mm)) s;
     let mm1 = ((fst mm)\<lparr>mm_freed := fls\<rparr>, m');
     if p \<noteq> 0 then Some (p, mm1) else mman_match_large mm1 s }"

definition mman_take :: "mmem \<Rightarrow> u64 \<Rightarrow> u64 \<Rightarrow> u64 \<times> mmem" where
  "mman_take mm p s =
     (let (_, mm1) = mman_try_split_and_free mm p s;
          man1 = fst mm1; m1 = snd mm1;
          sz = blk_size m1 p;
          m2 = blk_setalloced m1 p sz;
          pool = blk_poolptr m2 p;
          m3 = wr64 m2 (pool + 8) (mpl_alloced m2 pool + sz)
      in (p, man1\<lparr>mm_alloced_size := mm_alloced_size man1 + sz\<rparr>, m3))"

definition mman_alloc_small :: "mmem \<Rightarrow> u64 \<Rightarrow> (u64 \<times> mmem) option" where
  "mman_alloc_small mm s = do {
     (p, mm1) \<leftarrow> mman_match mm s;
     if p \<noteq> 0 then Some (mman_take mm1 p s)
     else
       let (ok, mm2) = mman_reqmem mm1 s in
       if \<not> ok then Some (0, mm2)
       else do {
         (p', mm3) \<leftarrow> mman_match_large mm2 s;
         if p' = 0 then None else Some (mman_take mm3 p' s) } }"

text \<open>A block-level operation, with the kernel heap along.\<close>

definition with_mem :: "(mmem \<Rightarrow> ('a \<times> mmem) option) \<Rightarrow> mman \<times> kheap \<Rightarrow> ('a \<times> mman \<times> kheap) option" where
  "with_mem f mh =
     map_option (\<lambda>(r, man, m). (r, man, (snd mh)\<lparr>kh_mem := m\<rparr>)) (f (fst mh, kh_mem (snd mh)))"

definition mman_alloc_large :: "mman \<times> kheap \<Rightarrow> u64 \<Rightarrow> (u64 \<times> mman \<times> kheap) option" where
  "mman_alloc_large mh s = do {
     let man = fst mh;
     (p, lblks, h) \<leftarrow> large_blk_alloc s (mm_large man) (mm_cb_reqmem man) (mm_cb_delmem man) (snd mh);
     Some (p, man\<lparr>mm_large := lblks\<rparr>, h) }"

definition mman_alloc :: "mman \<times> kheap \<Rightarrow> u64 \<Rightarrow> (u64 \<times> mman \<times> kheap) option" where
  "mman_alloc mh s0 =
     (let s = req_size s0 in
      if s \<ge> ALLOC_LARGE_BLK_SIZE then mman_alloc_large mh s
      else with_mem (\<lambda>mm. mman_alloc_small mm s) mh)"

definition mman_aligned_match_large :: "mmem \<Rightarrow> u64 \<Rightarrow> u64 \<Rightarrow> (u64 \<times> mmem) option" where
  "mman_aligned_match_large mm s align = do {
     (p, h, m') \<leftarrow> freelist_aligned_match (snd mm) (mm_large_blk (fst mm)) s align;
     Some (p, (fst mm)\<lparr>mm_large_blk := h\<rparr>, m') }"

definition mman_aligned_match :: "mmem \<Rightarrow> u64 \<Rightarrow> u64 \<Rightarrow> (u64 \<times> mmem) option" where
  "mman_aligned_match mm s align = do {
     (p, fls, m') \<leftarrow> freelists_aligned_match (snd mm) (mm_freed (fst mm)) s align;
     let mm1 = ((fst mm)\<lparr>mm_freed := fls\<rparr>, m');
     if p \<noteq> 0 then Some (p, mm1) else mman_aligned_match_large mm1 s align }"

definition mman_aligned_take :: "mmem \<Rightarrow> u64 \<Rightarrow> u64 \<Rightarrow> u64 \<Rightarrow> u64 \<times> mmem" where
  "mman_aligned_take mm p s align =
     (let offset = PADDING_UP p align - p in
      if offset > 0 then
        let (new_ptr, m1) = blk_split (snd mm) p (offset - 2 * 8)
        in mman_take (mman_do_free (fst mm, m1) p) new_ptr s
      else mman_take mm p s)"

definition mman_aligned_alloc_small :: "mmem \<Rightarrow> u64 \<Rightarrow> u64 \<Rightarrow> (u64 \<times> mmem) option" where
  "mman_aligned_alloc_small mm s align = do {
     (p, mm1) \<leftarrow> mman_aligned_match mm s align;
     if p \<noteq> 0 then Some (mman_aligned_take mm1 p s align)
     else
       let (ok, mm2) = mman_reqmem mm1 (s + align) in
       if \<not> ok then Some (0, mm2)
       else do {
         (p', mm3) \<leftarrow> mman_aligned_match_large mm2 s align;
         if p' = 0 then None else Some (mman_aligned_take mm3 p' s align) } }"

definition mman_aligned_alloc :: "mman \<times> kheap \<Rightarrow> u64 \<Rightarrow> u64 \<Rightarrow> (u64 \<times> mman \<times> kheap) option" where
  "mman_aligned_alloc mh s0 align =
     (if align AND (align - 1) \<noteq> 0 then Some (0, mh)
      else if align < 2 * 8 then mman_alloc mh s0
      else
        let s = req_size s0 in
        if s \<ge> ALLOC_LARGE_BLK_SIZE \<or> align \<ge> ALLOC_LARGE_BLK_SIZE then do {
          (p, man1, h1) \<leftarrow> mman_alloc_large mh s;
          if p mod align \<noteq> 0 then do {
            (_, lblks, h2) \<leftarrow> large_blk_free (mm_large man1) p (mm_cb_delmem man1) h1;
            Some (0, man1\<lparr>mm_large := lblks\<rparr>, h2) }
          else Some (p, man1, h1) }
        else with_mem (\<lambda>mm. mman_aligned_alloc_small mm s align) mh)"

section \<open>Release and reallocation\<close>

definition mman_free_small :: "mmem \<Rightarrow> u64 \<Rightarrow> mmem option" where
  "mman_free_small mm p = do {
     let man = fst mm; let m = snd mm;
     let s = blk_size m p; let pool = blk_poolptr m p;
     let m1 = wr64 m (pool + 8) (mpl_alloced m pool - s);
     let man1 = man\<lparr>mm_alloced_size := mm_alloced_size man - s\<rparr>;
     let (p', mm2) = blk_trymerge p (Some mman_detach) (man1, m1);
     if pool \<noteq> mm_main man \<and> mpl_alloced (snd mm2) pool = 0 then do {
       (gone, mm3) \<leftarrow> mman_delmem mm2 pool;
       if gone then Some mm3 else Some (mman_do_free mm3 p') }
     else Some (mman_do_free mm2 p') }"

definition mman_free :: "mman \<times> kheap \<Rightarrow> u64 \<Rightarrow> (mman \<times> kheap) option" where
  "mman_free mh p =
     (if p = 0 then Some mh
      else do {
        (gone, man1, h1) \<leftarrow>
          (if p mod SIZE_4k = 0 then do {
             (gone, lblks, h1) \<leftarrow> large_blk_free (mm_large (fst mh)) p (mm_cb_delmem (fst mh)) (snd mh);
             Some (gone, (fst mh)\<lparr>mm_large := lblks\<rparr>, h1) }
           else Some (False, mh));
        if gone then Some (man1, h1)
        else map_option (\<lambda>(man2, m2). (man2, h1\<lparr>kh_mem := m2\<rparr>)) (mman_free_small (man1, kh_mem h1) p) })"

definition mman_msize :: "mem \<Rightarrow> u64 \<Rightarrow> u64" where
  "mman_msize m p = (if p = 0 then 0 else blk_size m p)"

text \<open>What the two \<open>realloc\<close> functions share: keep the block, or grow into a free successor, or \<open>None\<close> when the bytes must move. Only a
  block that is not page aligned is trimmed or grown.\<close>

definition mman_realloc_in_place :: "mmem \<Rightarrow> u64 \<Rightarrow> u64 \<Rightarrow> (u64 \<times> mmem) option" where
  "mman_realloc_in_place mm p newsize =
     (let m = snd mm; sz = blk_size m p; paged = (p mod SIZE_4k = 0) in
      if sz \<ge> newsize \<and> \<not> (paged \<and> sz - newsize \<ge> 2 * SIZE_4k) then
        Some (p, if paged then mm else snd (mman_try_split_and_free mm p newsize))
      else if paged then None
      else
        let nxt = blk_next m p in
        if nxt \<noteq> 0 \<and> blk_freed m nxt \<and> sz + 2 * 8 + blk_size m nxt \<ge> newsize then
          let (p', mm') = blk_mergenext p (Some mman_detach) mm
          in Some (p', snd (mman_try_split_and_free mm' p' newsize))
        else None)"

text \<open>The copy to the new block runs through a null pointer when there is no new block.\<close>

definition mman_move :: "u64 \<Rightarrow> u64 \<Rightarrow> u64 \<times> mman \<times> kheap \<Rightarrow> (u64 \<times> mman \<times> kheap) option" where
  "mman_move p sz r =
     (case r of (new_ptr, man, h) \<Rightarrow>
        if new_ptr = 0 \<and> sz \<noteq> 0 then None
        else map_option (Pair new_ptr) (mman_free (man, h\<lparr>kh_mem := memcpy (kh_mem h) new_ptr p sz\<rparr>) p))"

definition mman_realloc :: "mman \<times> kheap \<Rightarrow> u64 \<Rightarrow> u64 \<Rightarrow> (u64 \<times> mman \<times> kheap) option" where
  "mman_realloc mh p newsize0 =
     (if p = 0 then mman_alloc mh newsize0
      else
        let newsize = req_size newsize0; m = kh_mem (snd mh) in
        case mman_realloc_in_place (fst mh, m) p newsize of
          Some (p', man', m') \<Rightarrow> Some (p', man', (snd mh)\<lparr>kh_mem := m'\<rparr>)
        | None \<Rightarrow> Option.bind (mman_alloc mh newsize) (mman_move p (blk_size m p)))"

definition mman_aligned_realloc :: "mman \<times> kheap \<Rightarrow> u64 \<Rightarrow> u64 \<Rightarrow> u64 \<Rightarrow> (u64 \<times> mman \<times> kheap) option" where
  "mman_aligned_realloc mh p newsize0 align =
     (if p = 0 then mman_aligned_alloc mh newsize0 align
      else if align AND (align - 1) \<noteq> 0 then Some (0, mh)
      else if align < 2 * 8 then mman_realloc mh p newsize0
      else
        let newsize = req_size newsize0; m = kh_mem (snd mh) in
        case mman_realloc_in_place (fst mh, m) p newsize of
          Some (p', man', m') \<Rightarrow> Some (p', man', (snd mh)\<lparr>kh_mem := m'\<rparr>)
        | None \<Rightarrow> Option.bind (mman_aligned_alloc mh newsize align) (mman_move p (blk_size m p)))"

section \<open>The manager over one area is a pool\<close>

text \<open>The part of a manager that is a pool over the area at \<open>a\<close>, and a manager whose lists and counter are those of a pool.\<close>

definition pool_of :: "u64 \<Rightarrow> mman \<Rightarrow> mpool" where
  "pool_of a man = \<lparr>mp_ptr = a, mp_size = mm_size man, mp_alloced_size = mm_alloced_size man,
     mp_cb_reqmem = None, mp_cb_delmem = None, mp_large_blk = mm_large_blk man, mp_freed = mm_freed man\<rparr>"

definition put_pool :: "mman \<Rightarrow> mpool \<Rightarrow> mman" where
  "put_pool man pl = man\<lparr>mm_alloced_size := mp_alloced_size pl, mm_large_blk := mp_large_blk pl, mm_freed := mp_freed pl\<rparr>"

text \<open>The pool of the manager that \<open>put_pool\<close> gives is the pool put, as long as the fields no block operation changes are the same.\<close>

definition over_pool :: "u64 \<Rightarrow> mman \<Rightarrow> mpool \<Rightarrow> bool" where
  "over_pool a man pl \<longleftrightarrow> mp_ptr pl = a \<and> mp_size pl = mm_size man \<and> mp_cb_reqmem pl = None \<and> mp_cb_delmem pl = None"

lemma pool_of_sel [simp]:
  "mp_ptr (pool_of a man) = a" "mp_size (pool_of a man) = mm_size man" "mp_alloced_size (pool_of a man) = mm_alloced_size man"
  "mp_large_blk (pool_of a man) = mm_large_blk man" "mp_freed (pool_of a man) = mm_freed man"
  "mp_cb_reqmem (pool_of a man) = None" "mp_cb_delmem (pool_of a man) = None"
  by (simp_all add: pool_of_def)

lemma put_pool_sel [simp]:
  "mm_main (put_pool man pl) = mm_main man" "mm_size (put_pool man pl) = mm_size man"
  "mm_cb_reqmem (put_pool man pl) = mm_cb_reqmem man" "mm_cb_delmem (put_pool man pl) = mm_cb_delmem man"
  "mm_large (put_pool man pl) = mm_large man" "mm_alloced_size (put_pool man pl) = mp_alloced_size pl"
  "mm_large_blk (put_pool man pl) = mp_large_blk pl" "mm_freed (put_pool man pl) = mp_freed pl"
  by (simp_all add: put_pool_def)

lemma put_pool_of [simp]:
  "put_pool man (pool_of a man) = man" "put_pool (put_pool man pl) pl' = put_pool man pl'"
  by (simp_all add: put_pool_def)

lemma pool_of_put: "over_pool a man pl \<Longrightarrow> pool_of a (put_pool man pl) = pl"
  by (simp add: pool_of_def over_pool_def)

lemma over_pool_of [simp]: "over_pool a man (pool_of a man)" "over_pool a (put_pool man pl) = over_pool a man"
  by (simp_all add: over_pool_def fun_eq_iff)

text \<open>\<open>f\<close> on the pool is \<open>g\<close> on the manager.\<close>

lemma put_large_sim:
  assumes "over_pool a man pl"
  shows "mman_put_large (put_pool man pl, m) p =
      (put_pool man (fst (put_large (pl, m) p)), snd (put_large (pl, m) p)) \<and>
    over_pool a man (fst (put_large (pl, m) p))"
  using assms by (simp add: mman_put_large_def put_large_def split_beta put_pool_def over_pool_def)

lemma detach_sim:
  assumes "over_pool a man pl"
  shows "mman_detach (put_pool man pl, m) p =
      (put_pool man (fst (pool_detach (pl, m) p)), snd (pool_detach (pl, m) p)) \<and>
    over_pool a man (fst (pool_detach (pl, m) p))"
  using assms by (simp add: mman_detach_def pool_detach_def split_beta Let_def put_pool_def over_pool_def)

lemma do_free_sim:
  assumes "over_pool a man pl"
  shows "mman_do_free (put_pool man pl, m) p =
      (put_pool man (fst (do_free (pl, m) p)), snd (do_free (pl, m) p)) \<and>
    over_pool a man (fst (do_free (pl, m) p))"
  using assms
  by (simp add: mman_do_free_def do_free_def mman_put_large_def put_large_def split_beta Let_def put_pool_def over_pool_def)

lemma try_split_sim:
  assumes "over_pool a man pl"
  shows "mman_try_split_and_free (put_pool man pl, m) p s =
      (case try_split_and_free (pl, m) p s of (b, pl', m') \<Rightarrow> (b, put_pool man pl', m')) \<and>
    over_pool a man (fst (snd (try_split_and_free (pl, m) p s)))"
  using assms do_free_sim [OF assms]
  by (simp add: mman_try_split_and_free_def try_split_and_free_def split_beta Let_def)

lemma match_large_sim:
  assumes "over_pool a man pl"
  shows "mman_match_large (put_pool man pl, m) s =
      map_option (\<lambda>(p, pl', m'). (p, put_pool man pl', m')) (pool_match_large (pl, m) s)"
    "pool_match_large (pl, m) s = Some (p, pl', m') \<Longrightarrow> over_pool a man pl'"
  using assms
  by (auto simp: mman_match_large_def pool_match_large_def put_pool_def over_pool_def split_beta split: option.splits bind_splits)

lemma match_sim:
  assumes "over_pool a man pl"
  shows "mman_match (put_pool man pl, m) s =
      map_option (\<lambda>(p, pl', m'). (p, put_pool man pl', m')) (pool_match (pl, m) s) \<and>
    (\<forall>p pl' m'. pool_match (pl, m) s = Some (p, pl', m') \<longrightarrow> over_pool a man pl')"
proof (cases "freelists_match m (mp_freed pl) s")
  case None
  then show ?thesis by (simp add: mman_match_def pool_match_def pool_match_small_def)
next
  case (Some r)
  obtain p fls m1 where r: "r = (p, fls, m1)" by (cases r)
  let ?pl = "pl\<lparr>mp_freed := fls\<rparr>"
  have o: "over_pool a man ?pl" using assms by (simp add: over_pool_def)
  have e: "(put_pool man pl)\<lparr>mm_freed := fls\<rparr> = put_pool man ?pl" by (simp add: put_pool_def)
  show ?thesis
    using match_large_sim [OF o] o
    by (auto simp: mman_match_def pool_match_def pool_match_small_def Let_def Some r e split: if_splits)
qed

lemma over_pool_alloced [simp]: "over_pool a man (pl\<lparr>mp_alloced_size := n\<rparr>) = over_pool a man pl"
  by (simp add: over_pool_def)

text \<open>Handing out a block also adds its size to the counter of its area.\<close>

definition bump :: "(u64 \<Rightarrow> u64) \<Rightarrow> u64 \<Rightarrow> mem \<Rightarrow> mem" where
  "bump f p m = (let c = blk_poolptr m p + 8 in wr64 m c (f (rd64 m c)))"

lemma take_sim:
  assumes "over_pool a man pl"
  shows "mman_take (put_pool man pl, m) p s =
      (case take_blk (pl, m) p s of (_, pl', m') \<Rightarrow>
         (p, put_pool man pl', bump (\<lambda>n. n + (mp_alloced_size pl' - mp_alloced_size pl)) p m')) \<and>
    over_pool a man (fst (snd (take_blk (pl, m) p s)))"
proof -
  obtain b pl1 m1 where T: "try_split_and_free (pl, m) p s = (b, pl1, m1)" by (metis prod_cases3)
  have "mp_alloced_size pl1 = mp_alloced_size pl"
    using T by (auto simp: try_split_and_free_def do_free_def put_large_def split_beta Let_def split: if_splits)
  with try_split_sim [OF assms, of m p s] T show ?thesis
    by (simp add: mman_take_def take_blk_def Let_def bump_def mpl_alloced_def put_pool_def)
qed

lemma run_detach_sim:
  assumes "over_pool a man pl"
  shows "run_detach (Some mman_detach) (put_pool man pl, m) p =
      (put_pool man (fst (run_detach (Some pool_detach) (pl, m) p)), snd (run_detach (Some pool_detach) (pl, m) p)) \<and>
    over_pool a man (fst (run_detach (Some pool_detach) (pl, m) p))"
  using detach_sim [OF assms] by (simp add: run_detach_def)

lemma mergenext_sim:
  assumes "over_pool a man pl"
  shows "blk_mergenext p (Some mman_detach) (put_pool man pl, m) =
      (case blk_mergenext p (Some pool_detach) (pl, m) of (p', pl', m') \<Rightarrow> (p', put_pool man pl', m')) \<and>
    over_pool a man (fst (snd (blk_mergenext p (Some pool_detach) (pl, m))))"
  using run_detach_sim [OF assms] by (simp add: blk_mergenext_def split_beta Let_def)

lemma mergeprev_sim:
  assumes "over_pool a man pl"
  shows "blk_mergeprev p (Some mman_detach) (put_pool man pl, m) =
      (case blk_mergeprev p (Some pool_detach) (pl, m) of (p', pl', m') \<Rightarrow> (p', put_pool man pl', m')) \<and>
    over_pool a man (fst (snd (blk_mergeprev p (Some pool_detach) (pl, m))))"
  using run_detach_sim [OF assms] by (simp add: blk_mergeprev_def split_beta Let_def)

lemma trymerge_sim:
  assumes "over_pool a man pl"
  shows "blk_trymerge p (Some mman_detach) (put_pool man pl, m) =
      (case blk_trymerge p (Some pool_detach) (pl, m) of (p', pl', m') \<Rightarrow> (p', put_pool man pl', m')) \<and>
    over_pool a man (fst (snd (blk_trymerge p (Some pool_detach) (pl, m))))"
proof -
  let ?next = "\<not> blk_nonext m p (blk_size m p) \<and> blk_nexthead m p (blk_size m p) AND FREE_FLAG \<noteq> 0"
  obtain p1 pl1 m1 where N: "(if ?next then blk_mergenext p (Some pool_detach) (pl, m) else (p, pl, m)) = (p1, pl1, m1)"
    by (metis prod_cases3)
  then have N': "(if ?next then blk_mergenext p (Some mman_detach) (put_pool man pl, m) else (p, put_pool man pl, m)) =
      (p1, put_pool man pl1, m1)" and o1: "over_pool a man pl1"
    using mergenext_sim [OF assms, of p m] assms by (auto split: if_splits)
  let ?prev = "\<not> blk_noprev m1 p1 \<and> blk_prevtail m1 p1 AND FREE_FLAG \<noteq> 0"
  obtain p2 pl2 m2 where P: "(if ?prev then blk_mergeprev p1 (Some pool_detach) (pl1, m1) else (p1, pl1, m1)) = (p2, pl2, m2)"
    by (metis prod_cases3)
  then have P': "(if ?prev then blk_mergeprev p1 (Some mman_detach) (put_pool man pl1, m1) else (p1, put_pool man pl1, m1)) =
      (p2, put_pool man pl2, m2)" and o2: "over_pool a man pl2"
    using mergeprev_sim [OF o1, of p1 m1] o1 by (auto split: if_splits)
  show ?thesis using o2 unfolding blk_trymerge_def by (simp only: Let_def fst_conv snd_conv N N' P P' prod.case)
qed

lemma match_alloced: "pool_match (pl, m) s = Some (p, pl', m') \<Longrightarrow> mp_alloced_size pl' = mp_alloced_size pl"
  by (auto simp: pool_match_def pool_match_small_def pool_match_large_def Let_def split: bind_splits if_splits)

text \<open>Without callbacks, a small request is the pool's allocation and the counter of the block's area.\<close>

lemma alloc_small_sim:
  assumes o: "over_pool a man pl" and cb: "mm_cb_reqmem man = None"
  shows "mman_alloc_small (put_pool man pl, m) (req_size s) =
      map_option (\<lambda>(p, pl', m'). (p, put_pool man pl',
        if p = 0 then m' else bump (\<lambda>n. n + (mp_alloced_size pl' - mp_alloced_size pl)) p m')) (mpool_alloc (pl, m) s)"
proof (cases "pool_match (pl, m) (req_size s)")
  case None
  then show ?thesis using match_sim [OF o, of m "req_size s"] by (simp add: mman_alloc_small_def mpool_alloc_def)
next
  case (Some r)
  obtain p pl1 m1 where r: "r = (p, pl1, m1)" by (cases r)
  note M = match_sim [OF o, of m "req_size s", unfolded Some r]
  have o1: "over_pool a man pl1" and al: "mp_alloced_size pl1 = mp_alloced_size pl"
    using M match_alloced Some r by auto
  have mm: "mman_match (put_pool man pl, m) (req_size s) = Some (p, put_pool man pl1, m1)" using M by simp
  obtain pl2 m2 where T: "take_blk (pl1, m1) p (req_size s) = (p, pl2, m2)"
    by (cases "take_blk (pl1, m1) p (req_size s)") (auto simp: take_blk_def split_beta Let_def)
  show ?thesis
  proof (cases "p = 0")
    case True
    have "mp_cb_reqmem pl1 = None" using o1 by (simp add: over_pool_def)
    with True show ?thesis
      by (simp add: mman_alloc_small_def mpool_alloc_def mm Some r mman_reqmem_def mpool_reqmem_def cb)
  next
    case False
    then show ?thesis
      using take_sim [OF o1, of m1 p "req_size s"]
      by (simp add: mman_alloc_small_def mpool_alloc_def mm Some r T al)
  qed
qed

text \<open>Releasing a block of the main area is the counter of the area and then the pool's release.\<close>

lemma free_small_sim:
  assumes o: "over_pool a man pl" and p: "p \<noteq> 0" and main: "blk_poolptr m p = mm_main man"
    and sz: "blk_size (bump (\<lambda>n. n - blk_size m p) p m) p = blk_size m p"
  shows "mman_free_small (put_pool man pl, m) p =
    Some (case mpool_free (pl, bump (\<lambda>n. n - blk_size m p) p m) p of (pl', m') \<Rightarrow> (put_pool man pl', m'))"
proof -
  let ?m = "bump (\<lambda>n. n - blk_size m p) p m" and ?pl = "pl\<lparr>mp_alloced_size := mp_alloced_size pl - blk_size m p\<rparr>"
  have o1: "over_pool a man ?pl" using o by simp
  have b: "wr64 m (blk_poolptr m p + 8) (mpl_alloced m (blk_poolptr m p) - blk_size m p) = ?m"
    by (simp add: bump_def mpl_alloced_def Let_def)
  have e: "(put_pool man pl)\<lparr>mm_alloced_size := mp_alloced_size pl - blk_size m p\<rparr> = put_pool man ?pl"
    by (simp add: put_pool_def)
  obtain p' pl2 m2 where T: "blk_trymerge p (Some pool_detach) (?pl, ?m) = (p', pl2, m2)" by (metis prod_cases3)
  have o2: "over_pool a man pl2" and T': "blk_trymerge p (Some mman_detach) (put_pool man ?pl, ?m) = (p', put_pool man pl2, m2)"
    using trymerge_sim [OF o1, of p ?m] T by simp_all
  have "mman_free_small (put_pool man pl, m) p = Some (mman_do_free (put_pool man pl2, m2) p')"
    using T' b by (simp add: mman_free_small_def main Let_def e)
  moreover have "mpool_free (pl, ?m) p = do_free (pl2, m2) p'" using p sz T by (simp add: mpool_free_def)
  ultimately show ?thesis using do_free_sim [OF o2, of m2 p'] by (simp add: split_beta)
qed

end
