(* ===== verification/MmanHeap.thy ===== *)
theory MmanHeap
  imports Mman
begin

unbundle bit_operations_syntax

text \<open>
  A manager without callbacks, over one area of 2 MiB, meets the contract of Allocator for requests below 16 KiB.

  \<open>one_area a k bs man m\<close>: the manager's lists and the blocks \<open>bs\<close> of the area at cell \<open>a\<close> are a pool in order; the area
  starts at a multiple of its size and its first word leads to the \<^verbatim>\<open>struct mman_pool\<close> at cell \<open>k\<close>, outside the area; the counter
  there equals the manager's own; there are no large blocks. The proofs carry the steps of the pool over, through the
  simulation lemmas of Mman.
\<close>

definition one_area :: "nat \<Rightarrow> nat \<Rightarrow> blk list \<Rightarrow> mman \<Rightarrow> mem \<Rightarrow> bool" where
  "one_area a k bs man m \<longleftrightarrow> pool_inv a bs (pool_of (adr a) man) m \<and> 2 ^ 18 dvd a \<and> span bs + 2 = 2 ^ 18 \<and>
     (\<forall>b\<in>set bs. b2M b) \<and> cells m a AND NOT FLAG_BITS = adr k \<and> mm_main man = adr k \<and> k + 3 < 2 ^ 61 \<and>
     (k + 3 \<le> a \<or> a + 2 ^ 18 \<le> k) \<and> cells m (k + 1) = mm_alloced_size man \<and> mm_cb_reqmem man = None \<and>
     mm_large man = replicate 16 0"

section \<open>Finding the area of a block\<close>

lemma and_not_mask_nat: "w AND NOT (mask n) = (of_nat (2 ^ n * (unat w div 2 ^ n)) :: u64)"
proof -
  have "w AND NOT (mask n) = push_bit n (drop_bit n w)" by (rule and_not_mask_eq)
  also have "\<dots> = 2 ^ n * (w div 2 ^ n)" by (simp add: push_bit_eq_mult drop_bit_eq_div mult.commute)
  also have "w div 2 ^ n = of_nat (unat w div 2 ^ n)"
    by (metis drop_bit_eq_div of_nat_unat ucast_id unat_drop_bit_eq)
  finally show ?thesis by simp
qed

lemma area_of_blk:
  assumes "q < 2 ^ 61" "a \<le> q" "q < a + 2 ^ 18" "2 ^ 18 dvd a"
  shows "adr q AND NOT (SIZE_2M - 1) = adr a"
proof -
  obtain j where a: "a = 2 ^ 18 * j" using assms(4) by blast
  have "q div 2 ^ 18 = j" using assms(2,3) unfolding a by (intro div_nat_eqI) auto
  moreover have "8 * q div 2 ^ 21 = q div 2 ^ 18" by simp
  ultimately have "2 ^ 21 * (8 * q div 2 ^ 21) = 8 * a" by (simp add: a)
  moreover have "SIZE_2M - 1 = mask 21" by (simp add: SIZE_2M_def mask_eq_exp_minus_1)
  ultimately show ?thesis by (simp only: and_not_mask_nat unat_adr [OF assms(1)] adr_def [of a])
qed

lemma blk_pool:
  assumes ar: "area (cells m) a bs" and q: "(q, b) \<in> blks a bs" and g: "b2M b"
    and a: "2 ^ 18 dvd a" "span bs + 2 = 2 ^ 18" and k: "cells m a AND NOT FLAG_BITS = adr k"
  shows "blk_poolptr m (adr q) = adr k"
proof -
  note B = area_blk [OF ar q]
  have "q < a + 2 ^ 18" "a \<le> q" using place_bounds [OF q] a(2) by auto
  then have "blk_areaptr m (adr q) = adr a"
    using area_reads(3) [OF ar q] g area_of_blk [of q a] a(1) B by (simp add: blk_areaptr_def)
  moreover have "a < 2 ^ 61" using ar by (simp add: area_def)
  ultimately show ?thesis using k by (simp add: blk_poolptr_def rd64_adr)
qed

lemma bump_cells:
  assumes "blk_poolptr m p = adr k" "k + 3 < 2 ^ 61"
  shows "cells (bump f p m) = (cells m)(k + 1 := f (cells m (k + 1)))"
  using assms by (simp add: bump_def cell_simps)

lemma pool_inv_outside:
  assumes inv: "pool_inv a bs pl m" and ch: "\<And>x. a \<le> x \<Longrightarrow> x < a + 2 + span bs \<Longrightarrow> cells m' x = cells m x"
  shows "pool_inv a bs pl m'"
proof -
  have st: "pool_st a bs (fnodes (a + 2) bs) pl m" using inv by (simp add: pool_inv_def)
  have ar: "area (cells m) a bs" using st by (simp add: pool_st_def)
  have lay: "layout (cells m') (a + 2) bs"
    unfolding layout_iff
  proof clarify
    fix p b assume b: "(p, b) \<in> blks a bs"
    have "cells m (p - 1) = hdr b \<and> cells m (p + bw b) = hdr b" using ar b by (auto simp: area_def layout_iff)
    then show "cells m' (p - 1) = hdr b \<and> cells m' (p + bw b) = hdr b"
      using place_bounds [OF b] ch [of "p - 1"] ch [of "p + bw b"] by auto
  qed
  have ar': "area (cells m') a bs" using ar lay ch [of a] ch [of "a + 1 + span bs"] by (simp add: area_def)
  have "cells m' x = cells m x" if x: "x \<in> links (dom (fnodes (a + 2) bs))" for x
  proof -
    obtain p where p: "p \<in> dom (fnodes (a + 2) bs)" "x = p \<or> x = p + 1" using x by (auto simp: links_def)
    then obtain b where b: "(p, b) \<in> blks a bs" using fnodes_iff [of "a + 2" bs p] by blast
    show ?thesis using place_bounds [OF b] area_blk [OF ar b] p(2) by (intro ch) auto
  qed
  then have "flists (cells m') pl (fnodes (a + 2) bs)"
    using st unfolding pool_st_def by (blast intro: flists_cong)
  then show ?thesis using st ar' inv by (simp add: pool_inv_def pool_st_def)
qed

section \<open>The steps\<close>

lemma one_area_pool:
  assumes "one_area a k bs man m"
  shows "pool_inv a bs (pool_of (adr a) man) m" "area (cells m) a bs" "over_pool (adr a) man (pool_of (adr a) man)"
  using assms by (simp_all add: one_area_def pool_inv_def pool_st_def)

lemma one_area_blk:
  assumes inv: "one_area a k bs man m" and q: "(q, b) \<in> blks a bs"
  shows "adr q \<noteq> 0" "q < 2 ^ 61" "blk_poolptr m (adr q) = adr k" "blk_size m (adr q) = adr (bw b)"
proof -
  note ar = one_area_pool(2) [OF inv]
  show "adr q \<noteq> 0" "q < 2 ^ 61" using area_blk(3,4) [OF ar q] by simp_all
  have "b \<in> set bs" using q by (auto simp: place_decomp)
  then show "blk_poolptr m (adr q) = adr k" using inv by (intro blk_pool [OF ar q]) (auto simp: one_area_def)
  show "blk_size m (adr q) = adr (bw b)" by (rule area_reads(1) [OF ar q])
qed

text \<open>What a step of the pool leaves, once the counter of the area is adjusted before (\<open>m1\<close>) or after (\<open>m2\<close>) it.\<close>

lemma kept_one_area:
  assumes inv: "one_area a k bs man m" and k: "kept a bs (pool_of (adr a) man) m1 bs' pl' m'"
    and m1: "\<And>x. x \<noteq> k + 1 \<Longrightarrow> cells m1 x = cells m x" and m2: "\<And>x. x \<noteq> k + 1 \<Longrightarrow> cells m2 x = cells m' x"
    and c: "cells m2 (k + 1) = mp_alloced_size pl'"
  shows "one_area a k bs' (put_pool man pl') m2"
proof -
  have sp: "span bs' + 2 = 2 ^ 18" "span bs' = span bs" and fl: "\<forall>b\<in>set bs'. b2M b"
    using inv k by (auto simp: one_area_def kept_def)
  have kk: "k + 3 \<le> a \<or> a + 2 ^ 18 \<le> k" using inv by (simp add: one_area_def)
  have inv': "pool_inv a bs' pl' m'" using k by (simp add: kept_def)
  have "over_pool (adr a) man pl'"
    using k inv sp by (simp add: kept_def over_pool_def one_area_def pool_inv_def)
  then have "pool_of (adr a) (put_pool man pl') = pl'" by (rule pool_of_put)
  moreover have "pool_inv a bs' pl' m2"
    using kk sp by (intro pool_inv_outside [OF inv'] m2) auto
  moreover have "cells m2 a = cells m a"
    using m2 [of a] m1 [of a] k kk by (auto simp: kept_def chg_def)
  ultimately show ?thesis using inv sp fl c unfolding one_area_def by simp
qed

lemma live_cell:
  assumes inv: "one_area a k bs man m" and x: "in_live (lmap a bs) x"
  shows "x div 8 \<noteq> k + 1" "x < 2 ^ 64"
proof -
  note P = one_area_pool(1) [OF inv]
  show "x < 2 ^ 64" by (rule live_blk_bounds [OF P x])
  obtain p b where b: "(p, b) \<in> blks a bs" "x div 8 \<in> payload p b" using in_lmap [OF x] by blast
  then show "x div 8 \<noteq> k + 1" using place_bounds [OF b(1)] inv by (auto simp: one_area_def payload_def)
qed

definition man_lim :: nat where "man_lim = 16 * 1024 - 15"

lemma man_lim_small: "n < man_lim \<Longrightarrow> req_size (of_nat n) < ALLOC_LARGE_BLK_SIZE \<and> n < pool_lim"
proof -
  assume n: "n < man_lim"
  have u: "unat (of_nat n :: u64) = n" by (rule unat_of_nat64) (use n in \<open>simp add: man_lim_def\<close>)
  have w: "req_words (of_nat n) < 2048" using n unfolding req_words_def u man_lim_def by auto
  have "req_size (of_nat n) = adr (req_words (of_nat n))"
    by (rule req_size_eq) (use n u in \<open>simp add: man_lim_def\<close>)
  then show ?thesis using w n unat_adr [of "req_words (of_nat n)"]
    by (simp add: word_less_nat_alt ALLOC_LARGE_BLK_SIZE_def man_lim_def pool_lim_def)
qed

lemma man_alloc_step:
  assumes inv: "one_area a k bs man m" and n: "n < man_lim"
  shows "mman_alloc_small (man, m) (req_size (of_nat n)) = Some (0, man, m) \<or>
    (\<exists>q d bs' man' m'. mman_alloc_small (man, m) (req_size (of_nat n)) = Some (adr q, man', m') \<and>
       one_area a k bs' man' m' \<and> (q, d) \<in> blks a bs' \<and> 8 * q \<notin> dom (lmap a bs) \<and> n \<le> 8 * bw d \<and>
       lmap a bs' = (lmap a bs)(8 * q \<mapsto> 8 * bw d) \<and> (\<forall>x. in_live (lmap a bs) x \<longrightarrow> m' (of_nat x) = m (of_nat x)))"
proof -
  let ?pl = "pool_of (adr a) man"
  note P = one_area_pool [OF inv]
  have cb: "mm_cb_reqmem man = None" "mp_cb_reqmem ?pl = None" using inv by (simp_all add: one_area_def)
  have n': "n < pool_lim" using man_lim_small [OF n] by simp
  note sim = alloc_small_sim [OF P(3) cb(1), of m "of_nat n", unfolded put_pool_of]
  from pool_alloc_step [OF P(1) cb(2) n'] show ?thesis
  proof (elim disjE exE conjE)
    assume "mpool_alloc (?pl, m) (of_nat n) = Some (0, ?pl, m)"
    then show ?thesis using sim by simp
  next
    fix q d bs' pl' m'
    assume al: "mpool_alloc (?pl, m) (of_nat n) = Some (adr q, pl', m')" and k: "kept a bs ?pl m bs' pl' m'"
      and d: "(q, d) \<in> blks a bs'" and q: "8 * q \<notin> dom (lmap a bs)" "n \<le> 8 * bw d"
      and lm: "lmap a bs' = (lmap a bs)(8 * q \<mapsto> 8 * bw d)" and sz: "mp_alloced_size pl' = mp_alloced_size ?pl + adr (bw d)"
      and ld: "\<forall>x. in_live (lmap a bs) x \<longrightarrow> m' (of_nat x) = m (of_nat x)"
    let ?m2 = "bump (\<lambda>n. n + (mp_alloced_size pl' - mp_alloced_size ?pl)) (adr q) m'"
    have ar': "area (cells m') a bs'" using k by (simp add: kept_def pool_inv_def pool_st_def)
    have "d \<in> set bs'" using d by (auto simp: place_decomp)
    then have "b2M d" "span bs' + 2 = 2 ^ 18" "2 ^ 18 dvd a" "cells m' a AND NOT FLAG_BITS = adr k" and k3: "k + 3 < 2 ^ 61"
      using inv k by (auto simp: one_area_def kept_def chg_def)
    then have bp: "blk_poolptr m' (adr q) = adr k" by (intro blk_pool [OF ar' d])
    note bc = bump_cells [OF bp k3]
    have ck: "cells m' (k + 1) = mm_alloced_size man"
      using inv k by (auto simp: one_area_def kept_def chg_def)
    have oa: "one_area a k bs' (put_pool man pl') ?m2"
      using kept_one_area [OF inv k, of ?m2] bc ck by simp
    have nz: "adr q \<noteq> 0" using area_blk(3,4) [OF ar' d] by simp
    then have res: "mman_alloc_small (man, m) (req_size (of_nat n)) = Some (adr q, put_pool man pl', ?m2)"
      using sim al by simp
    have "?m2 (of_nat x) = m (of_nat x)" if x: "in_live (lmap a bs) x" for x
    proof -
      have "?m2 (of_nat x) = m' (of_nat x)"
        using live_cell [OF inv x] bc by (intro chg_byte [where S = "{k + 1}"]) (auto simp: chg_def)
      then show ?thesis using ld x by simp
    qed
    then show ?thesis using res oa d q lm by blast
  qed
qed

lemma man_free_step:
  assumes inv: "one_area a k bs man m" and b: "(q, b) \<in> blks a bs" "\<not> bfree b"
  obtains bs' man' m' where "mman_free_small (man, m) (adr q) = Some (man', m')" "one_area a k bs' man' m'"
    "lmap a bs' = (lmap a bs)(8 * q := None)" "mm_large man' = mm_large man"
    "\<And>x. in_live ((lmap a bs)(8 * q := None)) x \<Longrightarrow> m' (of_nat x) = m (of_nat x)"
proof -
  let ?pl = "pool_of (adr a) man" and ?m1 = "bump (\<lambda>n. n - blk_size m (adr q)) (adr q) m"
  note P = one_area_pool [OF inv] and B = one_area_blk [OF inv b(1)]
  have k: "k + 3 < 2 ^ 61" "k + 3 \<le> a \<or> a + 2 ^ 18 \<le> k" "span bs + 2 = 2 ^ 18" "mm_main man = adr k"
    using inv by (simp_all add: one_area_def)
  note bc = bump_cells [OF B(3) k(1)]
  have inv1: "pool_inv a bs ?pl ?m1" using k(2,3) bc by (intro pool_inv_outside [OF P(1)]) auto
  then have ar1: "area (cells ?m1) a bs" by (simp add: pool_inv_def pool_st_def)
  obtain bs' pl' m' where F: "mpool_free (?pl, ?m1) (adr q) = (pl', m')" "kept a bs ?pl ?m1 bs' pl' m'"
    "lmap a bs' = (lmap a bs)(8 * q := None)" "mp_alloced_size pl' = mp_alloced_size ?pl - adr (bw b)"
    "\<And>x. in_live ((lmap a bs)(8 * q := None)) x \<Longrightarrow> m' (of_nat x) = ?m1 (of_nat x)"
    by (rule pool_free_step [OF inv1 b]) (rule that; assumption)
  have sz: "blk_size ?m1 (adr q) = blk_size m (adr q)" using area_reads(1) [OF ar1 b(1)] B(4) by simp
  have res: "mman_free_small (man, m) (adr q) = Some (put_pool man pl', m')"
    using free_small_sim [OF P(3) B(1) _ sz] B(3) k(4) F(1) by simp
  have "cells m' (k + 1) = cells ?m1 (k + 1)" using F(2) k(2,3) by (auto simp: kept_def chg_def)
  then have ck: "cells m' (k + 1) = mp_alloced_size pl'"
    using bc B(4) F(4) inv by (simp add: one_area_def)
  have oa: "one_area a k bs' (put_pool man pl') m'"
    using kept_one_area [OF inv F(2), of m'] bc ck by simp
  have ld: "m' (of_nat x) = m (of_nat x)" if x: "in_live ((lmap a bs)(8 * q := None)) x" for x
  proof -
    have "in_live (lmap a bs) x" using x by (auto simp: in_live_def split: if_splits)
    then have "?m1 (of_nat x) = m (of_nat x)"
      using live_cell [OF inv] bc by (intro chg_byte [where S = "{k + 1}"]) (auto simp: chg_def)
    then show ?thesis using F(5) [OF x] by simp
  qed
  show thesis using that [OF res oa F(3) _ ld] by simp
qed

section \<open>The manager meets the contract\<close>

definition man_malloc :: "mman \<times> kheap \<Rightarrow> nat \<Rightarrow> (nat option \<times> mman \<times> kheap) option" where
  "man_malloc s n = map_option (\<lambda>(p, s'). (if p = 0 then None else Some (unat p), s')) (mman_alloc s (of_nat n))"

definition man_dealloc :: "mman \<times> kheap \<Rightarrow> nat \<Rightarrow> (mman \<times> kheap) option" where
  "man_dealloc s p = mman_free s (of_nat p)"

definition man_load :: "mman \<times> kheap \<Rightarrow> nat \<Rightarrow> u8" where
  "man_load s x = kh_mem (snd s) (of_nat x)"

definition man_store :: "mman \<times> kheap \<Rightarrow> nat \<Rightarrow> u8 \<Rightarrow> mman \<times> kheap" where
  "man_store s x v = (fst s, (snd s)\<lparr>kh_mem := (kh_mem (snd s))(of_nat x := v)\<rparr>)"

definition man_repr :: "mman \<times> kheap \<Rightarrow> (nat \<rightharpoonup> nat) \<Rightarrow> bool" where
  "man_repr s L \<longleftrightarrow> (\<exists>a k bs. one_area a k bs (fst s) (kh_mem (snd s)) \<and> L = lmap a bs)"

lemma man_malloc_cases:
  assumes r: "man_repr s L" and n: "n < man_lim"
  shows "man_malloc s n = Some (None, s) \<or>
    (\<exists>p j s'. man_malloc s n = Some (Some p, s') \<and> p \<notin> dom L \<and> n \<le> j \<and> man_repr s' (L(p \<mapsto> j)) \<and>
       (\<forall>x. in_live L x \<longrightarrow> man_load s' x = man_load s x))"
proof -
  obtain man h where s: "s = (man, h)" by (cases s)
  obtain a k bs where inv: "one_area a k bs man (kh_mem h)" and L: "L = lmap a bs"
    using r unfolding man_repr_def s by auto
  have small: "mman_alloc (man, h) (of_nat n) = with_mem (\<lambda>mm. mman_alloc_small mm (req_size (of_nat n))) (man, h)"
    using man_lim_small [OF n] by (simp add: mman_alloc_def Let_def not_le [symmetric])
  from man_alloc_step [OF inv n] show ?thesis
  proof (elim disjE exE conjE)
    assume "mman_alloc_small (man, kh_mem h) (req_size (of_nat n)) = Some (0, man, kh_mem h)"
    then show ?thesis by (simp add: man_malloc_def small with_mem_def s)
  next
    fix q d bs' man' m'
    assume al: "mman_alloc_small (man, kh_mem h) (req_size (of_nat n)) = Some (adr q, man', m')"
      and oa: "one_area a k bs' man' m'" and d: "(q, d) \<in> blks a bs'" and q: "8 * q \<notin> dom (lmap a bs)" "n \<le> 8 * bw d"
      and lm: "lmap a bs' = (lmap a bs)(8 * q \<mapsto> 8 * bw d)"
      and ld: "\<forall>x. in_live (lmap a bs) x \<longrightarrow> m' (of_nat x) = kh_mem h (of_nat x)"
    let ?s = "(man', h\<lparr>kh_mem := m'\<rparr>)"
    have "man_malloc s n = Some (Some (8 * q), ?s)"
      using al one_area_blk(1,2) [OF oa d] by (simp add: man_malloc_def small with_mem_def s unat_adr)
    moreover have "man_repr ?s (L(8 * q \<mapsto> 8 * bw d))"
      unfolding man_repr_def using oa lm L by (intro exI [of _ a] exI [of _ k] exI [of _ bs']) simp
    moreover have "\<forall>x. in_live L x \<longrightarrow> man_load ?s x = man_load s x" using ld by (simp add: man_load_def s L)
    ultimately show ?thesis using q L by blast
  qed
qed

lemma no_large: "large_blk_free (replicate 16 0) p dl h = Some (False, replicate 16 0, h)"
proof -
  have "freelist_scan fits m 0 = Some 0" for fits m by (subst freelist_scan.simps) simp
  then show ?thesis by (simp add: large_blk_free_def large_blk_find_def Let_def)
qed

lemma man_dealloc_spec:
  assumes r: "man_repr s L" and p: "p \<in> dom L"
  shows "\<exists>s'. man_dealloc s p = Some s' \<and> man_repr s' (L(p := None)) \<and>
    (\<forall>x. in_live (L(p := None)) x \<longrightarrow> man_load s' x = man_load s x)"
proof -
  obtain man h where s: "s = (man, h)" by (cases s)
  obtain a k bs where inv: "one_area a k bs man (kh_mem h)" and L: "L = lmap a bs"
    using r unfolding man_repr_def s by auto
  obtain y where "lmap a bs p = Some y" using p unfolding L by blast
  then obtain q b where b: "(q, b) \<in> blks a bs" "\<not> bfree b" "p = 8 * q" unfolding lmap_iff by blast
  obtain bs' man' m' where F: "mman_free_small (man, kh_mem h) (adr q) = Some (man', m')" "one_area a k bs' man' m'"
    "lmap a bs' = (lmap a bs)(8 * q := None)"
    "\<And>x. in_live ((lmap a bs)(8 * q := None)) x \<Longrightarrow> m' (of_nat x) = kh_mem h (of_nat x)"
    by (rule man_free_step [OF inv b(1,2)]) (rule that; assumption)
  have nz: "adr q \<noteq> 0" by (rule one_area_blk(1) [OF inv b(1)])
  have "mm_large man = replicate 16 0" using inv by (simp add: one_area_def)
  then have e: "man\<lparr>mm_large := replicate 16 0\<rparr> = man" by (metis mman.surjective mman.update_convs(8))
  have "mman_free s (adr q) = Some (man', h\<lparr>kh_mem := m'\<rparr>)"
    using nz F(1) \<open>mm_large man = replicate 16 0\<close> by (simp add: mman_free_def s no_large e)
  then have d: "man_dealloc s p = Some (man', h\<lparr>kh_mem := m'\<rparr>)" by (simp add: man_dealloc_def b(3) adr_def)
  have "man_repr (man', h\<lparr>kh_mem := m'\<rparr>) (L(p := None))"
    unfolding man_repr_def using F(2,3) L b(3) by (intro exI [of _ a] exI [of _ k] exI [of _ bs']) simp
  then show ?thesis using F(4) d by (simp add: man_load_def s L b(3))
qed

lemma man_store_spec:
  assumes r: "man_repr s L" and x: "in_live L x"
  shows "man_repr (man_store s x v) L"
proof -
  obtain man h where s: "s = (man, h)" by (cases s)
  obtain a k bs where inv: "one_area a k bs man (kh_mem h)" and L: "L = lmap a bs"
    using r unfolding man_repr_def s by auto
  note x' = x [unfolded L]
  note S = pool_store_step [OF one_area_pool(1) [OF inv] x', of v]
  have c: "cells ((kh_mem h)(of_nat x := v)) y = cells (kh_mem h) y" if "y \<notin> {a + 1..<a + 2 + span bs}" for y
    using S(2) that by (simp add: chg_def)
  have "a \<notin> {a + 1..<a + 2 + span bs}" "k + 1 \<notin> {a + 1..<a + 2 + span bs}" using inv by (auto simp: one_area_def)
  then have "one_area a k bs man ((kh_mem h)(of_nat x := v))"
    using inv S(1) c unfolding one_area_def by simp
  then show ?thesis
    unfolding man_repr_def man_store_def s L by (intro exI [of _ a] exI [of _ k] exI [of _ bs]) simp
qed

lemma man_repr_bounds: "man_repr s L \<Longrightarrow> in_live L x \<Longrightarrow> x < 2 ^ 64"
  unfolding man_repr_def using live_cell(2) by blast

interpretation man: allocator man_malloc man_dealloc man_load man_store man_repr man_lim
proof (unfold_locales, goal_cases)
  case (1 s L p i q j)
  then obtain a bs where L: "L = lmap a bs" by (auto simp: man_repr_def)
  obtain p' b where "(p', b) \<in> blks a bs" "p = 8 * p'" "i = 8 * bw b" using 1(2) unfolding L lmap_iff by blast
  moreover obtain q' d where "(q', d) \<in> blks a bs" "q = 8 * q'" "j = 8 * bw d" using 1(3) unfolding L lmap_iff by blast
  ultimately show ?case using place_apart [of p' b "a + 2" bs q' d] 1(4) by auto
next
  case (2 s L n) then show ?case using man_malloc_cases [of s L n] by blast
next
  case (3 s L n s') then show ?case using man_malloc_cases [of s L n] by auto
next
  case (4 s L n p s') then show ?case using man_malloc_cases [of s L n] by auto
next
  case (5 s L n r s' x) then show ?case using man_malloc_cases [of s L n] by auto
next
  case (6 s L p) then show ?case using man_dealloc_spec by blast
next
  case (7 s L p s') then show ?case using man_dealloc_spec by fastforce
next
  case (8 s L p s' x) then show ?case using man_dealloc_spec by fastforce
next
  case (9 s L x v) then show ?case by (rule man_store_spec)
next
  case (10 s L x y v)
  then show ?case using man_repr_bounds [OF 10(1)] by (simp add: man_load_def man_store_def of_nat64_eq_iff)
qed

section \<open>A fresh manager\<close>

definition man_region :: "u64 \<Rightarrow> u64 \<Rightarrow> bool" where
  "man_region main p \<longleftrightarrow> p \<noteq> 0 \<and> p AND (SIZE_2M - 1) = 0 \<and> main AND 7 = 0 \<and>
     unat p + 2 ^ 21 < 2 ^ 64 \<and> unat main + 24 < 2 ^ 64 \<and> (unat main + 24 \<le> unat p \<or> unat p + 2 ^ 21 \<le> unat main)"

lemma aligned_cells:
  assumes "w AND mask n = 0" "3 \<le> n" "n \<le> 64"
  obtains j where "w = adr (2 ^ (n - 3) * j)" "unat w = 8 * (2 ^ (n - 3) * j)"
proof -
  have "take_bit n w = 0" using assms(1) by (simp add: take_bit_eq_mask)
  then have "unat (take_bit n w) = 0" by simp
  then have "take_bit n (unat w) = 0" by (simp only: unsigned_take_bit_eq)
  then have "unat w mod 2 ^ n = 0" by (simp add: take_bit_eq_mod)
  then obtain j where j: "unat w = 2 ^ n * j" by (auto simp: mod_eq_0_iff_dvd)
  have "(2 :: nat) ^ n = 8 * 2 ^ (n - 3)" using assms(2) power_add [of "2 :: nat" 3 "n - 3"] by simp
  with j have u: "unat w = 8 * (2 ^ (n - 3) * j)" by (simp add: mult.assoc)
  then have "w = adr (2 ^ (n - 3) * j)" unfolding adr_def by (metis of_nat_unat ucast_id)
  with u that show thesis by blast
qed

lemma mman_init_area:
  assumes "man_region (mm_main man) p"
  obtains a k man' m' where "mman_init (Some man) p SIZE_2M m = (True, Some man', m')"
    "one_area a k [Blk (2 ^ 18 - 4) True True] man' m'" "mm_alloced_size man' = 0" "mm_size man' = SIZE_2M"
    "p = adr a" "mm_main man' = mm_main man"
proof -
  have R: "p AND mask 21 = 0" "mm_main man AND mask 3 = 0" "p \<noteq> 0"
    using assms by (simp_all add: man_region_def SIZE_2M_def mask_eq_exp_minus_1)
  obtain j where j: "p = adr (2 ^ 18 * j)" "unat p = 8 * (2 ^ 18 * j)" by (rule aligned_cells [OF R(1)]) auto
  obtain k where k: "mm_main man = adr k" "unat (mm_main man) = 8 * k" by (rule aligned_cells [OF R(2)]) auto
  define a where "a = 2 ^ 18 * j"
  have a: "2 \<le> a" "even a" "a + (2 ^ 18 - 4) + 4 < 2 ^ 61" "p = adr a" "2 ^ 18 dvd a"
    using j R(3) assms unfolding a_def man_region_def by (cases j; simp)+
  have kk: "k + 3 < 2 ^ 61" "k + 3 \<le> a \<or> a + 2 ^ 18 \<le> k"
    using k(2) j(2) assms unfolding a_def man_region_def by auto
  define m1 where "m1 = wr64 (wr64 (wr64 m (mm_main man) p) (mm_main man + 8) 0) (mm_main man + 16) 0"
  define man1 where "man1 = man\<lparr>mm_size := SIZE_2M, mm_alloced_size := 0, mm_cb_reqmem := None, mm_cb_delmem := None,
    mm_large_blk := 0, mm_freed := replicate FREELIST_NUM 0, mm_large := replicate (unat LARGEBLKLIST_NUM) 0\<rparr>"
  define r where "r = freelist_put (allocarea_init m1 (adr a) SIZE_2M (adr k)) 0 (adr (a + 2))"
  let ?man = "man1\<lparr>mm_large_blk := fst r\<rparr>"
  have sz: "adr ((2 ^ 18 - 4) + 4) = SIZE_2M" by (simp add: adr_def SIZE_2M_def)
  have pl: "mp_ptr (pool_of (adr a) man1) = adr a" "mp_size (pool_of (adr a) man1) = adr ((2 ^ 18 - 4) + 4)"
    "mp_large_blk (pool_of (adr a) man1) = 0" "mp_freed (pool_of (adr a) man1) = replicate FREELIST_NUM 0"
    using sz by (simp_all add: man1_def)
  have k0: "even (2 ^ 18 - 4 :: nat)" "2048 \<le> (2 ^ 18 - 4 :: nat)" "(2 ^ 18 - 4 :: nat) + 4 < 2 ^ 60" by simp_all
  note F = fresh_area [OF a(1-3) k0 pl, of m1 "adr k", unfolded sz, folded r_def]
  have "mman_init (Some man) p SIZE_2M m = (True, Some ?man, snd r)"
    using R(3) by (simp add: mman_init_def mman_put_large_def split_beta Let_def r_def m1_def man1_def a(4) k(1) SIZE_2M_def)
  moreover have "one_area a k [Blk (2 ^ 18 - 4) True True] ?man (snd r)"
    unfolding one_area_def
  proof (intro conjI)
    have e: "(pool_of (adr a) man1)\<lparr>mp_large_blk := fst r\<rparr> = pool_of (adr a) ?man" by (simp add: pool_of_def man1_def)
    show "pool_inv a [Blk (2 ^ 18 - 4) True True] (pool_of (adr a) ?man) (snd r)" using F(1) by (simp only: e simp_thms)
    show "cells (snd r) a AND NOT FLAG_BITS = adr k"
      using F(3) unfolding FLAG_BITS_mask
      by (intro bit_word_eqI) (auto simp: bit_and_iff bit_or_iff bit_not_iff bit_mask_iff not_less dest: bit_adrD)
    have "cells m1 (k + 1) = 0" using kk by (simp add: m1_def k(1) cell_simps)
    then show "cells (snd r) (k + 1) = mm_alloced_size ?man" using F(2) kk by (auto simp: chg_def man1_def)
  qed (use a kk k in \<open>simp_all add: man1_def LARGEBLKLIST_NUM_def\<close>)
  ultimately show thesis using that a(4) by (simp add: man1_def)
qed

section \<open>Properties\<close>

lemma mman_init_simulates:
  assumes "man_region (mm_main man) p"
  obtains a k man' m' where "mman_init (Some man) p SIZE_2M (kh_mem h) = (True, Some man', m')"
    "one_area a k [Blk (2 ^ 18 - 4) True True] man' m'" "simulates man_load man_repr (man', h\<lparr>kh_mem := m'\<rparr>) Map.empty"
proof -
  let ?bs = "[Blk (2 ^ 18 - 4) True True]"
  obtain a k man' m' where I: "mman_init (Some man) p SIZE_2M (kh_mem h) = (True, Some man', m')" "one_area a k ?bs man' m'"
    by (rule mman_init_area [OF assms])
  have "sizes Map.empty = lmap a ?bs" by (auto simp: lmap_def sizes_def fun_eq_iff)
  then have "man_repr (man', h\<lparr>kh_mem := m'\<rparr>) (sizes Map.empty)"
    unfolding man_repr_def using I(2) by (intro exI [of _ a] exI [of _ k] exI [of _ ?bs]) simp
  then have "simulates man_load man_repr (man', h\<lparr>kh_mem := m'\<rparr>) Map.empty" by (simp add: simulates_def)
  with I show thesis by (rule that)
qed

text \<open>C7: the memory manager implements the abstract heap. \<open>mman_init\<close> on a region of 2 MiB, aligned to its size and apart from the
  manager's own structure, succeeds; from there any sequence of allocations below 16 KiB, releases and stores runs to its end with
  results the abstract heap allows from its empty state, and what the client stored in a block stays there. The only exception is an
  action the client may not take: after the actions before it have run, with the results they gave, it frees or writes outside the blocks
  the client holds, or asks for too much.\<close>

theorem mman_refines_heap:
  assumes "man_region (mm_main man) p"
  shows "\<exists>man' m'. mman_init (Some man) p SIZE_2M (kh_mem h) = (True, Some man', m') \<and>
    ((\<exists>rs s' H'. exec_all (exec man_malloc man_dealloc man_store) (man', h\<lparr>kh_mem := m'\<rparr>) cs = Some (rs, s') \<and>
        hrun Map.empty cs rs H' \<and> simulates man_load man_repr s' H') \<or>
     (\<exists>cs1 c cs2 rs s1 H1. cs = cs1 @ c # cs2 \<and> exec_all (exec man_malloc man_dealloc man_store) (man', h\<lparr>kh_mem := m'\<rparr>) cs1 = Some (rs, s1) \<and>
        hrun Map.empty cs1 rs H1 \<and> simulates man_load man_repr s1 H1 \<and> \<not> legal man_lim H1 c))"
proof -
  obtain man' m' where I: "mman_init (Some man) p SIZE_2M (kh_mem h) = (True, Some man', m')"
    "simulates man_load man_repr (man', h\<lparr>kh_mem := m'\<rparr>) Map.empty" by (rule mman_init_simulates [OF assms])
  from man.run_simulates [OF I(2), of cs] I(1) show ?thesis by blast
qed

text \<open>In a fresh manager there is room.\<close>

lemma man_malloc_fresh:
  assumes "one_area a k [Blk w True True] man (kh_mem h)" "n < man_lim" "req_words (of_nat n) \<le> w"
  obtains p s' where "man_malloc (man, h) n = Some (Some p, s')"
proof -
  note P = one_area_pool [OF assms(1)]
  have cb: "mm_cb_reqmem man = None" "mp_cb_reqmem (pool_of (adr a) man) = None" using assms(1) by (simp_all add: one_area_def)
  have lim: "n < pool_lim" "req_size (of_nat n) < ALLOC_LARGE_BLK_SIZE" using man_lim_small [OF assms(2)] by simp_all
  obtain p pm' where "pool_malloc (pool_of (adr a) man, kh_mem h) n = Some (Some p, pm')"
    by (rule pool_malloc_fresh [OF P(1) cb(2) lim(1) assms(3)])
  then obtain q where q: "mpool_alloc (pool_of (adr a) man, kh_mem h) (of_nat n) = Some (q, pm')" "q \<noteq> 0"
    by (auto simp: pool_malloc_def split: if_splits)
  obtain man' m' where "mman_alloc_small (man, kh_mem h) (req_size (of_nat n)) = Some (q, man', m')"
    using alloc_small_sim [OF P(3) cb(1), of "kh_mem h" "of_nat n", unfolded put_pool_of] q by (cases pm') auto
  then have "man_malloc (man, h) n = Some (Some (unat q), man', h\<lparr>kh_mem := m'\<rparr>)"
    using lim(2) q(2) by (simp add: man_malloc_def mman_alloc_def with_mem_def Let_def not_le [symmetric])
  then show thesis by (rule that)
qed

text \<open>A block is allocated, its last byte written, and it is given back; then another is allocated.\<close>

theorem mman_refines_heap_witness:
  "\<exists>man' m' p rs s'. mman_init (Some \<lparr>mm_main = 0x1000, mm_size = 0, mm_alloced_size = 0, mm_cb_reqmem = None, mm_cb_delmem = None,
       mm_large_blk = 0, mm_freed = [], mm_large = []\<rparr>) 0x400000 SIZE_2M (kh_mem demo_heap) = (True, Some man', m') \<and>
     exec_all (exec man_malloc man_dealloc man_store) (man', demo_heap\<lparr>kh_mem := m'\<rparr>) [Alloc 100, Store p 99 7, Free p, Alloc 5000] =
       Some (Some p # rs, s')"
proof -
  let ?man = "\<lparr>mm_main = 0x1000, mm_size = 0, mm_alloced_size = 0, mm_cb_reqmem = None, mm_cb_delmem = None,
    mm_large_blk = 0, mm_freed = [], mm_large = []\<rparr>"
  have r: "man_region (mm_main ?man) 0x400000" by (simp add: man_region_def SIZE_2M_def)
  obtain a k man' m' where I: "mman_init (Some ?man) 0x400000 SIZE_2M (kh_mem demo_heap) = (True, Some man', m')"
    "one_area a k [Blk (2 ^ 18 - 4) True True] man' m'" by (rule mman_init_area [OF r])
  have lim: "99 < (100 :: nat)" "(100 :: nat) < man_lim" "(5000 :: nat) < man_lim" by (simp_all add: man_lim_def)
  have I': "one_area a k [Blk (2 ^ 18 - 4) True True] man' (kh_mem (demo_heap\<lparr>kh_mem := m'\<rparr>))" using I(2) by simp
  obtain p s1 where al: "man_malloc (man', demo_heap\<lparr>kh_mem := m'\<rparr>) 100 = Some (Some p, s1)"
    by (rule man_malloc_fresh [OF I' lim(2)]) (auto simp: req_words_def)
  have run: "(\<exists>rs s' H'. exec_all (exec man_malloc man_dealloc man_store) (man', demo_heap\<lparr>kh_mem := m'\<rparr>) cs = Some (rs, s') \<and>
        hrun Map.empty cs rs H' \<and> simulates man_load man_repr s' H') \<or>
     (\<exists>cs1 c cs2 rs s1 H1. cs = cs1 @ c # cs2 \<and> exec_all (exec man_malloc man_dealloc man_store) (man', demo_heap\<lparr>kh_mem := m'\<rparr>) cs1 = Some (rs, s1) \<and>
        hrun Map.empty cs1 rs H1 \<and> simulates man_load man_repr s1 H1 \<and> \<not> legal man_lim H1 c)" for cs
    using mman_refines_heap [OF r, of demo_heap cs] I(1) by auto
  show ?thesis using client_runs [where alloc = man_malloc, OF al lim run] I(1) by blast
qed

end
