(* ===== verification/MmanGrow.thy ===== *)
theory MmanGrow
  imports Mman
begin

unbundle bit_operations_syntax

text \<open>
  How a manager gets more memory, and how it gives all of it back (\<^verbatim>\<open>mman_reqmem\<close>, \<^verbatim>\<open>mman_alloc\<close> and \<^verbatim>\<open>mman_deinit\<close> of \<^verbatim>\<open>mm/heap/mman.cpp\<close>).

  A new area of 4 KiB has room for a block of 4016 bytes, 80 less than the area; \<open>mman_reqmem\<close> decides by 56 bytes whether 4 KiB are
  enough. \<open>mman_grow_faults_iff\<close> states for which requests the difference matters. \<open>mman_deinit\<close> reads through the null pointer at the end of the
  list of areas, whenever it has a callback to run.
\<close>

section \<open>A new area\<close>

lemma new_area_cells:
  fixes m :: mem
  assumes a: "1 \<le> a" "a + k + 4 < 2 ^ 61" and k: "10 \<le> k" and main: "j + 3 < 2 ^ 61" "j + 3 \<le> a \<or> a + k + 4 \<le> j"
  defines "g \<equiv> adr (k + 4) = SIZE_2M" and "r \<equiv> new_area (adr j) (adr a) (adr (k + 4)) m"
  shows "fst r = adr (a + 8)" "cells (snd r) (a + 7) = hdr (Blk (k - 6) True g)"
proof -
  have pd: "PADDING MMAN_POOL_BYTES = adr 4" by (simp add: PADDING_def MMAN_POOL_BYTES_def adr_def)
  define m1 where "m1 = allocarea_init m (adr a) (adr (k + 4)) (adr (a + 2))"
  define m2 where "m2 = snd (blk_split m1 (adr (a + 2)) (adr 4))"
  define m3 where "m3 = blk_setalloced m2 (adr (a + 2)) (adr 4)"
  define m4 where "m4 = blk_setfreed m3 (adr (a + 8)) (adr (k - 6))"
  have "cells m1 = tag_blk ((cells m)(a + k + 3 := adr (a + 2) OR AREA_FLAG OR (if g then SIZE_FLAG else 0),
      a := adr (a + 2) OR AREA_FLAG OR (if g then SIZE_FLAG else 0))) (a + 2) k (hdr (Blk k True g))"
    unfolding m1_def g_def using a k by (intro allocarea_init_cells) simp_all
  then have h1: "cells m1 (a + 1) = hdr (Blk k True g)" by (simp add: tag_blk_def)
  have r1: "blk_area_is_2M m1 (adr (a + 2)) = g" "blk_size m1 (adr (a + 2)) = adr k"
    using a h1 by (simp_all add: blk_area_is_2M_def blk_size_def blk_head_cells)
  have S: "fst (blk_split m1 (adr (a + 2)) (adr 4)) = adr (a + 2 + 4 + 2)"
    "cells m2 = tag_blk (tag_blk (cells m1) (a + 2) 4 (hdr (Blk 4 False g))) (a + 2 + 4 + 2) (k - 4 - 2) (hdr (Blk (k - 4 - 2) False g))"
    unfolding m2_def using blk_split_cells [OF r1, of 4] a k by simp_all
  have h2: "cells m2 (a + 1) = hdr (Blk 4 False g)" "cells m2 (a + 6) = hdr (Blk 4 False g)"
    "cells m2 (a + 7) = hdr (Blk (k - 6) False g)" "cells m2 (a + k + 2) = hdr (Blk (k - 6) False g)"
    unfolding S(2) using k by (auto simp: tag_blk_def)
  have s2: "blk_size m2 (adr (a + 2)) = adr 4" using a h2(1) by (simp add: blk_size_def blk_head_cells)
  have c3: "cells m3 = tag_blk (cells m2) (a + 2) 4 (hdr (Blk 4 False g))"
    unfolding m3_def using flag_op_cells(1) [of "a + 2" "Blk 4 False g" m2] a k h2 by (simp add: add.commute)
  have h3: "cells m3 (a + 7) = hdr (Blk (k - 6) False g)" "cells m3 (a + k + 2) = hdr (Blk (k - 6) False g)"
    unfolding c3 using h2 k by (auto simp: tag_blk_def)
  have s3: "blk_size m3 (adr (a + 8)) = adr (k - 6)" using a k h3(1) by (simp add: blk_size_def blk_head_cells add.commute [of 7 a])
  have c4: "cells m4 = tag_blk (cells m3) (a + 8) (k - 6) (hdr (Blk (k - 6) True g))"
    unfolding m4_def using flag_op_cells(2) [of "a + 8" "Blk (k - 6) False g" m3] a k h3 by (simp add: add.commute [of 7 a])
  then have h4: "cells m4 (a + 7) = hdr (Blk (k - 6) True g)" by (simp add: tag_blk_def)
  have p: "adr a + 2 * 8 = adr (a + 2)" "adr (a + 2) + 8 = adr (a + 3)" "adr (a + 2) + 16 = adr (a + 4)" "adr j + 16 = adr (j + 2)"
    by (simp_all add: adr_def)
  have "a + 2 + 4 + 2 = a + 8" by simp
  then have q: "fst (blk_split m1 (adr (a + 2)) (adr 4)) = adr (a + 8)" using S(1) by (simp only:)
  have r: "r = (adr (a + 8), wr64 (wr64 (wr64 (wr64 m4 (adr (a + 2)) (adr a)) (adr (a + 3)) 0) (adr (a + 4))
      (mpl_next (wr64 (wr64 m4 (adr (a + 2)) (adr a)) (adr (a + 3)) 0) (adr j))) (adr (j + 2)) (adr (a + 2)))"
    unfolding r_def new_area_def Let_def p pd m1_def [symmetric] split_beta m2_def [symmetric] q s2 m3_def [symmetric]
      s3 m4_def [symmetric] by (rule refl)
  show "fst r = adr (a + 8)" "cells (snd r) (a + 7) = hdr (Blk (k - 6) True g)"
    unfolding r using a main h4 k by (auto simp: cells_wr64_adr)
qed

text \<open>Where the callback's memory may be: a good place for an area of \<open>n\<close> cells, apart from the manager's own structure.\<close>

definition good_place :: "mman \<Rightarrow> u64 \<Rightarrow> u64 \<Rightarrow> bool" where
  "good_place man p s \<longleftrightarrow> (\<exists>a j. p = adr a \<and> mm_main man = adr j \<and> 1 \<le> a \<and> unat p + unat s < 2 ^ 64 \<and> a < 2 ^ 61 \<and>
     j + 3 < 2 ^ 61 \<and> (j + 3 \<le> a \<or> unat p + unat s \<le> 8 * j))"

definition no_room :: "mman \<Rightarrow> bool" where
  "no_room man \<longleftrightarrow> mm_large_blk man = 0 \<and> mm_freed man = replicate FREELIST_NUM 0"

lemma area_bytes_cells:
  obtains k where "area_bytes s = adr (k + 4)" "10 \<le> k" "k + 4 < 2 ^ 61" "k - 6 = (if s > SIZE_4k then 262134 else 502)"
proof (cases "s > SIZE_4k")
  case True
  show ?thesis by (rule that [of 262140]) (use True in \<open>simp_all add: area_bytes_def SIZE_2M_def adr_def\<close>)
next
  case False
  show ?thesis by (rule that [of 508]) (use False in \<open>simp_all add: area_bytes_def SIZE_4k_def adr_def\<close>)
qed

lemma reqmem_area:
  assumes cb: "mm_cb_reqmem man = Some rq" "rq 0 (area_bytes (s + 56)) m = (p, m1)" and p: "good_place man p (area_bytes (s + 56))"
    and s: "s + 56 \<le> SIZE_2M" and nr: "no_room man"
  obtains q man' m' where "mman_reqmem (man, m) s = (True, man', m')" "q \<noteq> 0" "mm_large_blk man' = q" "rd64 m' q = 0"
    "blk_size m' q = adr (if s + 56 > SIZE_4k then 262134 else 502)"
proof -
  obtain a j where aj: "p = adr a" "mm_main man = adr j" "1 \<le> a" "unat p + unat (area_bytes (s + 56)) < 2 ^ 64" "a < 2 ^ 61"
    "j + 3 < 2 ^ 61" "j + 3 \<le> a \<or> unat p + unat (area_bytes (s + 56)) \<le> 8 * j"
    using p by (auto simp: good_place_def)
  obtain k where k: "area_bytes (s + 56) = adr (k + 4)" "10 \<le> k" "k + 4 < 2 ^ 61"
    "k - 6 = (if s + 56 > SIZE_4k then 262134 else 502)" by (rule area_bytes_cells)
  have u: "unat p = 8 * a" "unat (area_bytes (s + 56)) = 8 * (k + 4)" using aj(1,5) k(1,3) by (simp_all add: unat_adr)
  have ak: "a + k + 4 < 2 ^ 61" "j + 3 \<le> a \<or> a + k + 4 \<le> j" using aj(4,7) u by auto
  define r where "r = new_area (adr j) (adr a) (adr (k + 4)) m1"
  note N = new_area_cells [OF aj(3) ak(1) k(2) aj(6) ak(2), of m1, folded r_def]
  let ?q = "adr (a + 8)"
  define m' where "m' = wr64 (wr64 (snd r) ?q 0) (?q + 8) 0"
  have c: "cells m' (a + 7) = cells (snd r) (a + 7)" "cells m' (a + 8) = 0"
    using ak k(2) by (simp_all add: m'_def cells_wr64_adr)
  have nz: "adr a \<noteq> 0" "?q \<noteq> 0" using aj(3,5) ak(1) k(2) by simp_all
  let ?man = "man\<lparr>mm_size := mm_size man + adr (k + 4), mm_large_blk := ?q\<rparr>"
  have "rd64 (wr64 (wr64 (snd r) ?q 0) (?q + 8) 0) ?q = 0" using ak k(2) by (simp add: cell_simps)
  then have put: "freelist_put (snd r) 0 ?q = (?q, m')" by (simp add: freelist_put_def Let_def m'_def)
  have sz: "s + (MMAN_POOL_BYTES + 4 * 8) = s + 56" by (simp add: MMAN_POOL_BYTES_def)
  have "mman_reqmem (man, m) s = (True, ?man, m')"
    using s nz nr put N(1) cb unfolding mman_reqmem_def sz
    by (simp add: split_beta Let_def aj(1,2) k(1) r_def [symmetric] mman_put_large_def no_room_def not_less)
  moreover have "rd64 m' ?q = 0" using c(2) ak k(2) by (simp add: rd64_adr)
  moreover have "blk_size m' ?q = adr (if s + 56 > SIZE_4k then 262134 else 502)"
    using c(1) N(2) ak(1) k(2) by (simp add: blk_size_def blk_head_cells add.commute [of 7 a] k(4) [symmetric])
  ultimately show thesis using that nz(2) by simp
qed

lemma match_no_room:
  assumes "no_room man" shows "mman_match (man, m) s = Some (0, man, m)"
proof -
  have sc: "freelist_scan fits m 0 = Some 0" for fits by (subst freelist_scan.simps) simp
  have "freelists_take fits m (replicate FREELIST_NUM 0) i = Some (0, replicate FREELIST_NUM 0, m)" for fits i
  proof (induction "FREELIST_NUM - i" arbitrary: i)
    case 0
    then show ?case by (simp add: freelists_take.simps [of fits m _ i])
  next
    case (Suc n)
    then have "i < FREELIST_NUM" "n = FREELIST_NUM - (i + 1)" by auto
    with Suc(1) [of "i + 1"] show ?case by (simp add: freelists_take.simps [of fits m _ i] sc)
  qed
  then have "freelists_match m (mm_freed man) s = Some (0, mm_freed man, m)"
    using assms by (simp add: freelists_match_def no_room_def Let_def)
  moreover have "mman_match_large (man, m) s = Some (0, man, m)"
    using assms by (simp add: mman_match_large_def freelist_match_def freelist_take_def no_room_def sc)
  ultimately show ?thesis by (simp add: mman_match_def)
qed

section \<open>Properties\<close>

text \<open>C34: a manager whose free lists are empty asks its callback for an area. For a request below 16 KiB, with an area that the
  callback places properly, the allocation then succeeds unless the request is between 4017 and 4032 bytes: those are sent to an area of
  4 KiB, whose block has only 4016 bytes, and the manager goes on with the null pointer that the search gives it.\<close>

theorem mman_grow_faults_iff:
  assumes cb: "mm_cb_reqmem man = Some rq" "rq 0 (area_bytes (req_size s + 56)) (kh_mem h) = (p, m1)"
    and p: "good_place man p (area_bytes (req_size s + 56))" and nr: "no_room man" and s: "unat s < 16 * 1024 - 15"
  shows "(mman_alloc (man, h) s = None) = (4016 < unat s \<and> unat s \<le> 4032)"
proof -
  let ?w = "req_words s" and ?big = "req_size s + 56 > SIZE_4k"
  have rs: "req_size s = adr ?w" by (rule req_size_eq) (use s in simp)
  have w: "?w \<le> 2047" using s by (auto simp: req_words_def)
  then have u: "unat (req_size s) = 8 * ?w" unfolding rs by (rule_tac unat_adr) simp
  have u56: "unat (req_size s + 56) = 8 * ?w + 56" using u w by (simp add: unat_word_ariths)
  have le: "req_size s + 56 \<le> SIZE_2M" using u56 w by (simp add: word_le_nat_alt SIZE_2M_def)
  have lim: "\<not> req_size s \<ge> ALLOC_LARGE_BLK_SIZE" using u w by (simp add: word_le_nat_alt ALLOC_LARGE_BLK_SIZE_def)
  have big: "?big \<longleftrightarrow> 505 < ?w" using u56 by (auto simp: word_less_nat_alt SIZE_4k_def)
  obtain q man' m' where R: "mman_reqmem (man, kh_mem h) (req_size s) = (True, man', m')" "q \<noteq> 0" "mm_large_blk man' = q"
    "rd64 m' q = 0" "blk_size m' q = adr (if ?big then 262134 else 502)"
    by (rule reqmem_area [OF cb p le nr])
  let ?fits = "blk_size m' q \<ge> req_size s"
  have fits: "?fits \<longleftrightarrow> ?w \<le> (if ?big then 262134 else 502)" using R(5) w unfolding rs by (simp add: adr_le_iff)
  have sc: "freelist_scan f m' 0 = Some 0" for f by (subst freelist_scan.simps) simp
  have "freelist_scan (\<lambda>list. blk_size m' list \<ge> req_size s) m' q = Some (if ?fits then q else 0)"
    using R(2,4) sc by (subst freelist_scan.simps) simp
  then have "(mman_alloc_small (man, kh_mem h) (req_size s) = None) = (\<not> ?fits)"
    using R(1-3)
    by (simp add: mman_alloc_small_def match_no_room [OF nr] mman_match_large_def freelist_match_def freelist_take_def
        freelist_detach_def split_beta Let_def)
  then have "(mman_alloc (man, h) s = None) = (\<not> ?fits)"
    using lim by (simp add: mman_alloc_def with_mem_def Let_def)
  also have "\<dots> = (502 < ?w \<and> ?w \<le> 505)" using fits big w by auto
  also have "\<dots> = (?w = 504)" using req_words_ok(1) [of s] by presburger
  also have "\<dots> = (4016 < unat s \<and> unat s \<le> 4032)" unfolding req_words_def by auto
  finally show ?thesis .
qed

text \<open>A manager at 0x1000 whose callback gives an area at 0x400000.\<close>

definition demo_man :: mman where
  "demo_man = \<lparr>mm_main = 0x1000, mm_size = 0, mm_alloced_size = 0, mm_cb_reqmem = Some (\<lambda>_ _ m. (0x400000, m)),
     mm_cb_delmem = Some (\<lambda>_ _ m. m), mm_large_blk = 0, mm_freed = replicate FREELIST_NUM 0, mm_large = replicate 16 0\<rparr>"

lemma demo_place: "good_place demo_man 0x400000 (area_bytes s)"
  unfolding good_place_def
  by (rule exI [of _ "0x80000"], rule exI [of _ "0x200"])
    (simp add: demo_man_def adr_def area_bytes_def SIZE_4k_def SIZE_2M_def)

theorem mman_grow_faults_iff_witness:
  "mman_alloc (demo_man, demo_heap) 4020 = None \<and> mman_alloc (demo_man, demo_heap) 4000 \<noteq> None"
proof -
  have "no_room demo_man" by (simp add: no_room_def demo_man_def)
  then have "(mman_alloc (demo_man, demo_heap) s = None) = (4016 < unat s \<and> unat s \<le> 4032)" if "unat s < 16 * 1024 - 15" for s
    using that by (intro mman_grow_faults_iff [where rq = "\<lambda>_ _ m. (0x400000, m)" and p = "0x400000"] demo_place)
      (simp_all add: demo_man_def)
  from this [of 4020] this [of 4000] show ?thesis by simp
qed

lemma mman_release_null: "mman_release dl p n m = Some m' \<Longrightarrow> p = 0"
proof (rule mman_release.raw_induct [of "\<lambda>dl p n m m'. p = 0"], goal_cases)
  case (1 rel dl p n m m')
  show ?case
  proof (rule ccontr)
    assume "p \<noteq> 0"
    with 1(3) obtain n' where "n \<noteq> 0" "rel dl n n' (dl (mpl_ptr m p) (allocarea_size m (mpl_ptr m p)) m) = Some m'"
      by (auto simp: next_or_fault_def Let_def split: if_splits bind_splits)
    with 1(2) show False by blast
  qed
qed

text \<open>\<open>mman_deinit\<close> of a manager with a callback for giving memory back does not return, however many areas the manager has: the walk over
  them follows the null pointer that ends it before it tests for it.\<close>

theorem mman_deinit_faults:
  assumes "mm_cb_delmem man = Some dl"
  shows "mman_deinit (Some man) m = None"
proof -
  have "Option.bind (next_or_fault m p) (\<lambda>n. mman_release dl p n m) = None" for p
    using mman_release_null [of dl p _ m] by (cases "p = 0"; cases "mman_release dl p (mpl_next m p) m")
      (auto simp: next_or_fault_def)
  then have "Option.bind (next_or_fault m p) (\<lambda>n. Option.bind (mman_release dl p n m) f) = None" for p f
    by (metis Option.bind_assoc bind.bind_lzero)
  then show ?thesis using assms by (simp add: mman_deinit_def Let_def)
qed

theorem mman_deinit_faults_witness: "mman_deinit (Some demo_man) (\<lambda>_. 0) = None"
  by (rule mman_deinit_faults [of _ "\<lambda>_ _ m. m"]) (simp add: demo_man_def)

end
