(* ===== verification/Printf.thy ===== *)
theory Printf
  imports Memory "HOL-Library.Monad_Syntax"
begin

unbundle bit_operations_syntax

text \<open>
  Formatted output: the second half of \<^verbatim>\<open>libs/klibc.cpp\<close>.

  The output position and memory are threaded through as a pair; \<open>putc\<close> is \<^verbatim>\<open>*str++ = c\<close>. The format is a list of
  characters whose end is the terminating zero: it is a constant of the caller and does not overlap the buffer. The variable arguments
  are a list of 64-bit words; taking one from the empty list is undefined in C and \<open>None\<close> here. Field width and precision are
  \<^verbatim>\<open>int\<close>s that the sources only decrement and compare; they are integers here, so the statements are about formats whose
  numbers fit an \<^verbatim>\<open>int\<close>. The printed number itself is a 64-bit word.

  \<open>number_text\<close> is the reference for \<open>number\<close>: the text of a number as a list of bytes, put together from sign, prefix, leading
  zeros and digits and padded on one side.
\<close>

type_synonym out = "u64 \<times> mem"

definition putc :: "u8 \<Rightarrow> out \<Rightarrow> out" where
  "putc c o1 = (fst o1 + 1, (snd o1)(fst o1 := c))"

definition ZEROPAD :: u32 where "ZEROPAD = 1"
definition SIGN :: u32 where "SIGN = 2"
definition PLUS :: u32 where "PLUS = 4"
definition SPACE :: u32 where "SPACE = 8"
definition LEFT :: u32 where "LEFT = 16"
definition SMALL :: u32 where "SMALL = 32"
definition SPECIAL :: u32 where "SPECIAL = 64"

text \<open>The digits of \<^verbatim>\<open>0123456789ABCDEF\<close>.\<close>

definition digits :: "u8 list" where
  "digits = [0x30, 0x31, 0x32, 0x33, 0x34, 0x35, 0x36, 0x37, 0x38, 0x39, 0x41, 0x42, 0x43, 0x44, 0x45, 0x46]"

text \<open>\<open>digit_loop\<close> fills \<open>tmp\<close>, the least significant digit first. \<open>number\<close> has already rejected bases below 2.\<close>

function digit_loop :: "u64 \<Rightarrow> u64 \<Rightarrow> u8 \<Rightarrow> u8 list" where
  "digit_loop num base locase =
     (if num = 0 \<or> base < 2 then []
      else (digits ! unat (num mod base) OR locase) # digit_loop (num div base) base locase)"
  by pat_completeness auto
termination
proof (relation "measure (\<lambda>(num, base, locase). unat num)", simp, clarsimp)
  fix num base :: u64
  assume "num \<noteq> 0" "\<not> base < 2"
  then have "0 < unat num" "1 < unat base" by (auto simp: unat_gt_0 word_less_nat_alt)
  then show "unat (num div base) < unat num" by (simp add: unat_div)
qed

declare digit_loop.simps [simp del]

text \<open>\<^verbatim>\<open>while (size-- > 0) *str++ = c\<close>\<close>

function pad_loop :: "u8 \<Rightarrow> int \<Rightarrow> out \<Rightarrow> int \<times> out" where
  "pad_loop c n o1 = (if n > 0 then pad_loop c (n - 1) (putc c o1) else (n - 1, o1))"
  by pat_completeness auto
termination by (relation "measure (\<lambda>(c, n, o1). nat n)") auto

text \<open>\<^verbatim>\<open>while (i < precision--) *str++ = '0'\<close>\<close>

function zero_loop :: "int \<Rightarrow> int \<Rightarrow> out \<Rightarrow> out" where
  "zero_loop i precision o1 = (if i < precision then zero_loop i (precision - 1) (putc 0x30 o1) else o1)"
  by pat_completeness auto
termination by (relation "measure (\<lambda>(i, precision, o1). nat (precision - i))") auto

declare pad_loop.simps [simp del] zero_loop.simps [simp del]

text \<open>\<^verbatim>\<open>while (i-- > 0) *str++ = tmp[i]\<close>\<close>

primrec tmp_loop :: "nat \<Rightarrow> u8 list \<Rightarrow> out \<Rightarrow> out" where
  "tmp_loop 0 tmp o1 = o1"
| "tmp_loop (Suc i) tmp o1 = tmp_loop i tmp (putc (tmp ! i) o1)"

definition sign_of :: "u64 \<Rightarrow> int \<Rightarrow> u32 \<Rightarrow> u8 \<times> u64 \<times> int" where
  "sign_of num sz ty =
     (if ty AND SIGN \<noteq> 0 then
        if sint num < 0 then (0x2D, - num, sz - 1)
        else if ty AND PLUS \<noteq> 0 then (0x2B, num, sz - 1)
        else if ty AND SPACE \<noteq> 0 then (0x20, num, sz - 1)
        else (0, num, sz)
      else (0, num, sz))"

definition number :: "out \<Rightarrow> u64 \<Rightarrow> int \<Rightarrow> int \<Rightarrow> int \<Rightarrow> u32 \<Rightarrow> out option" where
  "number o0 num0 base size0 precision0 ty0 =
     (let locase = ucast (ty0 AND SMALL) :: u8;
          ty = (if ty0 AND LEFT \<noteq> 0 then ty0 AND NOT ZEROPAD else ty0)
      in
      if base < 2 \<or> base > 16 then None
      else
        let c = (if ty AND ZEROPAD \<noteq> 0 then 0x30 else 0x20) :: u8;
            (sign, num, size1) = sign_of num0 size0 ty;
            size2 = (if ty AND SPECIAL \<noteq> 0 then
                       if base = 16 then size1 - 2 else if base = 8 then size1 - 1 else size1
                     else size1);
            tmp = (if num = 0 then [0x30] else digit_loop num (of_int base) locase);
            i = length tmp;
            precision = (if int i > precision0 then int i else precision0);
            size3 = size2 - precision;
            (size4, o1) = (if ty AND (ZEROPAD + LEFT) = 0 then pad_loop 0x20 size3 o0 else (size3, o0));
            o2 = (if sign \<noteq> 0 then putc sign o1 else o1);
            o3 = (if ty AND SPECIAL \<noteq> 0 then
                    if base = 8 then putc 0x30 o2
                    else if base = 16 then putc (0x58 OR locase) (putc 0x30 o2) else o2
                  else o2);
            (size5, o4) = (if ty AND LEFT = 0 then pad_loop c size4 o3 else (size4, o3));
            o5 = zero_loop (int i) precision o4;
            o6 = tmp_loop i tmp o5;
            (size6, o7) = pad_loop 0x20 size5 o6
        in Some o7)"

definition isdigit :: "char \<Rightarrow> bool" where
  "isdigit c \<longleftrightarrow> of_char c \<ge> (of_char (CHR ''0'') :: int) \<and> of_char c \<le> (of_char (CHR ''9'') :: int)"

fun skip_atoi :: "int \<Rightarrow> char list \<Rightarrow> int \<times> char list" where
  "skip_atoi i [] = (i, [])"
| "skip_atoi i (c # cs) =
     (if isdigit c then skip_atoi (i * 10 + (of_char c - of_char (CHR ''0''))) cs else (i, c # cs))"


section \<open>Format directives\<close>

fun parse_flags :: "u32 \<Rightarrow> char list \<Rightarrow> u32 \<times> char list" where
  "parse_flags flags [] = (flags, [])"
| "parse_flags flags (c # cs) =
     (if c = CHR ''-'' then parse_flags (flags OR LEFT) cs
      else if c = CHR ''+'' then parse_flags (flags OR PLUS) cs
      else if c = CHR '' '' then parse_flags (flags OR SPACE) cs
      else if c = CHR ''#'' then parse_flags (flags OR SPECIAL) cs
      else if c = CHR ''0'' then parse_flags (flags OR ZEROPAD) cs
      else (flags, c # cs))"

text \<open>\<^verbatim>\<open>va_arg(args, int)\<close> takes the low 32 bits of the next argument, signed.\<close>

definition int_arg :: "u64 \<Rightarrow> int" where
  "int_arg a = sint (ucast a :: u32)"

definition parse_width :: "u32 \<Rightarrow> char list \<Rightarrow> u64 list \<Rightarrow> (u32 \<times> int \<times> char list \<times> u64 list) option" where
  "parse_width flags fmt args =
     (case fmt of
        [] \<Rightarrow> Some (flags, - 1, [], args)
      | c # cs \<Rightarrow>
          if isdigit c then (let (w, fmt') = skip_atoi 0 fmt in Some (flags, w, fmt', args))
          else if c = CHR ''*'' then
            (case args of
               [] \<Rightarrow> None
             | a # args' \<Rightarrow>
                 if int_arg a < 0 then Some (flags OR LEFT, - int_arg a, cs, args') else Some (flags, int_arg a, cs, args'))
          else Some (flags, - 1, fmt, args))"

definition parse_precision :: "char list \<Rightarrow> u64 list \<Rightarrow> (int \<times> char list \<times> u64 list) option" where
  "parse_precision fmt args =
     (case fmt of
        [] \<Rightarrow> Some (- 1, [], args)
      | c # cs \<Rightarrow>
          if c = CHR ''.'' then
            (case cs of
               [] \<Rightarrow> Some (0, [], args)
             | d # ds \<Rightarrow>
                 if isdigit d then (let (p, fmt') = skip_atoi 0 cs in Some (if p < 0 then 0 else p, fmt', args))
                 else if d = CHR ''*'' then
                   (case args of
                      [] \<Rightarrow> None
                    | a # args' \<Rightarrow> Some (if int_arg a < 0 then 0 else int_arg a, ds, args'))
                 else Some (0, cs, args))
          else Some (- 1, fmt, args))"

definition parse_qualifier :: "char list \<Rightarrow> char option \<times> char list" where
  "parse_qualifier fmt =
     (case fmt of
        [] \<Rightarrow> (None, [])
      | c # cs \<Rightarrow> if c = CHR ''h'' \<or> c = CHR ''l'' \<or> c = CHR ''L'' then (Some c, cs) else (None, fmt))"

text \<open>\<^verbatim>\<open>while (--field_width > 0) *str++ = ' '\<close> and \<^verbatim>\<open>while (len < field_width--) *str++ = ' '\<close>\<close>

function pre_pad :: "int \<Rightarrow> out \<Rightarrow> int \<times> out" where
  "pre_pad w o1 = (if w - 1 > 0 then pre_pad (w - 1) (putc 0x20 o1) else (w - 1, o1))"
  by pat_completeness auto
termination by (relation "measure (\<lambda>(w, o1). nat w)") auto

function len_pad :: "int \<Rightarrow> int \<Rightarrow> out \<Rightarrow> int \<times> out" where
  "len_pad len w o1 = (if len < w then len_pad len (w - 1) (putc 0x20 o1) else (w - 1, o1))"
  by pat_completeness auto
termination by (relation "measure (\<lambda>(len, w, o1). nat (w - len))") auto

declare pre_pad.simps [simp del] len_pad.simps [simp del]

definition put_char :: "u32 \<Rightarrow> int \<Rightarrow> u64 \<Rightarrow> out \<Rightarrow> out" where
  "put_char flags field_width arg o0 =
     (let (w, o1) = (if flags AND LEFT = 0 then pre_pad field_width o0 else (field_width, o0));
          o2 = putc (ucast arg) o1
      in snd (pre_pad w o2))"

text \<open>The string is read from memory while the output is written, byte by byte.\<close>

primrec copy_string :: "nat \<Rightarrow> u64 \<Rightarrow> out \<Rightarrow> out" where
  "copy_string 0 s o1 = o1"
| "copy_string (Suc n) s o1 = copy_string n (s + 1) (putc (snd o1 s) o1)"

definition put_string :: "u32 \<Rightarrow> int \<Rightarrow> int \<Rightarrow> u64 \<Rightarrow> out \<Rightarrow> out" where
  "put_string flags field_width precision s o0 =
     (let len = sint (ucast (strnlen (snd o0) s (of_int precision)) :: u32);
          (w, o1) = (if flags AND LEFT = 0 then len_pad len field_width o0 else (field_width, o0));
          o2 = copy_string (nat len) s o1
      in snd (len_pad len w o2))"

definition integer_arg :: "char option \<Rightarrow> u32 \<Rightarrow> u64 \<Rightarrow> u64" where
  "integer_arg qualifier flags a =
     (if qualifier = Some (CHR ''l'') then a
      else if qualifier = Some (CHR ''h'') then
        (if flags AND SIGN \<noteq> 0 then scast (ucast a :: u16) else ucast (ucast a :: u16))
      else if flags AND SIGN \<noteq> 0 then scast (ucast a :: u32)
      else ucast (ucast a :: u32))"

text \<open>The base and flags an integer conversion selects.\<close>

definition integer_conv :: "char \<Rightarrow> u32 \<Rightarrow> (int \<times> u32) option" where
  "integer_conv c flags =
     (if c = CHR ''o'' then Some (8, flags)
      else if c = CHR ''x'' then Some (16, flags OR SMALL)
      else if c = CHR ''X'' then Some (16, flags)
      else if c = CHR ''d'' \<or> c = CHR ''i'' then Some (10, flags OR SIGN)
      else if c = CHR ''u'' then Some (10, flags)
      else None)"

definition wr32 :: "mem \<Rightarrow> u64 \<Rightarrow> u32 \<Rightarrow> mem" where
  "wr32 m a v = (\<lambda>x. if x - a < 4 then ucast (drop_bit (8 * unat (x - a)) v) else m x)"

text \<open>One directive, after the percent sign. The result is the rest of the format and of the arguments, and the output.\<close>

definition directive :: "u64 \<Rightarrow> char list \<Rightarrow> u64 list \<Rightarrow> out \<Rightarrow> (char list \<times> u64 list \<times> out) option" where
  "directive buf fmt0 args0 o0 = do {
     let (flags0, fmt1) = parse_flags 0 fmt0;
     (flags, field_width, fmt2, args1) \<leftarrow> parse_width flags0 fmt1 args0;
     (precision, fmt3, args2) \<leftarrow> parse_precision fmt2 args1;
     let (qualifier, fmt4) = parse_qualifier fmt3;
     (case fmt4 of
        [] \<Rightarrow> Some ([], args2, putc 0x25 o0)
      | c # fmt5 \<Rightarrow>
          if c = CHR ''%'' then Some (fmt5, args2, putc 0x25 o0)
          else if c = CHR ''c'' then
            (case args2 of [] \<Rightarrow> None | a # args3 \<Rightarrow> Some (fmt5, args3, put_char flags field_width a o0))
          else if c = CHR ''s'' then
            (case args2 of [] \<Rightarrow> None | a # args3 \<Rightarrow> Some (fmt5, args3, put_string flags field_width precision a o0))
          else if c = CHR ''p'' then
            (case args2 of
               [] \<Rightarrow> None
             | a # args3 \<Rightarrow>
                 (let (w, fl) = (if field_width = - 1 then (16, flags OR ZEROPAD) else (field_width, flags))
                  in map_option (\<lambda>o1. (fmt5, args3, o1)) (number o0 a 16 w precision fl)))
          else if c = CHR ''n'' then
            (case args2 of
               [] \<Rightarrow> None
             | a # args3 \<Rightarrow>
                 Some (fmt5, args3, fst o0,
                   if qualifier = Some (CHR ''l'') then wr64 (snd o0) a (fst o0 - buf)
                   else wr32 (snd o0) a (ucast (fst o0 - buf))))
          else
            (case integer_conv c flags of
               None \<Rightarrow> Some (fmt5, args2, putc (of_char c) (putc 0x25 o0))
             | Some (base, fl) \<Rightarrow>
                 (case args2 of
                    [] \<Rightarrow> None
                  | a # args3 \<Rightarrow>
                      map_option (\<lambda>o1. (fmt5, args3, o1))
                        (number o0 (integer_arg qualifier fl a) base field_width precision fl)))) }"

text \<open>No directive gives back more of the format than it was given.\<close>

lemma skip_atoi_length: "length (snd (skip_atoi i cs)) \<le> length cs"
  by (induction i cs rule: skip_atoi.induct) auto

lemma parse_flags_length: "length (snd (parse_flags flags cs)) \<le> length cs"
  by (induction flags cs rule: parse_flags.induct) auto

lemma parse_width_length: "parse_width flags fmt args = Some (f, w, fmt', args') \<Longrightarrow> length fmt' \<le> length fmt"
  using skip_atoi_length [of 0 fmt]
  by (auto simp: parse_width_def split_beta split: list.splits if_splits)

lemma parse_precision_length: "parse_precision fmt args = Some (p, fmt', args') \<Longrightarrow> length fmt' \<le> length fmt"
  using skip_atoi_length [of 0 "tl fmt"]
  by (auto simp: parse_precision_def split_beta split: list.splits if_splits)

lemma parse_qualifier_length: "length (snd (parse_qualifier fmt)) \<le> length fmt"
  by (auto simp: parse_qualifier_def split: list.splits)

lemma directive_length:
  assumes "directive buf fmt args o1 = Some (fmt', args', o2)"
  shows "length fmt' \<le> length fmt"
proof -
  obtain f1 c1 where p1: "parse_flags 0 fmt = (f1, c1)" by force
  from assms obtain f w c2 a1 where p2: "parse_width f1 c1 args = Some (f, w, c2, a1)"
    by (auto simp: directive_def p1 bind_eq_Some_conv)
  with assms obtain p c3 a2 where p3: "parse_precision c2 a1 = Some (p, c3, a2)"
    by (auto simp: directive_def p1 bind_eq_Some_conv)
  obtain q c4 where p4: "parse_qualifier c3 = (q, c4)" by force
  have "length c4 \<le> length fmt"
    using parse_flags_length [of 0 fmt] parse_width_length [OF p2] parse_precision_length [OF p3]
      parse_qualifier_length [of c3] by (simp add: p1 p4)
  moreover have "fmt' = [] \<or> (\<exists>c. c4 = c # fmt')"
    using assms by (auto simp: directive_def p1 p2 p3 p4 Let_def split: list.splits if_splits option.splits prod.splits)
  ultimately show ?thesis by auto
qed

function vsprintf_loop :: "u64 \<Rightarrow> char list \<Rightarrow> u64 list \<Rightarrow> out \<Rightarrow> out option" where
  "vsprintf_loop buf [] args o0 = Some o0"
| "vsprintf_loop buf (c # cs) args o0 =
     (if c \<noteq> CHR ''%'' then vsprintf_loop buf cs args (putc (of_char c) o0)
      else do { (fmt', args', o1) \<leftarrow> directive buf cs args o0; vsprintf_loop buf fmt' args' o1 })"
  by pat_completeness auto
termination
  by (relation "measure (\<lambda>(buf, fmt, args, o0). length fmt)") (auto dest: directive_length)

definition vsprintf :: "mem \<Rightarrow> u64 \<Rightarrow> char list \<Rightarrow> u64 list \<Rightarrow> (u32 \<times> mem) option" where
  "vsprintf m buf fmt args =
     map_option (\<lambda>(str, m'). (ucast (str - buf), m'(str := 0))) (vsprintf_loop buf fmt args (buf, m))"

section \<open>The text of a number\<close>

definition emit :: "u8 list \<Rightarrow> out \<Rightarrow> out" where
  "emit cs o1 = fold putc cs o1"

lemma emit_simps [simp]: "emit [] o1 = o1" "emit (c # cs) o1 = emit cs (putc c o1)"
  by (simp_all add: emit_def)

lemma emit_append: "emit (xs @ ys) o1 = emit ys (emit xs o1)"
  by (simp add: emit_def)

lemma pad_loop_emit: "pad_loop c n o1 = (min n 0 - 1, emit (replicate (nat n) c) o1)"
proof (induction c n o1 rule: pad_loop.induct)
  case (1 c n o1)
  show ?case
  proof (cases "n > 0")
    case True
    then have "nat n = Suc (nat (n - 1))" by simp
    with 1 True show ?thesis by (simp add: pad_loop.simps [of c n])
  qed (simp add: pad_loop.simps [of c n])
qed

lemma zero_loop_emit: "zero_loop i p o1 = emit (replicate (nat (p - i)) 0x30) o1"
proof (induction i p o1 rule: zero_loop.induct)
  case (1 i p o1)
  show ?case
  proof (cases "i < p")
    case True
    then have "nat (p - i) = Suc (nat (p - 1 - i))" by simp
    with 1 True show ?thesis by (simp add: zero_loop.simps [of i p])
  qed (simp add: zero_loop.simps [of i p])
qed

lemma tmp_loop_emit: "i \<le> length tmp \<Longrightarrow> tmp_loop i tmp o1 = emit (rev (take i tmp)) o1"
  by (induction i arbitrary: o1) (simp_all add: take_Suc_conv_app_nth)

text \<open>The reference: digits, sign, prefix, and padding to the field width on the left, in the middle or on the right.\<close>

definition number_digits :: "u64 \<Rightarrow> int \<Rightarrow> u32 \<Rightarrow> u8 list" where
  "number_digits num base ty =
     (if num = 0 then [0x30] else rev (digit_loop num (of_int base) (ucast (ty AND SMALL))))"

definition number_text :: "u64 \<Rightarrow> int \<Rightarrow> int \<Rightarrow> int \<Rightarrow> u32 \<Rightarrow> u8 list" where
  "number_text num base width precision ty =
     (let (sg, mag, _) = sign_of num 0 ty;
          sign = (if sg \<noteq> 0 then [sg] else []);
          prefix = (if ty AND SPECIAL \<noteq> 0 then
                      if base = 8 then [0x30] else if base = 16 then [0x30, 0x58 OR ucast (ty AND SMALL)] else []
                    else []);
          ds = number_digits mag base ty;
          zeros = replicate (nat (precision - int (length ds))) 0x30;
          fill = nat (width - int (length sign + length prefix + length zeros + length ds))
      in
      if ty AND LEFT \<noteq> 0 then sign @ prefix @ zeros @ ds @ replicate fill 0x20
      else if ty AND ZEROPAD \<noteq> 0 then sign @ prefix @ replicate fill 0x30 @ zeros @ ds
      else replicate fill 0x20 @ sign @ prefix @ zeros @ ds)"

lemma flag_bit: "k < 32 \<Longrightarrow> (ty AND 2 ^ k = (0 :: u32)) = (\<not> bit ty k)"
  using and_exp_neq_0 [of k ty] by auto

lemma type_flags:
  "(ty AND ZEROPAD = 0) = (\<not> bit ty 0)" "(ty AND SIGN = 0) = (\<not> bit ty 1)" "(ty AND PLUS = 0) = (\<not> bit ty 2)"
  "(ty AND SPACE = 0) = (\<not> bit ty 3)" "(ty AND LEFT = 0) = (\<not> bit ty 4)" "(ty AND SPECIAL = 0) = (\<not> bit ty 6)"
  using flag_bit [of 0 ty] flag_bit [of 1 ty] flag_bit [of 2 ty] flag_bit [of 3 ty] flag_bit [of 4 ty] flag_bit [of 6 ty]
  by (simp_all add: ZEROPAD_def SIGN_def PLUS_def SPACE_def LEFT_def SPECIAL_def)

lemma zeropad_left: "(ty AND (ZEROPAD + LEFT) = 0) = (\<not> bit ty 0 \<and> \<not> bit ty 4)"
proof -
  have "ZEROPAD + LEFT = ZEROPAD OR LEFT" by (simp add: ZEROPAD_def LEFT_def)
  then have "ty AND (ZEROPAD + LEFT) = (ty AND ZEROPAD) OR (ty AND LEFT)" by (simp add: bit.conj_disj_distrib)
  then show ?thesis using type_flags(1,5) [of ty] by (metis or_eq_0_iff)
qed

lemma bit_clear_zeropad: "bit (ty AND NOT ZEROPAD) k = (bit ty k \<and> k \<noteq> 0)"
proof -
  have "ZEROPAD = 2 ^ 0" by (simp add: ZEROPAD_def)
  then have "bit ZEROPAD k = (k = 0)" using bit_exp_iff [of 0 k, where ?'a = "32 word"] by (auto simp: possible_bit_word)
  then show ?thesis by (auto simp: bit_and_iff bit_not_iff dest: bit_imp_possible_bit)
qed

lemma sign_of_width:
  "sign_of num sz ty = (let (sg, mag, d) = sign_of num 0 ty in (sg, mag, sz - int (length (if sg \<noteq> 0 then [sg] else []))))"
  by (simp add: sign_of_def)

lemma number_emit:
  assumes "2 \<le> base" "base \<le> 16"
  shows "number o0 num0 base width precision ty0 = Some (emit (number_text num0 base width precision ty0) o0)"
proof -
  define ty where "ty = (if ty0 AND LEFT \<noteq> 0 then ty0 AND NOT ZEROPAD else ty0)"
  have bits: "bit ty k = (bit ty0 k \<and> (k = 0 \<longrightarrow> \<not> bit ty0 4))" for k
    unfolding ty_def by (simp add: bit_clear_zeropad type_flags)
  obtain sg mag d where sg: "sign_of num0 0 ty = (sg, mag, d)" by (metis surj_pair)
  have fl: "(ty AND SIGN = 0) = (ty0 AND SIGN = 0)" "(ty AND PLUS = 0) = (ty0 AND PLUS = 0)"
    "(ty AND SPACE = 0) = (ty0 AND SPACE = 0)" unfolding type_flags by (simp_all add: bits)
  have sg0: "sign_of num0 0 ty0 = (sg, mag, d)" using sg by (simp only: sign_of_def fl)
  let ?S = "if sg \<noteq> 0 then [sg] else []"
  let ?P = "if ty0 AND SPECIAL \<noteq> 0 then
      if base = 8 then [0x30 :: u8] else if base = 16 then [0x30, 0x58 OR ucast (ty0 AND SMALL)] else [] else []"
  define tmp where "tmp = (if mag = 0 then [0x30] else digit_loop mag (of_int base) (ucast (ty0 AND SMALL)))"
  have ds: "number_digits mag base ty0 = rev tmp" by (simp add: number_digits_def tmp_def)
  let ?n = "int (length tmp)" and ?Z = "replicate (nat (precision - int (length tmp))) (0x30 :: u8)"
  let ?r = "width - int (length ?S) - int (length ?P) - (if ?n > precision then ?n else precision)"
  have fill: "nat (width - int (length ?S + length ?P + length ?Z + length (rev tmp))) = nat ?r"
    by (rule arg_cong [where f = nat]) simp
  have sz: "(if ty0 AND SPECIAL \<noteq> 0 then if base = 16 then width - int (length ?S) - 2
      else if base = 8 then width - int (length ?S) - 1 else width - int (length ?S) else width - int (length ?S)) =
      width - int (length ?S) - int (length ?P)" by simp
  have zs: "zero_loop ?n (if ?n > precision then ?n else precision) x = emit ?Z x" for x
    by (simp add: zero_loop_emit)
  have tm: "tmp_loop (length tmp) tmp x = emit (rev tmp) x" for x by (simp add: tmp_loop_emit)
  have pre: "(if ty0 AND SPECIAL \<noteq> 0 then if base = 8 then putc 0x30 x
      else if base = 16 then putc (0x58 OR ucast (ty0 AND SMALL)) (putc 0x30 x) else x else x) = emit ?P x" for x by simp
  have sn: "(if sg \<noteq> 0 then putc sg x else x) = emit ?S x" for x by simp
  have sp: "(ty AND SPECIAL \<noteq> 0) = (ty0 AND SPECIAL \<noteq> 0)" by (simp add: type_flags bits)
  have "number o0 num0 base width precision ty0 = Some (
    let (size4, o1) = (if ty AND (ZEROPAD + LEFT) = 0 then pad_loop 0x20 ?r o0 else (?r, o0));
        o3 = emit ?P (emit ?S o1);
        (size5, o4) = (if ty AND LEFT = 0 then pad_loop (if ty AND ZEROPAD \<noteq> 0 then 0x30 else 0x20) size4 o3 else (size4, o3));
        o6 = emit (rev tmp) (emit ?Z o4)
    in snd (pad_loop 0x20 size5 o6))"
    unfolding number_def ty_def [symmetric] sign_of_width [of num0 width ty] sg Let_def prod.case tmp_def [symmetric]
      sp sz zs tm pre sn using assms by (simp only: split_beta not_less [symmetric] if_False simp_thms fst_conv snd_conv split: if_split)
  also have "\<dots> = Some (emit (number_text num0 base width precision ty0) o0)"
    unfolding number_text_def sg0 Let_def prod.case ds length_rev fill
    by (cases "bit ty0 4"; cases "bit ty0 0")
      (simp_all add: pad_loop_emit emit_append zeropad_left type_flags bits diff_diff_eq del: emit_simps(2))
  finally show ?thesis .
qed

section \<open>Digits\<close>

text \<open>Reading digits back, in upper or lower case.\<close>

definition digit_val :: "u8 \<Rightarrow> nat" where
  "digit_val c = (if unat c \<le> 57 then unat c - 48 else (unat c - 55) mod 32)"

definition read_nat :: "nat \<Rightarrow> u8 list \<Rightarrow> nat" where
  "read_nat base cs = foldl (\<lambda>acc c. acc * base + digit_val c) 0 cs"

definition read_int :: "u8 list \<Rightarrow> int" where
  "read_int cs = (case cs of [] \<Rightarrow> 0 | c # ds \<Rightarrow> if c = 0x2D then - int (read_nat 10 ds) else int (read_nat 10 cs))"

lemma digit_cases: "d < 16 \<Longrightarrow> d \<in> {0, 1, 2, 3, 4, 5, 6, 7, 8, 9, 10, 11, 12, 13, 14, 15 :: nat}"
  by (simp, arith)

lemma digit_val_digits:
  assumes "d < 16" "locase = 0 \<or> locase = 0x20"
  shows "digit_val (digits ! d OR locase) = d" "digits ! d OR locase \<noteq> 0x2D"
  using digit_cases [OF assms(1)] assms(2) by (auto simp: digits_def digit_val_def)

lemma read_nat_snoc: "read_nat base (cs @ [c]) = read_nat base cs * base + digit_val c"
  by (simp add: read_nat_def)

lemma digit_loop_read:
  assumes "1 < unat base" "unat base \<le> 16" "locase = 0 \<or> locase = 0x20"
  shows "read_nat (unat base) (rev (digit_loop num base locase)) = unat num \<and>
    0x2D \<notin> set (digit_loop num base locase) \<and> (num \<noteq> 0 \<longrightarrow> digit_loop num base locase \<noteq> [])"
  using assms
proof (induction num base locase rule: digit_loop.induct)
  case (1 num base locase)
  show ?case
  proof (cases "num = 0")
    case True
    then show ?thesis by (simp add: digit_loop.simps [of 0] read_nat_def)
  next
    case False
    have b: "\<not> base < 2" using "1.prems" by (simp add: word_less_nat_alt)
    have lt: "unat (num mod base) < 16" using "1.prems" by (simp add: unat_mod order.strict_trans2 [OF mod_less_divisor])
    have IH: "read_nat (unat base) (rev (digit_loop (num div base) base locase)) = unat (num div base)"
      "0x2D \<notin> set (digit_loop (num div base) base locase)" using "1.IH" False b "1.prems" by auto
    have "unat (num div base) * unat base + unat (num mod base) = unat num" by (simp add: unat_div unat_mod)
    then show ?thesis
      using False b IH digit_val_digits [OF lt "1.prems"(3)]
      by (simp add: digit_loop.simps [of num] read_nat_snoc)
  qed
qed

lemma digit_loop_length:
  "unat num < unat base ^ k \<Longrightarrow> length (digit_loop num base locase) \<le> k"
proof (induction k arbitrary: num)
  case 0
  then have "num = 0" by (simp add: unat_eq_0)
  then show ?case by (simp add: digit_loop.simps)
next
  case (Suc k)
  show ?case
  proof (cases "num = 0 \<or> base < 2")
    case False
    then have "0 < unat base" by (simp add: word_less_nat_alt)
    then have "unat (num div base) < unat base ^ k" using Suc.prems
      by (simp add: unat_div div_less_iff_less_mult mult.commute)
    from Suc.IH [OF this] False show ?thesis by (simp add: digit_loop.simps [of num])
  qed (auto simp: digit_loop.simps [of num])
qed

lemma locase_cases: "ucast (ty AND SMALL) = (0 :: u8) \<or> ucast (ty AND SMALL) = (0x20 :: u8)"
proof -
  have "ty AND SMALL = (if bit ty 5 then 0x20 else 0)"
  proof (rule bit_word_eqI)
    fix n assume "n < LENGTH(32)"
    have e: "SMALL = 2 ^ 5" by (simp add: SMALL_def)
    have b: "bit SMALL n = (n = 5)"
      using bit_exp_iff [of 5 n, where ?'a = "32 word", folded e] by (auto simp: possible_bit_word)
    have "(0x20 :: u32) = SMALL" by (simp add: SMALL_def)
    with b show "bit (ty AND SMALL) n = bit (if bit ty 5 then 0x20 else 0 :: u32) n"
      by (auto simp: bit_and_iff)
  qed
  then show ?thesis by simp
qed

lemma unat_base: "2 \<le> base \<Longrightarrow> base \<le> 16 \<Longrightarrow> unat (of_int base :: u64) = nat base"
proof -
  assume "2 \<le> base" "base \<le> 16"
  moreover from this obtain k where "base = int k" using zero_le_imp_eq_int [of base] by auto
  ultimately show ?thesis by simp
qed

lemma number_digits_read:
  assumes "2 \<le> base" "base \<le> 16"
  shows "read_nat (nat base) (number_digits num base ty) = unat num" "0x2D \<notin> set (number_digits num base ty)"
    "number_digits num base ty \<noteq> []"
proof -
  have "read_nat (nat base) (number_digits num base ty) = unat num \<and> 0x2D \<notin> set (number_digits num base ty) \<and>
    number_digits num base ty \<noteq> []"
    using digit_loop_read [of "of_int base" "ucast (ty AND SMALL)" num] assms locase_cases [of ty] unat_base [OF assms]
    by (simp add: number_digits_def read_nat_def digit_val_def)
  then show "read_nat (nat base) (number_digits num base ty) = unat num" "0x2D \<notin> set (number_digits num base ty)"
    "number_digits num base ty \<noteq> []" by auto
qed

lemma number_digits_length:
  "2 \<le> base \<Longrightarrow> base \<le> 16 \<Longrightarrow> unat num < nat base ^ k \<Longrightarrow> 0 < k \<Longrightarrow> length (number_digits num base ty) \<le> k"
  using digit_loop_length [of num "of_int base" k] by (simp add: number_digits_def unat_base)

lemma number_digits_64: "2 \<le> base \<Longrightarrow> base \<le> 16 \<Longrightarrow> length (number_digits num base ty) \<le> 64"
proof (rule number_digits_length)
  assume "2 \<le> base"
  then have "(2 :: nat) ^ 64 \<le> nat base ^ 64" by (intro power_mono) auto
  moreover have "unat num < 2 ^ 64" using unsigned_less [of num, where ?'a = nat] by simp
  ultimately show "unat num < nat base ^ 64" by linarith
qed auto

section \<open>Output in memory\<close>

lemma emit_mem:
  "length cs < 2 ^ 64 \<Longrightarrow> emit cs (p, m) =
     (p + of_nat (length cs), \<lambda>x. if unat (x - p) < length cs then cs ! unat (x - p) else m x)"
proof (induction cs arbitrary: p m)
  case (Cons c cs)
  have "emit (c # cs) (p, m) = emit cs (p + 1, m(p := c))" by (simp add: putc_def)
  also have "\<dots> = (p + 1 + of_nat (length cs),
      \<lambda>x. if unat (x - (p + 1)) < length cs then cs ! unat (x - (p + 1)) else (m(p := c)) x)"
    using Cons by simp
  also have "\<dots> = (p + of_nat (length (c # cs)),
      \<lambda>x. if unat (x - p) < length (c # cs) then (c # cs) ! unat (x - p) else m x)"
  proof -
    have "(if unat (x - (p + 1)) < length cs then cs ! unat (x - (p + 1)) else (m(p := c)) x) =
      (if unat (x - p) < length (c # cs) then (c # cs) ! unat (x - p) else m x)" for x
    proof (cases "x = p")
      case True
      have "unat (x - (p + 1)) = 2 ^ 64 - 1" using True unat_minus64 [of 1] by simp
      then show ?thesis using True Cons.prems by simp
    next
      case False
      then have "x - p \<noteq> 0" by simp
      then have "unat (x - p) = Suc (unat (x - (p + 1)))"
        using unat_minus_one [of "x - p"] unat_gt_0 [of "x - p"] by (simp add: diff_diff_eq)
      with False show ?thesis by simp
    qed
    then show ?thesis by (simp add: fun_eq_iff)
  qed
  finally show ?case .
qed simp

lemma plain_emit: "CHR ''%'' \<notin> set fmt \<Longrightarrow> vsprintf_loop buf fmt args o0 = Some (emit (map of_char fmt) o0)"
  by (induction fmt arbitrary: o0) auto

text \<open>Memory with a text written at an address.\<close>

definition text_at :: "mem \<Rightarrow> u64 \<Rightarrow> u8 list \<Rightarrow> mem" where
  "text_at m p cs = (\<lambda>x. if unat (x - p) < length cs then cs ! unat (x - p) else m x)"

lemma emit_text: "length cs < 2 ^ 64 \<Longrightarrow> emit cs (p, m) = (p + of_nat (length cs), text_at m p cs)"
  by (simp add: emit_mem text_at_def)

lemma text_at_snoc: "length cs < 2 ^ 64 \<Longrightarrow> (text_at m p cs)(p + of_nat (length cs) := c) = text_at m p (cs @ [c])"
proof
  fix x
  assume "length cs < 2 ^ 64"
  then have "x = p + of_nat (length cs) \<longleftrightarrow> unat (x - p) = length cs"
    by (metis add_diff_cancel_left' diff_add_cancel add.commute unat_of_nat64 word_unat_eq_iff)
  then show "((text_at m p cs)(p + of_nat (length cs) := c)) x = text_at m p (cs @ [c]) x"
    by (auto simp: text_at_def nth_append)
qed

lemma vsprintf_text:
  assumes "vsprintf_loop buf fmt args (buf, m) = Some (emit cs (buf, m))" "length cs < 2 ^ 32"
  shows "vsprintf m buf fmt args = Some (of_nat (length cs), text_at m buf (cs @ [0]))"
proof -
  have "unat (ucast (of_nat (length cs) :: u64) :: u32) = length cs"
    using assms(2) by (simp add: unsigned_ucast_eq unsigned_take_bit_eq take_bit_nat_eq_self)
  then have "(ucast (of_nat (length cs) :: u64) :: u32) = of_nat (length cs)"
    using assms(2) by (simp add: word_unat_eq_iff unat_of_nat)
  then show ?thesis using assms by (simp add: vsprintf_def emit_text text_at_snoc)
qed

text \<open>A format without directives is copied to the buffer and terminated, whatever the arguments; the result is its length.\<close>

theorem vsprintf_plain:
  assumes "CHR ''%'' \<notin> set fmt" "length fmt < 2 ^ 32"
  shows "vsprintf m buf fmt args = Some (of_nat (length fmt), text_at m buf (map of_char fmt @ [0]))"
  using vsprintf_text [OF plain_emit [OF assms(1)]] assms(2) by simp

theorem vsprintf_plain_witness:
  "vsprintf (\<lambda>_. 7) 100 ''ok'' [] = Some (2, text_at (\<lambda>_. 7) 100 [0x6F, 0x6B, 0])"
  using vsprintf_plain [of "''ok''" "\<lambda>_. 7" 100 "[]"] by simp

lemma signed_word:
  assumes "- (2 ^ 63) < i" "i < (2 ^ 63 :: int)"
  shows "sint (of_int i :: u64) = i" "unat (of_int \<bar>i\<bar> :: u64) = nat \<bar>i\<bar>"
proof -
  show "sint (of_int i :: u64) = i"
    using assms by (simp add: signed_of_int signed_take_bit_int_eq_self)
  obtain k where "\<bar>i\<bar> = int k" using zero_le_imp_eq_int [of "\<bar>i\<bar>"] by auto
  then show "unat (of_int \<bar>i\<bar> :: u64) = nat \<bar>i\<bar>" using assms by simp
qed

lemma sint32_range: "- (2 ^ 31) \<le> sint (x :: u32)" "sint (x :: u32) < 2 ^ 31"
  using sint_ge [of x] sint_lt [of x] by simp_all

lemma scast_of_int: "scast (x :: u32) = (of_int (sint x) :: u64)"
  by transfer simp

lemma sign_of_cases:
  "sign_of num 0 SIGN = (if sint num < 0 then (0x2D, - num, - 1) else (0, num, 0))"
  by (simp add: sign_of_def SIGN_def PLUS_def SPACE_def)

lemma no_flags: "sign_of num 0 0 = (0, num, 0)" "sign_of num 0 SMALL = (0, num, 0)"
  by (simp_all add: sign_of_def SIGN_def SMALL_def)

lemma number_text_plain:
  "number_text num base (- 1) (- 1) SIGN =
     (if sint num < 0 then 0x2D # number_digits (- num) base SIGN else number_digits num base SIGN)"
  "number_text num base (- 1) (- 1) 0 = number_digits num base 0"
  "number_text num base (- 1) (- 1) SMALL = number_digits num base SMALL"
  by (simp_all add: number_text_def sign_of_cases no_flags)
     (simp_all add: SIGN_def SMALL_def LEFT_def ZEROPAD_def SPECIAL_def)

lemma read_int_number:
  assumes "- (2 ^ 31) \<le> i" "i < 2 ^ 31"
  shows "read_int (number_text (of_int i) 10 (- 1) (- 1) SIGN) = i"
    "length (number_text (of_int i) 10 (- 1) (- 1) SIGN) \<le> 11"
proof -
  let ?w = "of_int i :: u64"
  have s: "sint ?w = i" "unat (of_int \<bar>i\<bar> :: u64) = nat \<bar>i\<bar>" using signed_word [of i] assms by simp_all
  have neg: "- ?w = of_int (- i)" by simp
  have len: "length (number_digits (of_int \<bar>i\<bar>) 10 SIGN) \<le> 10"
    by (rule number_digits_length) (use s(2) assms in simp_all)
  obtain c ds where cd: "number_digits (of_int \<bar>i\<bar>) 10 SIGN = c # ds" "c \<noteq> 0x2D" "read_nat 10 (c # ds) = nat \<bar>i\<bar>"
    using number_digits_read [of 10 "of_int \<bar>i\<bar>" SIGN] s(2)
    by (cases "number_digits (of_int \<bar>i\<bar>) 10 SIGN") auto
  show "read_int (number_text ?w 10 (- 1) (- 1) SIGN) = i"
    using cd s by (cases "i < 0") (simp_all add: number_text_plain read_int_def abs_if neg del: of_int_minus)
  show "length (number_text ?w 10 (- 1) (- 1) SIGN) \<le> 11"
    using len s by (cases "i < 0") (simp_all add: number_text_plain abs_if neg del: of_int_minus)
qed

lemma directive_d:
  "directive buf ''d'' [a] o0 =
     Some ([], [], emit (number_text (scast (ucast a :: u32)) 10 (- 1) (- 1) SIGN) o0)"
  by (simp add: directive_def parse_width_def parse_precision_def parse_qualifier_def integer_conv_def isdigit_def
      integer_arg_def number_emit or_eq_0_iff) (simp add: SIGN_def)

text \<open>C22: Printing an \<^verbatim>\<open>int\<close> with \<^verbatim>\<open>%d\<close> never fails: it writes at most eleven characters and the terminating zero, and
  reading the text back as a decimal number gives the value of the \<^verbatim>\<open>int\<close>, the most negative one included.\<close>

theorem decimal_roundtrip:
  "\<exists>cs. vsprintf m buf ''%d'' [a] = Some (of_nat (length cs), text_at m buf (cs @ [0])) \<and>
     length cs \<le> 11 \<and> read_int cs = sint (ucast a :: u32)"
proof -
  let ?cs = "number_text (scast (ucast a :: u32)) 10 (- 1) (- 1) SIGN"
  have cs: "read_int ?cs = sint (ucast a :: u32)" "length ?cs \<le> 11"
    unfolding scast_of_int using read_int_number [OF sint32_range] by blast+
  have "vsprintf_loop buf ''%d'' [a] (buf, m) = Some (emit ?cs (buf, m))" by (simp add: directive_d)
  from vsprintf_text [OF this] cs show ?thesis by auto
qed

text \<open>The unsigned conversions of a \<^verbatim>\<open>long\<close>.\<close>

lemma directive_unsigned:
  "directive buf ''lu'' [a] o0 = Some ([], [], emit (number_digits a 10 0) o0)"
  "directive buf ''lo'' [a] o0 = Some ([], [], emit (number_digits a 8 0) o0)"
  "directive buf ''lx'' [a] o0 = Some ([], [], emit (number_digits a 16 SMALL) o0)"
  "directive buf ''lX'' [a] o0 = Some ([], [], emit (number_digits a 16 0) o0)"
  by (simp_all add: directive_def parse_width_def parse_precision_def parse_qualifier_def integer_conv_def isdigit_def
      integer_arg_def number_emit number_text_plain)

text \<open>Printing an \<^verbatim>\<open>unsigned long\<close> in decimal, octal or hexadecimal never fails: it writes at most 22 characters (the
  longest case is octal) and the terminating zero, and reading the digits back in that base gives the number.\<close>

theorem unsigned_roundtrip:
  assumes "(c, base) \<in> {(CHR ''u'', 10), (CHR ''o'', 8), (CHR ''x'', 16), (CHR ''X'', 16)}"
  shows "\<exists>cs. vsprintf m buf [CHR ''%'', CHR ''l'', c] [a] = Some (of_nat (length cs), text_at m buf (cs @ [0])) \<and>
     length cs \<le> 22 \<and> read_nat base cs = unat a"
proof -
  define fl where "fl = (if c = CHR ''x'' then SMALL else 0)"
  let ?cs = "number_digits a (int base) fl"
  have b: "8 \<le> base" "base \<le> 16" using assms by auto
  have "read_nat base ?cs = unat a" using number_digits_read [of "int base" a fl] b by simp
  moreover have "length ?cs \<le> 22"
  proof (rule number_digits_length)
    have "(8 :: nat) ^ 22 \<le> base ^ 22" using b by (intro power_mono) auto
    then show "unat a < nat (int base) ^ 22" using unsigned_less [of a, where ?'a = nat] by simp
  qed (use b in auto)
  moreover have "vsprintf_loop buf [CHR ''%'', CHR ''l'', c] [a] (buf, m) = Some (emit ?cs (buf, m))"
    using assms by (auto simp: fl_def directive_unsigned)
  ultimately show ?thesis using vsprintf_text [of buf _ "[a]" m ?cs] by auto
qed

theorem unsigned_roundtrip_witness:
  "\<exists>cs. vsprintf (\<lambda>_. 7) 100 ''%lx'' [0xAB] = Some (of_nat (length cs), text_at (\<lambda>_. 7) 100 (cs @ [0])) \<and>
     length cs \<le> 22 \<and> read_nat 16 cs = 171"
  using unsigned_roundtrip [of "CHR ''x''" 16 "\<lambda>_. 7" 100 "0xAB"] by simp

text \<open>C21: \<open>number\<close> writes, for every base it accepts and every combination of flags, the reference text: sign, base prefix, zeros
  up to the precision and digits, filled to the field width with blanks on the left, with zeros after the prefix, or with
  blanks on the right. The text is as long as the width unless its parts are longer, and its digits fit the 66-byte buffer
  of \<open>number\<close>.\<close>

theorem number_layout:
  assumes "2 \<le> base" "base \<le> 16" "length (number_text num base width precision ty) < 2 ^ 64"
  shows "number (p, m) num base width precision ty =
      Some (p + of_nat (length (number_text num base width precision ty)),
        text_at m p (number_text num base width precision ty)) \<and>
    nat width \<le> length (number_text num base width precision ty) \<and> length (digit_loop num (of_int base) locase) \<le> 64"
proof (intro conjI)
  show "number (p, m) num base width precision ty =
      Some (p + of_nat (length (number_text num base width precision ty)),
        text_at m p (number_text num base width precision ty))"
    using number_emit [OF assms(1,2)] emit_text [OF assms(3)] by simp
  show "nat width \<le> length (number_text num base width precision ty)"
    by (simp add: number_text_def Let_def split_beta nat_le_iff)
  have "(2 :: nat) ^ 64 \<le> nat base ^ 64" using assms(1) by (intro power_mono) auto
  then show "length (digit_loop num (of_int base) locase) \<le> 64"
    using unsigned_less [of num, where ?'a = nat] by (intro digit_loop_length) (simp add: unat_base assms)
qed

theorem number_layout_witness:
  "number (100, \<lambda>_. 7) 26 16 6 (- 1) (ZEROPAD OR SPECIAL OR SMALL) =
     Some (106, text_at (\<lambda>_. 7) 100 [0x30, 0x78, 0x30, 0x30, 0x31, 0x61])"
proof -
  have "number_text 26 16 6 (- 1) (ZEROPAD OR SPECIAL OR SMALL) = [0x30, 0x78, 0x30, 0x30, 0x31, 0x61]"
    by code_simp
  then show ?thesis using number_layout [of 16 26 6 "- 1" "ZEROPAD OR SPECIAL OR SMALL" 100 "\<lambda>_. 7"] by simp
qed

section \<open>Strings\<close>

lemma strnlen_unique:
  assumes "\<forall>j < n. m (s + of_nat j) \<noteq> 0" "m (s + of_nat n) = 0" "n < 2 ^ 64 - 1"
  shows "strnlen m s (- 1) = of_nat n"
proof -
  define k where "k = unat (strnlen m s (- 1))"
  have lim: "unat (- 1 :: u64) = 2 ^ 64 - 1" using unat_minus64 [of 1] by simp
  have k: "k \<le> 2 ^ 64 - 1" "\<forall>j < k. m (s + of_nat j) \<noteq> 0" "k = 2 ^ 64 - 1 \<or> m (s + of_nat k) = 0"
    using strnlen_loop_scan [of m s "- 1"] unfolding scan_len_def lim k_def strnlen_def by auto
  then have "k = n" using assms by (metis linorder_neqE_nat)
  then show ?thesis using assms(3) by (simp add: k_def word_unat_eq_iff)
qed

lemma copy_string_emit:
  assumes "\<forall>j < n. n \<le> unat (s + of_nat j - p)" "n < 2 ^ 64"
  shows "copy_string n s (p, m) = emit (map (\<lambda>j. m (s + of_nat j)) [0 ..< n]) (p, m)"
  using assms
proof (induction n arbitrary: s p m)
  case (Suc n)
  have out: "s + of_nat j \<noteq> p" if "j < Suc n" for j using Suc.prems(1) that by auto
  have step: "n \<le> unat (s + 1 + of_nat j - (p + 1))" if "j < n" for j
    using Suc.prems(1) [rule_format, of j] that by (simp add: algebra_simps)
  have "copy_string n (s + 1) (p + 1, m(p := m s)) =
      emit (map (\<lambda>j. (m(p := m s)) (s + 1 + of_nat j)) [0 ..< n]) (p + 1, m(p := m s))"
    using step Suc.prems(2) by (intro Suc.IH) auto
  also have "map (\<lambda>j. (m(p := m s)) (s + 1 + of_nat j)) [0 ..< n] = map (\<lambda>j. m (s + of_nat (Suc j))) [0 ..< n]"
    using out [of "Suc _"] by (auto simp: add.assoc)
  finally show ?case
    by (simp add: putc_def map_upt_Suc fun_upd_def del: upt_Suc)
qed simp

lemma directive_s:
  "directive buf (CHR ''s'' # fmt) (a # args) o0 = Some (fmt, args, put_string 0 (- 1) (- 1) a o0)"
  by (simp add: directive_def parse_width_def parse_precision_def parse_qualifier_def isdigit_def)

lemma put_string_plain:
  assumes "strnlen (snd o0) s (- 1) = of_nat n" "n < 2 ^ 31"
  shows "put_string 0 (- 1) (- 1) s o0 = copy_string n s o0"
proof -
  have "(ucast (of_nat n :: u64) :: u32) = of_int (int n)"
    using assms(2) by (simp add: unsigned_of_nat take_bit_nat_eq_self)
  then have "sint (ucast (of_nat n :: u64) :: u32) = int n"
    using assms(2) by (simp add: signed_of_int signed_take_bit_int_eq_self del: of_int_of_nat_eq)
  then show ?thesis using assms by (simp add: put_string_def len_pad.simps)
qed

text \<open>\<^verbatim>\<open>%s\<close> without width or precision copies the characters of the string up to its terminating zero, and nothing else,
  and terminates the copy. The string may lie anywhere that the characters written before the terminator do not overlap it.\<close>

theorem string_directive:
  assumes "\<forall>j < n. m (s + of_nat j) \<noteq> 0" "m (s + of_nat n) = 0" "n < 2 ^ 31"
    "\<forall>j < n. n \<le> unat (s + of_nat j - buf)"
  shows "vsprintf m buf ''%s'' [s] =
    Some (of_nat n, text_at m buf (map (\<lambda>j. m (s + of_nat j)) [0 ..< n] @ [0]))"
proof -
  let ?cs = "map (\<lambda>j. m (s + of_nat j)) [0 ..< n]"
  have "strnlen m s (- 1) = of_nat n" by (rule strnlen_unique) (use assms in auto)
  then have "vsprintf_loop buf ''%s'' [s] (buf, m) = Some (emit ?cs (buf, m))"
    using assms(3,4) by (simp add: directive_s put_string_plain copy_string_emit)
  from vsprintf_text [OF this] assms(3) show ?thesis by simp
qed

theorem string_directive_witness:
  "vsprintf (\<lambda>a. if a = 0 \<or> a = 1 then 65 else 0) 100 ''%s'' [0] =
    Some (2, text_at (\<lambda>a. if a = 0 \<or> a = 1 then 65 else 0) 100 [65, 65, 0])"
proof -
  have "\<forall>j < 2. (2 :: nat) \<le> unat (0 + of_nat j - 100 :: u64)" "\<forall>j < (2 :: nat). of_nat j = (0 :: u64) \<or> of_nat j = (1 :: u64)"
    by (auto simp: less_2_cases_iff)
  with string_directive [of 2 "\<lambda>a. if a = 0 \<or> a = 1 then 65 else 0" 0 100] show ?thesis
    by (simp add: upt_rec)
qed

end
