(* ===== verification/Kernel.thy ===== *)
theory Kernel
  imports Boot Printf
begin

unbundle bit_operations_syntax

text \<open>
  The objects of the kernel and the state its threads, sockets and system calls work on.

  Every structure type of the sources has a record, and the state has one store per structure type: a function from addresses to
  records, as the structures are shared and changed through pointers. \<open>malloc\<close> leaves a store as it is, so the fields of a new
  object hold whatever was at its address before, until the code assigns them. Byte buffers, the arrays of pointers and the
  memory contexts of \<open>PageTable\<close> are plain memory. Structures and buffers are accessed only through their own type. An \<^verbatim>\<open>int\<close>
  field is a 32-bit word, read with \<open>sint\<close> or \<open>scast\<close>.

  The global variables are fields of \<open>kernel\<close>. The addresses of the statically allocated objects (the list head of the sockets and
  the two tables of socket operations, the buffer of \<open>printk\<close>), the number of the running processor and the number of processors are given by it too,
  as are the registers of the running processor that thread switches save and load: the page table root, the pointer to
  the current thread, the bases and selectors of \<open>fs\<close> and \<open>gs\<close>, the 512 bytes of floating point state and the kernel stack of
  each processor's task segment. \<open>k_serial\<close> is what has been sent over the serial line.

  Operations that follow a null pointer, or that do not return, are \<open>None\<close>.
\<close>

section \<open>Structures\<close>

record pt_regs =
  rg_r15 :: u64
  rg_r14 :: u64
  rg_r13 :: u64
  rg_r12 :: u64
  rg_r11 :: u64
  rg_r10 :: u64
  rg_r9 :: u64
  rg_r8 :: u64
  rg_rbx :: u64
  rg_rcx :: u64
  rg_rdx :: u64
  rg_rsi :: u64
  rg_rdi :: u64
  rg_rbp :: u64
  rg_ds :: u64
  rg_es :: u64
  rg_rax :: u64
  rg_func :: u64
  rg_errcode :: u64
  rg_rip :: u64
  rg_cs :: u64
  rg_rflags :: u64
  rg_rsp :: u64
  rg_ss :: u64

record arch_context =
  cx_context :: u64
  cx_fpu :: u64
  cx_fs :: u64
  cx_gs :: u64
  cx_fsbase :: u64
  cx_gsbase :: u64

datatype run_state = kRunNone | kRunActive | kRunSuspended | kRunDeferred | kRunBlocked | kRunInterrupted | kRunTerminated

record thread =
  th_id :: u64
  th_call_in_signal :: bool
  th_cpu_id :: u32
  th_jiffies :: u64
  th_arch_context :: u64
  th_syscall_stack :: u64
  th_mm :: u64
  th_file_info :: u64
  th_tflags :: u32
  th_status :: u64
  th_child_vfork_done :: bool
  th_is_vfork :: bool
  th_state :: run_state

record thread_file_info =
  fi_fds :: u64
  fi_max_fd_count :: u32
  fi_ref_count :: u32

datatype fd_kind = fd_info_type_dsocket

record fd_info =
  fd_kind :: fd_kind
  fd_dsock_handle :: u64

datatype dsocket_state = dsocket_state_disconnected | dsocket_state_listening | dsocket_state_connected

record dsocket_pair =
  pr_connected :: bool
  pr_path :: u64
  pr_client_buffer :: u64
  pr_client_buffer_pos :: u32
  pr_client_buffer_size :: u32
  pr_client_fds :: u32
  pr_server_buffer :: u64
  pr_server_buffer_pos :: u32
  pr_server_fds :: u32

record dsocket =
  sk_next :: u64
  sk_flags :: u64
  sk_bind_addr :: u64
  sk_state :: dsocket_state
  sk_conn_max :: u32
  sk_conn_curr :: u32
  sk_backlog :: u64
  sk_pair :: u64

record dsocket_handle =
  hd_op :: u64
  hd_socket :: u64

section \<open>The kernel state\<close>

record kernel =
  k_heap :: kheap
  k_frames :: bitmap
  k_off :: u64
  k_cr3 :: u64
  k_cpu :: u64
  k_cpu_count :: u64
  k_threads :: "nat \<Rightarrow> u64"
  k_idle_threads :: "nat \<Rightarrow> u64"
  k_cpu_idx :: u32
  k_new_thread_lock :: spinlock
  k_search_lock :: spinlock
  k_current :: u64
  k_thread :: "u64 \<Rightarrow> thread"
  k_ctx :: "u64 \<Rightarrow> arch_context"
  k_regs :: "u64 \<Rightarrow> pt_regs"
  k_finfo :: "u64 \<Rightarrow> thread_file_info"
  k_fd :: "u64 \<Rightarrow> fd_info"
  k_handle :: "u64 \<Rightarrow> dsocket_handle"
  k_sock :: "u64 \<Rightarrow> dsocket"
  k_pair :: "u64 \<Rightarrow> dsocket_pair"
  k_driver_sockets :: u64
  k_normal_ops :: u64
  k_accept_ops :: u64
  k_cpu_fs :: u64
  k_cpu_gs :: u64
  k_cpu_fsbase :: u64
  k_cpu_gsbase :: u64
  k_cpu_fpu :: "nat \<Rightarrow> u8"
  k_tss_rsp0 :: "u64 \<Rightarrow> u64"
  k_debug_buf :: u64
  k_debug_lock :: spinlock
  k_serial :: "u8 list"

abbreviation k_mem :: "kernel \<Rightarrow> mem" where
  "k_mem k \<equiv> kh_mem (k_heap k)"

definition set_mem :: "mem \<Rightarrow> kernel \<Rightarrow> kernel" where
  "set_mem m k = k\<lparr>k_heap := (k_heap k)\<lparr>kh_mem := m\<rparr>\<rparr>"

definition upd_thread :: "u64 \<Rightarrow> (thread \<Rightarrow> thread) \<Rightarrow> kernel \<Rightarrow> kernel" where
  "upd_thread p f k = k\<lparr>k_thread := (k_thread k)(p := f (k_thread k p))\<rparr>"

definition upd_ctx :: "u64 \<Rightarrow> (arch_context \<Rightarrow> arch_context) \<Rightarrow> kernel \<Rightarrow> kernel" where
  "upd_ctx p f k = k\<lparr>k_ctx := (k_ctx k)(p := f (k_ctx k p))\<rparr>"

definition upd_regs :: "u64 \<Rightarrow> (pt_regs \<Rightarrow> pt_regs) \<Rightarrow> kernel \<Rightarrow> kernel" where
  "upd_regs p f k = k\<lparr>k_regs := (k_regs k)(p := f (k_regs k p))\<rparr>"

definition upd_finfo :: "u64 \<Rightarrow> (thread_file_info \<Rightarrow> thread_file_info) \<Rightarrow> kernel \<Rightarrow> kernel" where
  "upd_finfo p f k = k\<lparr>k_finfo := (k_finfo k)(p := f (k_finfo k p))\<rparr>"

definition upd_fd :: "u64 \<Rightarrow> (fd_info \<Rightarrow> fd_info) \<Rightarrow> kernel \<Rightarrow> kernel" where
  "upd_fd p f k = k\<lparr>k_fd := (k_fd k)(p := f (k_fd k p))\<rparr>"

definition upd_handle :: "u64 \<Rightarrow> (dsocket_handle \<Rightarrow> dsocket_handle) \<Rightarrow> kernel \<Rightarrow> kernel" where
  "upd_handle p f k = k\<lparr>k_handle := (k_handle k)(p := f (k_handle k p))\<rparr>"

definition upd_sock :: "u64 \<Rightarrow> (dsocket \<Rightarrow> dsocket) \<Rightarrow> kernel \<Rightarrow> kernel" where
  "upd_sock p f k = k\<lparr>k_sock := (k_sock k)(p := f (k_sock k p))\<rparr>"

definition upd_pair :: "u64 \<Rightarrow> (dsocket_pair \<Rightarrow> dsocket_pair) \<Rightarrow> kernel \<Rightarrow> kernel" where
  "upd_pair p f k = k\<lparr>k_pair := (k_pair k)(p := f (k_pair k p))\<rparr>"

text \<open>The heap and the frame allocator as the kernel calls them.\<close>

definition kmalloc :: "u64 \<Rightarrow> kernel \<Rightarrow> (u64 \<times> kernel) option" where
  "kmalloc sz k = map_option (\<lambda>(p, h). (p, k\<lparr>k_heap := h\<rparr>)) (new_block (k_heap k) sz)"

definition kfree :: "u64 \<Rightarrow> kernel \<Rightarrow> kernel option" where
  "kfree p k = map_option (\<lambda>h. k\<lparr>k_heap := h\<rparr>) (free (k_heap k) p)"

definition kframes :: "u64 \<Rightarrow> kernel \<Rightarrow> u64 \<times> kernel" where
  "kframes n k = (let (a, m) = alloc_frames (k_frames k) (k_mem k) n in (a, set_mem m k))"

text \<open>A state in which every object is blank.\<close>

definition blank_thread :: thread where
  "blank_thread = \<lparr>th_id = 0, th_call_in_signal = False, th_cpu_id = 0, th_jiffies = 0, th_arch_context = 0, th_syscall_stack = 0,
     th_mm = 0, th_file_info = 0, th_tflags = 0, th_status = 0, th_child_vfork_done = False, th_is_vfork = False,
     th_state = kRunNone\<rparr>"

definition blank_regs :: pt_regs where
  "blank_regs = \<lparr>rg_r15 = 0, rg_r14 = 0, rg_r13 = 0, rg_r12 = 0, rg_r11 = 0, rg_r10 = 0, rg_r9 = 0, rg_r8 = 0,
     rg_rbx = 0, rg_rcx = 0, rg_rdx = 0, rg_rsi = 0, rg_rdi = 0, rg_rbp = 0, rg_ds = 0, rg_es = 0, rg_rax = 0,
     rg_func = 0, rg_errcode = 0, rg_rip = 0, rg_cs = 0, rg_rflags = 0, rg_rsp = 0, rg_ss = 0\<rparr>"

definition blank_pair :: dsocket_pair where
  "blank_pair = \<lparr>pr_connected = False, pr_path = 0, pr_client_buffer = 0, pr_client_buffer_pos = 0,
     pr_client_buffer_size = 0, pr_client_fds = 0, pr_server_buffer = 0, pr_server_buffer_pos = 0, pr_server_fds = 0\<rparr>"

definition blank_sock :: dsocket where
  "blank_sock = \<lparr>sk_next = 0, sk_flags = 0, sk_bind_addr = 0, sk_state = dsocket_state_disconnected, sk_conn_max = 0,
     sk_conn_curr = 0, sk_backlog = 0, sk_pair = 0\<rparr>"

definition blank_kernel :: "kheap \<Rightarrow> kernel" where
  "blank_kernel h = \<lparr>k_heap = h, k_frames = demo_bm, k_off = 0xffff800000000000, k_cr3 = 0,
     k_cpu = 0, k_cpu_count = 2, k_threads = (\<lambda>_. 0), k_idle_threads = (\<lambda>_. 0), k_cpu_idx = 0,
     k_new_thread_lock = SPIN_INIT, k_search_lock = SPIN_INIT, k_current = 0, k_thread = (\<lambda>_. blank_thread),
     k_ctx = (\<lambda>_. \<lparr>cx_context = 0, cx_fpu = 0, cx_fs = 0, cx_gs = 0, cx_fsbase = 0, cx_gsbase = 0\<rparr>),
     k_regs = (\<lambda>_. blank_regs), k_finfo = (\<lambda>_. \<lparr>fi_fds = 0, fi_max_fd_count = 0, fi_ref_count = 0\<rparr>),
     k_fd = (\<lambda>_. \<lparr>fd_kind = fd_info_type_dsocket, fd_dsock_handle = 0\<rparr>),
     k_handle = (\<lambda>_. \<lparr>hd_op = 0, hd_socket = 0\<rparr>), k_sock = (\<lambda>_. blank_sock), k_pair = (\<lambda>_. blank_pair),
     k_driver_sockets = 0xffffffff80001000, k_normal_ops = 0xffffffff80002000, k_accept_ops = 0xffffffff80002010,
     k_cpu_fs = 0, k_cpu_gs = 0, k_cpu_fsbase = 0, k_cpu_gsbase = 0, k_cpu_fpu = (\<lambda>_. 0), k_tss_rsp0 = (\<lambda>_. 0),
     k_debug_buf = 0xffffffff80100000, k_debug_lock = SPIN_INIT, k_serial = []\<rparr>"

end
