(* ===== verification/Dsocket.thy ===== *)
theory Dsocket
  imports Kernel
begin

text \<open>
  Driver sockets: \<^verbatim>\<open>hel/dsocket.cpp\<close>. Two connected sockets share a pair of buffers. The connecting side sends into the server
  buffer and receives from the client buffer; the accepting side does the opposite. A receive takes bytes from the front of
  its buffer and moves the rest down.

  \<open>stream\<close> is the contract of one direction, a bounded queue of bytes; it is interpreted on both directions. Within it, any
  interleaving of sends and receives moves the bytes in order, without loss.
\<close>

definition k_hel_error_not_connected :: u64 where "k_hel_error_not_connected = 6"

definition dsocket_send :: "u64 \<Rightarrow> u64 \<Rightarrow> u64 \<Rightarrow> kernel \<Rightarrow> u64 \<times> kernel" where
  "dsocket_send dsock inp limit k =
     (let pr = sk_pair (k_sock k dsock) in
      if pr = 0 then (- k_hel_error_not_connected, k)
      else
        let pos = pr_server_buffer_pos (k_pair k pr);
            k1 = set_mem (memcpy (k_mem k) (pr_server_buffer (k_pair k pr) + scast pos) inp limit) k
        in (limit, upd_pair pr (\<lambda>p. p\<lparr>pr_server_buffer_pos := ucast (scast pos + limit)\<rparr>) k1))"

definition dsocket_accept_send :: "u64 \<Rightarrow> u64 \<Rightarrow> u64 \<Rightarrow> kernel \<Rightarrow> u64 \<times> kernel" where
  "dsocket_accept_send dsock inp limit k =
     (let pr = sk_pair (k_sock k dsock) in
      if pr = 0 then (- k_hel_error_not_connected, k)
      else
        let pos = pr_client_buffer_pos (k_pair k pr);
            k1 = set_mem (memcpy (k_mem k) (pr_client_buffer (k_pair k pr) + scast pos) inp limit) k
        in (limit, upd_pair pr (\<lambda>p. p\<lparr>pr_client_buffer_pos := ucast (scast pos + limit)\<rparr>) k1))"

definition dsocket_recv :: "u64 \<Rightarrow> u64 \<Rightarrow> u64 \<Rightarrow> kernel \<Rightarrow> u64 \<times> kernel" where
  "dsocket_recv dsock out limit k =
     (let pr = sk_pair (k_sock k dsock) in
      if pr = 0 then (- k_hel_error_not_connected, k)
      else
        let pos = pr_client_buffer_pos (k_pair k pr);
            buf = pr_client_buffer (k_pair k pr);
            toCopy = min limit (scast pos);
            m1 = memcpy (k_mem k) out buf toCopy;
            m2 = memmove m1 buf (buf + toCopy) (scast pos - toCopy)
        in (limit, upd_pair pr (\<lambda>p. p\<lparr>pr_client_buffer_pos := ucast (scast pos - toCopy)\<rparr>) (set_mem m2 k)))"

definition dsocket_accept_recv :: "u64 \<Rightarrow> u64 \<Rightarrow> u64 \<Rightarrow> kernel \<Rightarrow> u64 \<times> kernel" where
  "dsocket_accept_recv dsock out limit k =
     (let pr = sk_pair (k_sock k dsock) in
      if pr = 0 then (- k_hel_error_not_connected, k)
      else
        let pos = pr_server_buffer_pos (k_pair k pr);
            buf = pr_server_buffer (k_pair k pr);
            toCopy = min limit (scast pos);
            m1 = memcpy (k_mem k) out buf toCopy;
            m2 = memmove m1 buf (buf + toCopy) (scast pos - toCopy)
        in (limit, upd_pair pr (\<lambda>p. p\<lparr>pr_server_buffer_pos := ucast (scast pos - toCopy)\<rparr>) (set_mem m2 k)))"

section \<open>A bounded queue of bytes\<close>

datatype transfer = Send u64 nat | Recv u64 nat

definition bytes_at :: "mem \<Rightarrow> u64 \<Rightarrow> nat \<Rightarrow> u8 list" where
  "bytes_at m a n = map (\<lambda>i. m (a + of_nat i)) [0..<n]"

text \<open>A run of transfers records what each one took from the sender's memory or put into the receiver's.\<close>

fun transfers :: "(u64 \<Rightarrow> u64 \<Rightarrow> 's \<Rightarrow> u64 \<times> 's) \<Rightarrow> (u64 \<Rightarrow> u64 \<Rightarrow> 's \<Rightarrow> u64 \<times> 's) \<Rightarrow> ('s \<Rightarrow> mem) \<Rightarrow> ('s \<Rightarrow> u8 list) \<Rightarrow>
    transfer list \<Rightarrow> 's \<Rightarrow> u8 list \<times> u8 list \<times> 's" where
  "transfers send recv memory content [] s = ([], [], s)"
| "transfers send recv memory content (Send a n # ts) s =
     (let (sent, got, s') = transfers send recv memory content ts (snd (send a (of_nat n) s))
      in (bytes_at (memory s) a n @ sent, got, s'))"
| "transfers send recv memory content (Recv a n # ts) s =
     (let s1 = snd (recv a (of_nat n) s);
          (sent, got, s') = transfers send recv memory content ts s1
      in (sent, bytes_at (memory s1) a (min n (length (content s))) @ got, s'))"

text \<open>The transfers a client may make: user memory apart from the buffer, and never more than \<open>cap\<close> bytes in the queue.\<close>

fun allowed :: "(u64 \<Rightarrow> nat \<Rightarrow> bool) \<Rightarrow> nat \<Rightarrow> nat \<Rightarrow> transfer list \<Rightarrow> bool" where
  "allowed user cap q [] = True"
| "allowed user cap q (Send a n # ts) = (user a n \<and> q + n \<le> cap \<and> allowed user cap (q + n) ts)"
| "allowed user cap q (Recv a n # ts) = (user a n \<and> n < 2 ^ 64 \<and> allowed user cap (q - n) ts)"

locale stream =
  fixes send :: "u64 \<Rightarrow> u64 \<Rightarrow> 's \<Rightarrow> u64 \<times> 's"
    and recv :: "u64 \<Rightarrow> u64 \<Rightarrow> 's \<Rightarrow> u64 \<times> 's"
    and memory :: "'s \<Rightarrow> mem"
    and content :: "'s \<Rightarrow> u8 list"
    and ready :: "'s \<Rightarrow> bool"
    and user :: "u64 \<Rightarrow> nat \<Rightarrow> bool"
    and cap :: nat
  assumes send_queues: "ready s \<Longrightarrow> user a n \<Longrightarrow> length (content s) + n \<le> cap \<Longrightarrow>
      ready (snd (send a (of_nat n) s)) \<and> content (snd (send a (of_nat n) s)) = content s @ bytes_at (memory s) a n"
    and recv_takes: "ready s \<Longrightarrow> user a n \<Longrightarrow> n < 2 ^ 64 \<Longrightarrow>
      ready (snd (recv a (of_nat n) s)) \<and> content (snd (recv a (of_nat n) s)) = drop n (content s) \<and>
      bytes_at (memory (snd (recv a (of_nat n) s))) a (min n (length (content s))) = take n (content s)"
begin

lemma in_order:
  "ready s \<Longrightarrow> allowed user cap (length (content s)) ts \<Longrightarrow> transfers send recv memory content ts s = (sent, got, s') \<Longrightarrow>
   ready s' \<and> content s @ sent = got @ content s'"
proof (induction ts arbitrary: s sent got s')
  case (Cons t ts)
  show ?case
  proof (cases t)
    case (Send a n)
    let ?s = "snd (send a (of_nat n) s)"
    have s: "ready ?s" "content ?s = content s @ bytes_at (memory s) a n"
      using send_queues [OF Cons.prems(1)] Cons.prems(2) Send by auto
    obtain sent' where r: "transfers send recv memory content ts ?s = (sent', got, s')" "sent = bytes_at (memory s) a n @ sent'"
      using Cons.prems(3) Send by (auto split: prod.splits)
    have "length (content ?s) = length (content s) + n" by (simp add: s bytes_at_def)
    then show ?thesis using Cons.IH [OF s(1) _ r(1)] Cons.prems(2) Send s(2) r(2) by simp
  next
    case (Recv a n)
    let ?s = "snd (recv a (of_nat n) s)"
    have s: "ready ?s" "content ?s = drop n (content s)"
        "bytes_at (memory ?s) a (min n (length (content s))) = take n (content s)"
      using recv_takes [OF Cons.prems(1)] Cons.prems(2) Recv by auto
    obtain got' where r: "transfers send recv memory content ts ?s = (sent, got', s')"
        "got = bytes_at (memory ?s) a (min n (length (content s))) @ got'"
      using Cons.prems(3) Recv by (auto simp: Let_def split: prod.splits)
    have "ready s' \<and> content ?s @ sent = got' @ content s'"
      using Cons.IH [OF s(1) _ r(1)] Cons.prems(2) Recv s(2) by simp
    then show ?thesis unfolding r(2) s(3) append_assoc
      by (metis s(2) append_assoc append_take_drop_id)
  qed
qed simp

end

section \<open>One buffer\<close>

text \<open>User memory is apart from the 4096 bytes at \<open>B\<close>.\<close>

definition user_mem :: "u64 \<Rightarrow> u64 \<Rightarrow> nat \<Rightarrow> bool" where
  "user_mem B a n \<longleftrightarrow> n < 2 ^ 64 \<and> (\<forall>i<n. \<forall>j<4096. a + of_nat i \<noteq> B + of_nat j)"

lemma window_iff: "n < 2 ^ 64 \<Longrightarrow> (x - D < (of_nat n :: u64)) = (\<exists>i<n. x = D + of_nat i)"
proof
  assume n: "n < 2 ^ 64"
  show "\<exists>i<n. x = D + of_nat i" if "x - D < of_nat n"
    using that n by (intro exI [of _ "unat (x - D)"]) (simp add: word_less_nat_alt)
  show "x - D < of_nat n" if "\<exists>i<n. x = D + of_nat i" using that n by (auto simp: word_nat)
qed

lemma copy_region_bytes:
  assumes "n < 2 ^ 64"
  shows "i < n \<Longrightarrow> copy_region m D S (of_nat n) (D + of_nat i) = m (S + of_nat i)"
    "(\<And>i. i < n \<Longrightarrow> x \<noteq> D + of_nat i) \<Longrightarrow> copy_region m D S (of_nat n) x = m x"
  using window_iff [OF assms, of "D + of_nat i" D] window_iff [OF assms, of x D] by (auto simp: copy_region_def)

lemma memcpy_apart:
  assumes "n < 2 ^ 64" "\<And>i j. i < n \<Longrightarrow> j < n \<Longrightarrow> D + of_nat i \<noteq> S + of_nat j"
  shows "memcpy m D S (of_nat n) = copy_region m D S (of_nat n)"
proof (rule memcpy_eq_copy_region, rule disjI2, rule ccontr)
  assume "\<not> of_nat n \<le> D - S"
  then have "D - S < of_nat n" by simp
  then obtain j where "j < n" "D = S + of_nat j" using window_iff [OF assms(1), of D S] by blast
  then show False using assms(2) [of 0 j] by simp
qed

lemma push_bytes:
  assumes u: "user_mem B a n" and q: "q + n \<le> 4096"
  shows "bytes_at (memcpy m (B + of_nat q) a (of_nat n)) B (q + n) = bytes_at m B q @ bytes_at m a n"
proof (rule nth_equalityI)
  have n: "n < 2 ^ 64" using u by (simp add: user_mem_def)
  have ap: "a + of_nat i \<noteq> B + of_nat j" if "i < n" "j < 4096" for i j using u that by (simp add: user_mem_def)
  have m: "memcpy m (B + of_nat q) a (of_nat n) = copy_region m (B + of_nat q) a (of_nat n)"
  proof (rule memcpy_apart [OF n])
    fix i j assume "i < n" "j < n"
    then show "B + of_nat q + of_nat i \<noteq> a + of_nat j" using ap [of j "q + i"] q by (simp add: add.assoc)
  qed
  fix i assume "i < length (bytes_at (memcpy m (B + of_nat q) a (of_nat n)) B (q + n))"
  then have i: "i < q + n" by (simp add: bytes_at_def)
  show "bytes_at (memcpy m (B + of_nat q) a (of_nat n)) B (q + n) ! i = (bytes_at m B q @ bytes_at m a n) ! i"
  proof (cases "i < q")
    case True
    have "B + of_nat i \<noteq> B + of_nat q + of_nat j" if "j < n" for j
      using True i q that of_nat64_eq_iff [of i "q + j"] by (simp add: add.assoc)
    then show ?thesis using True i copy_region_bytes(2) [OF n, of "B + of_nat i" "B + of_nat q" m a]
      by (simp add: bytes_at_def nth_append m)
  next
    case False
    then have "B + of_nat i = B + of_nat q + (of_nat (i - q) :: u64)" by (simp add: of_nat_diff)
    then show ?thesis using False i copy_region_bytes(1) [OF n, of "i - q" m "B + of_nat q" a]
      by (simp add: bytes_at_def nth_append m)
  qed
qed (simp add: bytes_at_def)

lemma pop_bytes:
  fixes m :: mem
  assumes u: "user_mem B a n" and q: "q \<le> 4096" and B: "unat B + 4096 \<le> 2 ^ 64"
  defines "t \<equiv> min n q"
  defines "m2 \<equiv> memmove (memcpy m a B (of_nat t)) B (B + of_nat t) (of_nat (q - t))"
  shows "bytes_at m2 B (q - t) = drop n (bytes_at m B q)" "bytes_at m2 a t = take n (bytes_at m B q)"
proof -
  have t: "t \<le> n" "t \<le> q" "t < 2 ^ 64" "q - t < 2 ^ 64" using q by (auto simp: t_def)
  have ap: "a + of_nat i \<noteq> B + of_nat j" if "i < n" "j < 4096" for i j using u that by (simp add: user_mem_def)
  have m1: "memcpy m a B (of_nat t) = copy_region m a B (of_nat t)"
    by (rule memcpy_apart [OF t(3)]) (use ap t q in auto)
  have uB: "unat (B + of_nat t) + (q - t) \<le> 2 ^ 64 \<and> unat B + (q - t) \<le> 2 ^ 64"
    using B q t by (cases "unat B + t < 2 ^ 64") (auto simp: unat_add_of_nat unat_word_ariths)
  have m2: "m2 = copy_region (copy_region m a B (of_nat t)) B (B + of_nat t) (of_nat (q - t))"
    unfolding m2_def m1 by (rule memmove_eq_copy_region) (use uB q in auto)
  have keep: "copy_region m a B (of_nat t) (B + of_nat j) = m (B + of_nat j)" if "j < q" for j
  proof (rule copy_region_bytes(2) [OF t(3)])
    fix i assume "i < t"
    then show "B + of_nat j \<noteq> a + of_nat i" using ap [of i j] that q t(1) by auto
  qed
  have "m2 (B + of_nat i) = m (B + of_nat (t + i))" if "i < q - t" for i
    using copy_region_bytes(1) [OF t(4) that, of _ B "B + of_nat t"] keep [of "t + i"] that
    by (simp add: m2 add.assoc)
  then show "bytes_at m2 B (q - t) = drop n (bytes_at m B q)"
    by (intro nth_equalityI) (auto simp: bytes_at_def t_def min_def)
  have "m2 (a + of_nat i) = m (B + of_nat i)" if "i < t" for i
  proof -
    have "m2 (a + of_nat i) = copy_region m a B (of_nat t) (a + of_nat i)"
      unfolding m2 by (rule copy_region_bytes(2) [OF t(4)]) (use ap [of i] that t q in auto)
    then show ?thesis using copy_region_bytes(1) [OF t(3) that, of m a B] by simp
  qed
  then show "bytes_at m2 a t = take n (bytes_at m B q)"
    by (intro nth_equalityI) (auto simp: bytes_at_def t_def)
qed

section \<open>Both directions meet the contract\<close>

text \<open>The sockets \<open>c\<close> and \<open>s\<close> are connected through \<open>pr\<close>, and the position in the buffer of the direction is in range.\<close>

definition connected :: "u64 \<Rightarrow> u64 \<Rightarrow> u64 \<Rightarrow> kernel \<Rightarrow> bool" where
  "connected c s pr k \<longleftrightarrow> pr \<noteq> 0 \<and> sk_pair (k_sock k c) = pr \<and> sk_pair (k_sock k s) = pr"

definition to_server :: "u64 \<Rightarrow> u64 \<Rightarrow> u64 \<Rightarrow> u64 \<Rightarrow> kernel \<Rightarrow> bool" where
  "to_server c s pr B k \<longleftrightarrow> connected c s pr k \<and> unat B + 4096 \<le> 2 ^ 64 \<and>
     pr_server_buffer (k_pair k pr) = B \<and> unat (pr_server_buffer_pos (k_pair k pr)) \<le> 4096"

definition to_client :: "u64 \<Rightarrow> u64 \<Rightarrow> u64 \<Rightarrow> u64 \<Rightarrow> kernel \<Rightarrow> bool" where
  "to_client c s pr B k \<longleftrightarrow> connected c s pr k \<and> unat B + 4096 \<le> 2 ^ 64 \<and>
     pr_client_buffer (k_pair k pr) = B \<and> unat (pr_client_buffer_pos (k_pair k pr)) \<le> 4096"

definition server_content :: "u64 \<Rightarrow> u64 \<Rightarrow> kernel \<Rightarrow> u8 list" where
  "server_content pr B k = bytes_at (k_mem k) B (unat (pr_server_buffer_pos (k_pair k pr)))"

definition client_content :: "u64 \<Rightarrow> u64 \<Rightarrow> kernel \<Rightarrow> u8 list" where
  "client_content pr B k = bytes_at (k_mem k) B (unat (pr_client_buffer_pos (k_pair k pr)))"

lemma pos_cases:
  assumes "unat (pos :: u32) \<le> 4096" "\<And>q. pos = of_nat q \<Longrightarrow> q \<le> 4096 \<Longrightarrow> thesis"
  shows thesis
  using assms(2) [of "unat pos"] assms(1) by simp

lemma pos_word32: "x \<le> 4096 \<Longrightarrow> unat (ucast (of_nat x :: u64) :: u32) = x"
  by (simp add: unsigned_ucast_eq unsigned_take_bit_eq take_bit_nat_eq_self)

lemma pos_words:
  assumes "q \<le> 4096"
  shows "scast (of_nat q :: u32) = (of_nat q :: u64)" "unat (of_nat q :: u32) = q"
proof -
  have "sint (of_int (int q) :: u32) = int q"
    using assms by (simp add: signed_of_int signed_take_bit_int_eq_self del: of_int_of_nat_eq)
  then show "scast (of_nat q :: u32) = (of_nat q :: u64)" by (simp add: scast_of_int)
  show "unat (of_nat q :: u32) = q" using assms by (simp add: unat_of_nat)
qed

lemma pos_min: "n < 2 ^ 64 \<Longrightarrow> q \<le> 4096 \<Longrightarrow> min (of_nat n) (of_nat q) = (of_nat (min n q) :: u64)"
  using of_nat64_le_iff [of n q] by (simp add: min_def)

lemma pos_diff: "of_nat q - of_nat (min n q) = (of_nat (q - n) :: u64)"
  by (simp add: min_def of_nat_diff)

lemma q_min: "q - min n q = (q - n :: nat)"
  by simp

interpretation upstream: stream "dsocket_send c" "dsocket_accept_recv s" k_mem "server_content pr B" "to_server c s pr B"
    "user_mem B" 4096 for c s pr B
proof (unfold_locales, goal_cases)
  case (1 k a n)
  obtain q where q: "pr_server_buffer_pos (k_pair k pr) = of_nat q" "q \<le> 4096"
    using 1(1) by (auto simp: to_server_def intro: pos_cases)
  have n: "q + n \<le> 4096" using 1(3) q by (simp add: server_content_def bytes_at_def pos_words)
  show ?case
    using 1(1) push_bytes [OF 1(2) n, of "k_mem k"] n
    by (simp add: dsocket_send_def to_server_def connected_def server_content_def set_mem_def upd_pair_def Let_def
        pos_words [OF q(2)] pos_word32 [OF n, unfolded of_nat_add] q(1))
next
  case (2 k a n)
  obtain q where q: "pr_server_buffer_pos (k_pair k pr) = of_nat q" "q \<le> 4096"
    using 2(1) by (auto simp: to_server_def intro: pos_cases)
  have B: "unat B + 4096 \<le> 2 ^ 64" using 2(1) by (simp add: to_server_def)
  show ?case
    using 2(1) pop_bytes [OF 2(2) q(2) B, of "k_mem k"] q(2)
    by (simp add: dsocket_accept_recv_def to_server_def connected_def server_content_def set_mem_def upd_pair_def Let_def
        pos_words [OF q(2)] pos_min [OF 2(3) q(2)] pos_diff pos_word32 q_min q(1)) (simp add: bytes_at_def)
qed

interpretation downstream: stream "dsocket_accept_send s" "dsocket_recv c" k_mem "client_content pr B" "to_client c s pr B"
    "user_mem B" 4096 for c s pr B
proof (unfold_locales, goal_cases)
  case (1 k a n)
  obtain q where q: "pr_client_buffer_pos (k_pair k pr) = of_nat q" "q \<le> 4096"
    using 1(1) by (auto simp: to_client_def intro: pos_cases)
  have n: "q + n \<le> 4096" using 1(3) q by (simp add: client_content_def bytes_at_def pos_words)
  show ?case
    using 1(1) push_bytes [OF 1(2) n, of "k_mem k"] n
    by (simp add: dsocket_accept_send_def to_client_def connected_def client_content_def set_mem_def upd_pair_def Let_def
        pos_words [OF q(2)] pos_word32 [OF n, unfolded of_nat_add] q(1))
next
  case (2 k a n)
  obtain q where q: "pr_client_buffer_pos (k_pair k pr) = of_nat q" "q \<le> 4096"
    using 2(1) by (auto simp: to_client_def intro: pos_cases)
  have B: "unat B + 4096 \<le> 2 ^ 64" using 2(1) by (simp add: to_client_def)
  show ?case
    using 2(1) pop_bytes [OF 2(2) q(2) B, of "k_mem k"] q(2)
    by (simp add: dsocket_recv_def to_client_def connected_def client_content_def set_mem_def upd_pair_def Let_def
        pos_words [OF q(2)] pos_min [OF 2(3) q(2)] pos_diff pos_word32 q_min q(1)) (simp add: bytes_at_def)
qed


section \<open>Properties\<close>

text \<open>C5: Both directions of a connection are queues of bytes. Whatever sends and receives the two sides interleave, as long as at
  most 4096 bytes wait and user memory stays apart from the buffer, the bytes received so far followed by those still in
  the buffer are exactly the bytes sent, in order, after those that were there before.\<close>

theorem socket_streams_in_order:
  "(to_server c s pr B k \<and> allowed (user_mem B) 4096 (length (server_content pr B k)) ts \<and>
      transfers (dsocket_send c) (dsocket_accept_recv s) k_mem (server_content pr B) ts k = (sent, got, k') \<longrightarrow>
      server_content pr B k @ sent = got @ server_content pr B k' \<and> to_server c s pr B k') \<and>
   (to_client c s pr B k \<and> allowed (user_mem B) 4096 (length (client_content pr B k)) ts \<and>
      transfers (dsocket_accept_send s) (dsocket_recv c) k_mem (client_content pr B) ts k = (sent, got, k') \<longrightarrow>
      client_content pr B k @ sent = got @ client_content pr B k' \<and> to_client c s pr B k')"
  using upstream.in_order downstream.in_order by blast

text \<open>\<open>dsocket_send\<close> does not look at the size of the buffer: a message that does not fit is accepted, and the byte behind the
  4096-byte block gets a byte of the message.\<close>

theorem send_overflows_buffer:
  assumes "to_server c s pr B k" "length (server_content pr B k) = q" "4096 < q + n" "n < 2 ^ 32"
    "\<And>i j. i < n \<Longrightarrow> j < n \<Longrightarrow> B + of_nat q + of_nat i \<noteq> a + of_nat j"
  shows "fst (dsocket_send c a (of_nat n) k) = of_nat n \<and>
    k_mem (snd (dsocket_send c a (of_nat n) k)) (B + 4096) = k_mem k (a + of_nat (4096 - q))"
proof -
  obtain q' where q': "pr_server_buffer_pos (k_pair k pr) = of_nat q'" "q' \<le> 4096"
    using assms(1) by (auto simp: to_server_def intro: pos_cases)
  have "q' = q" using assms(2) q' by (simp add: server_content_def bytes_at_def pos_words)
  with q' have q: "pr_server_buffer_pos (k_pair k pr) = of_nat q" "q \<le> 4096" by simp_all
  have n: "n < 2 ^ 64" using assms(4) by simp
  have m: "memcpy (k_mem k) (B + of_nat q) a (of_nat n) = copy_region (k_mem k) (B + of_nat q) a (of_nat n)"
    by (rule memcpy_apart [OF n assms(5)])
  have e: "B + 4096 = B + of_nat q + of_nat (4096 - q)" using q(2) by (simp add: of_nat_diff)
  have "4096 - q < n" using assms(3) q(2) by simp
  then have "copy_region (k_mem k) (B + of_nat q) a (of_nat n) (B + 4096) = k_mem k (a + of_nat (4096 - q))"
    unfolding e by (rule copy_region_bytes(1) [OF n])
  then show ?thesis
    using assms(1) by (simp add: dsocket_send_def to_server_def connected_def set_mem_def upd_pair_def Let_def
        q(1) pos_words [OF q(2)] m)
qed

text \<open>\<open>dsocket_recv\<close> reports the size of the caller's buffer, not what it delivered: with nothing to receive it returns the full
  limit and leaves memory as it was.\<close>

theorem recv_reports_limit:
  assumes "to_client c s pr B k" "client_content pr B k = []"
  shows "fst (dsocket_recv c a limit k) = limit \<and> k_mem (snd (dsocket_recv c a limit k)) = k_mem k"
proof -
  have p: "pr_client_buffer_pos (k_pair k pr) = 0" using assms(2) by (simp add: client_content_def bytes_at_def unat_eq_0)
  have "memcpy m x y 0 = m" "memmove m x x 0 = m" for m x y
    by (simp_all add: memcpy_def memmove_def)
  then show ?thesis
    using assms(1) by (simp add: dsocket_recv_def to_client_def connected_def p set_mem_def upd_pair_def Let_def)
qed

text \<open>Two sockets at 2 and 3, connected through the pair at 1, whose buffers are at \<open>0x10000\<close> and \<open>0x20000\<close>.\<close>

definition demo_link :: kernel where
  "demo_link = (blank_kernel \<lparr>kh_pool = blank_pool, kh_mem = (\<lambda>_. 7), kh_lock = SPIN_INIT, kh_rflags = 0\<rparr>)
     \<lparr>k_sock := (\<lambda>_. blank_sock\<lparr>sk_pair := 1\<rparr>),
      k_pair := (\<lambda>_. blank_pair\<lparr>pr_client_buffer := 0x10000, pr_server_buffer := 0x20000\<rparr>)\<rparr>"

lemma demo_link_ready: "to_server 2 3 1 0x20000 demo_link" "to_client 2 3 1 0x10000 demo_link"
  "server_content 1 0x20000 demo_link = []" "client_content 1 0x10000 demo_link = []"
  by (simp_all add: demo_link_def blank_kernel_def blank_sock_def blank_pair_def to_server_def to_client_def connected_def
      server_content_def client_content_def bytes_at_def)

lemma user_mem_below: "unat a + n \<le> unat B \<Longrightarrow> unat B + 4096 \<le> 2 ^ 64 \<Longrightarrow> user_mem B a n"
  unfolding user_mem_def
proof (intro conjI allI impI)
  assume b: "unat a + n \<le> unat B" "unat B + 4096 \<le> 2 ^ 64"
  then show "n < 2 ^ 64" by simp
  fix i j assume "i < n" "j < (4096 :: nat)"
  then have "unat (a + of_nat i) < unat (B + of_nat j)" using b by (simp add: unat_add_of_nat)
  then show "a + of_nat i \<noteq> B + of_nat j" by auto
qed

lemma apart_below:
  assumes "unat (x :: u64) + n \<le> unat y" "unat y + n < 2 ^ 64" "i < n" "j < n"
  shows "y + of_nat i \<noteq> x + of_nat j"
proof -
  have "unat (x + of_nat j) < unat (y + of_nat i)" using assms by (simp add: unat_add_of_nat)
  then show ?thesis by auto
qed

theorem socket_streams_in_order_witness:
  "\<exists>sent got k'. transfers (dsocket_send 2) (dsocket_accept_recv 3) k_mem (server_content 1 0x20000)
     [Send 0x100 3, Recv 0x200 2] demo_link = (sent, got, k') \<and> sent = got @ server_content 1 0x20000 k'"
proof -
  obtain sent got k' where t: "transfers (dsocket_send 2) (dsocket_accept_recv 3) k_mem (server_content 1 0x20000)
      [Send 0x100 3, Recv 0x200 2] demo_link = (sent, got, k')" by (metis surj_pair)
  have "allowed (user_mem 0x20000) 4096 0 [Send 0x100 3, Recv 0x200 2]" by (simp add: user_mem_below)
  then show ?thesis
    using socket_streams_in_order [of 2 3 1 "0x20000" demo_link "[Send 0x100 3, Recv 0x200 2]" sent got k'] t
    by (simp add: demo_link_ready del: transfers.simps allowed.simps)
qed

theorem send_overflows_buffer_witness:
  "k_mem (snd (dsocket_send 2 0x100 (of_nat 5000) demo_link)) (0x20000 + 4096) = k_mem demo_link (0x100 + of_nat 4096)"
proof -
  have "0x20000 + of_nat 0 + of_nat i \<noteq> 0x100 + (of_nat j :: u64)" if "i < 5000" "j < 5000" for i j
    by (rule apart_below [OF _ _ that]) simp_all
  with send_overflows_buffer [OF demo_link_ready(1), of 0 5000 "0x100"] show ?thesis by (simp add: demo_link_ready)
qed

theorem recv_reports_limit_witness:
  "fst (dsocket_recv 2 0x100 512 demo_link) = 512 \<and> k_mem (snd (dsocket_recv 2 0x100 512 demo_link)) = k_mem demo_link"
  by (rule recv_reports_limit [OF demo_link_ready(2,4)])

end
