(* ===== verification/Thread.thy ===== *)
theory Thread
  imports Dsocket
begin

unbundle bit_operations_syntax

text \<open>
  Threads: \<^verbatim>\<open>thread/thread.cpp\<close>, \<^verbatim>\<open>thread/schedule.cpp\<close>, \<^verbatim>\<open>arch/x86_64/context.cpp\<close> and the timer interrupt of
  \<^verbatim>\<open>arch/x86_64/idt.cpp\<close>.

  The table \<^verbatim>\<open>threads\<close> and the table of idle threads hold pointers. Sizes of structures are those of the x86-64 calling convention:
  80 bytes for \<^verbatim>\<open>thread\<close>, 48 for \<^verbatim>\<open>arch_context_t\<close>, 192 for \<^verbatim>\<open>pt_regs\<close>, 512 for \<^verbatim>\<open>fx_state\<close>, 16 for \<^verbatim>\<open>mm_context_t\<close>,
  \<^verbatim>\<open>thread_file_info_t\<close> and \<^verbatim>\<open>fd_info_t\<close>. A switch ends by jumping to the code that restores the register frame at the new
  stack pointer: the operations that switch return the address of that frame.
\<close>

section \<open>Contexts\<close>

definition wr16 :: "mem \<Rightarrow> u64 \<Rightarrow> u16 \<Rightarrow> mem" where
  "wr16 m a v = (\<lambda>x. if x - a < 2 then ucast (drop_bit (8 * unat (x - a)) v) else m x)"

definition arch_context_init :: "u64 \<Rightarrow> u64 \<Rightarrow> kernel \<Rightarrow> (u64 \<times> kernel) option" where
  "arch_context_init entry stack k = do {
     (ctx, k1) \<leftarrow> kmalloc 48 k;
     let frame = stack - 192;
     let k2 = upd_ctx ctx (\<lambda>c. c\<lparr>cx_context := frame\<rparr>) k1;
     let k3 = upd_regs frame
           (\<lambda>r. r\<lparr>rg_r15 := 0, rg_r14 := 0, rg_r13 := 0, rg_r12 := 0, rg_r11 := 0, rg_r10 := 0\<rparr>) k2;
     let k4 = upd_regs frame (\<lambda>r. r\<lparr>rg_rflags := 0x200, rg_rip := entry, rg_rsp := frame AND NOT 0xa,
           rg_cs := 8, rg_ss := 0x10, rg_ds := 0x10, rg_es := 0x10\<rparr>) k3;
     let k5 = upd_ctx ctx (\<lambda>c. c\<lparr>cx_fs := 0x10, cx_gs := 0x10, cx_fsbase := 0, cx_gsbase := 0\<rparr>) k4;
     (fpu, h) \<leftarrow> aligned_alloc (k_heap k5) 16 512;
     if fpu = 0 then None
     else
       let k6 = upd_ctx ctx (\<lambda>c. c\<lparr>cx_fpu := fpu\<rparr>) (k5\<lparr>k_heap := h\<rparr>);
           k7 = set_mem (wr16 (wr32 (k_mem k6) (fpu + 24) 0x1f80) fpu 0x037f) k6
       in Some (ctx, k7) }"

definition arch_context_free :: "u64 \<Rightarrow> kernel \<Rightarrow> kernel option" where
  "arch_context_free ctx k = do { k1 \<leftarrow> kfree (cx_fpu (k_ctx k ctx)) k; kfree ctx k1 }"

definition context_copy :: "u64 \<Rightarrow> u64 \<Rightarrow> kernel \<Rightarrow> kernel" where
  "context_copy to from k =
     (let t = k_ctx k to; f = k_ctx k from;
          k1 = upd_regs (cx_context t) (\<lambda>_. k_regs k (cx_context f)) k;
          k2 = set_mem (memcpy (k_mem k1) (cx_fpu t) (cx_fpu f) 512) k1
      in upd_ctx to (\<lambda>c. c\<lparr>cx_fs := cx_fs f, cx_gs := cx_gs f, cx_fsbase := cx_fsbase f, cx_gsbase := cx_gsbase f\<rparr>) k2)"

definition thread_switch_mm :: "u64 \<Rightarrow> kernel \<Rightarrow> kernel" where
  "thread_switch_mm next k = k\<lparr>k_cr3 := next\<rparr>"

text \<open>\<^verbatim>\<open>fxsave\<close> and \<^verbatim>\<open>fxrstor\<close> are taken to move all 512 bytes of their area; the processor leaves some reserved bytes of it alone.\<close>

definition thread_switch_to :: "u64 \<Rightarrow> u64 \<Rightarrow> u64 \<Rightarrow> kernel \<Rightarrow> u64 \<times> kernel" where
  "thread_switch_to intr_frame prev next k =
     (let k1 =
        (if intr_frame \<noteq> 0 \<and> prev \<noteq> 0 then
           let ka = upd_ctx prev (\<lambda>c. c\<lparr>cx_context := intr_frame\<rparr>) k;
               pf = cx_fpu (k_ctx ka prev);
               kb = set_mem (\<lambda>x. if x - pf < 512 then k_cpu_fpu ka (unat (x - pf)) else k_mem ka x) ka;
               kc = kb\<lparr>k_cpu_fpu := (\<lambda>i. k_mem kb (cx_fpu (k_ctx kb next) + of_nat i))\<rparr>
           in upd_ctx prev (\<lambda>c. c\<lparr>cx_fsbase := k_cpu_fsbase kc, cx_gsbase := k_cpu_gsbase kc\<rparr>) kc
         else k);
          c = k_ctx k1 next
      in (cx_context c,
          k1\<lparr>k_tss_rsp0 := (k_tss_rsp0 k1)(k_cpu k1 := cx_context c + 192), k_cpu_fs := cx_fs c, k_cpu_gs := cx_gs c,
             k_cpu_fsbase := cx_fsbase c, k_cpu_gsbase := cx_gsbase c\<rparr>))"

section \<open>Creating threads\<close>

definition kMaxThreadCount :: u64 where "kMaxThreadCount = 4096"
definition kThreadStackSize :: u64 where "kThreadStackSize = 65536"
definition DEFAULT_FD_NUM :: u32 where "DEFAULT_FD_NUM = 32"

definition get_free_thread :: "kernel \<Rightarrow> (u64 \<times> kernel) option" where
  "get_free_thread k =
     (case for_ret 0 (k_cpu_count k) (\<lambda>i s. if k_idle_threads k (unat i) = 0 then Inl i else Inr s) () of
        Inl i \<Rightarrow> do {
          (t, k1) \<leftarrow> kmalloc 80 k;
          Some (t, upd_thread t (\<lambda>x. x\<lparr>th_id := 0\<rparr>) (k1\<lparr>k_idle_threads := (k_idle_threads k1)(unat i := t)\<rparr>)) }
      | Inr _ \<Rightarrow>
          (case for_ret 1 kMaxThreadCount (\<lambda>i s. if k_threads k (unat i) = 0 then Inl i else Inr s) () of
             Inl i \<Rightarrow> do {
               (t, k1) \<leftarrow> kmalloc 80 k;
               Some (t, upd_thread t (\<lambda>x. x\<lparr>th_id := i\<rparr>) (k1\<lparr>k_threads := (k_threads k1)(unat i := t)\<rparr>)) }
           | Inr _ \<Rightarrow> Some (0, k)))"

definition alloc_cpu_id :: "kernel \<Rightarrow> u32 \<times> kernel" where
  "alloc_cpu_id k = (k_cpu_idx k, k\<lparr>k_cpu_idx := ucast ((ucast (k_cpu_idx k + 1) :: u64) mod k_cpu_count k)\<rparr>)"

text \<open>Taking and releasing one of the locks of the state, with the flags register of the processor.\<close>

definition lock_threads :: "kernel \<Rightarrow> kernel option" where
  "lock_threads k = map_option (\<lambda>(l, rf). k\<lparr>k_new_thread_lock := l, k_heap := (k_heap k)\<lparr>kh_rflags := rf\<rparr>\<rparr>)
     (spin_lock (k_new_thread_lock k, kh_rflags (k_heap k)))"

definition unlock_threads :: "kernel \<Rightarrow> kernel" where
  "unlock_threads k = (let (l, rf) = spin_unlock (k_new_thread_lock k, kh_rflags (k_heap k))
     in k\<lparr>k_new_thread_lock := l, k_heap := (k_heap k)\<lparr>kh_rflags := rf\<rparr>\<rparr>)"

definition lock_search :: "kernel \<Rightarrow> kernel option" where
  "lock_search k = map_option (\<lambda>(l, rf). k\<lparr>k_search_lock := l, k_heap := (k_heap k)\<lparr>kh_rflags := rf\<rparr>\<rparr>)
     (spin_lock (k_search_lock k, kh_rflags (k_heap k)))"

definition unlock_search :: "kernel \<Rightarrow> kernel" where
  "unlock_search k = (let (l, rf) = spin_unlock (k_search_lock k, kh_rflags (k_heap k))
     in k\<lparr>k_search_lock := l, k_heap := (k_heap k)\<lparr>kh_rflags := rf\<rparr>\<rparr>)"

text \<open>The memory context has its root at offset 0 and its reference count at offset 8.\<close>

definition create_mm :: "u64 \<Rightarrow> kernel \<Rightarrow> kernel option" where
  "create_mm t k = do {
     (mm, k1) \<leftarrow> kmalloc 16 k;
     let k2 = upd_thread t (\<lambda>x. x\<lparr>th_mm := mm\<rparr>) k1;
     let m1 = memset (k_mem k2) mm 0 16;
     let m2 = wr64 m1 mm (k_cr3 k2);
     Some (set_mem (wr64 m2 (mm + 8) (rd64 m2 (mm + 8) + 1)) k2) }"

definition create_files :: "u64 \<Rightarrow> kernel \<Rightarrow> kernel option" where
  "create_files t k = do {
     (fi, k1) \<leftarrow> kmalloc 16 k;
     let k2 = upd_thread t (\<lambda>x. x\<lparr>th_file_info := fi\<rparr>) k1;
     let k3 = upd_finfo fi (\<lambda>_. \<lparr>fi_fds = 0, fi_max_fd_count = 0, fi_ref_count = 0\<rparr>) k2;
     (fds, k4) \<leftarrow> kmalloc (8 * 32) k3;
     let k5 = upd_finfo fi (\<lambda>f. f\<lparr>fi_fds := fds\<rparr>) k4;
     let k6 = set_mem (memset (k_mem k5) fds 0 (8 * 32)) k5;
     Some (upd_finfo fi (\<lambda>f. f\<lparr>fi_max_fd_count := DEFAULT_FD_NUM, fi_ref_count := fi_ref_count f + 1\<rparr>) k6) }"

definition create :: "u64 \<Rightarrow> u32 \<Rightarrow> kernel \<Rightarrow> (u64 \<times> kernel) option" where
  "create entry tflags k = do {
     k0 \<leftarrow> lock_threads k;
     (t, k1) \<leftarrow> get_free_thread k0;
     if t = 0 then None
     else do {
       let (cpu, k2) = alloc_cpu_id k1;
       let k3 = upd_thread t (\<lambda>x. x\<lparr>th_call_in_signal := False, th_cpu_id := cpu, th_jiffies := 0\<rparr>) k2;
       let (frame, k4) = kframes (kThreadStackSize div PAGE_SIZE) k3;
       (ctx, k5) \<leftarrow> arch_context_init entry (phys_to_virt (k_off k4) frame) k4;
       let k6 = upd_thread t (\<lambda>x. x\<lparr>th_arch_context := ctx\<rparr>) k5;
       let (frame2, k7) = kframes (kThreadStackSize div PAGE_SIZE) k6;
       let k8 = upd_thread t (\<lambda>x. x\<lparr>th_syscall_stack := phys_to_virt (k_off k7) frame2\<rparr>) k7;
       k9 \<leftarrow> create_mm t k8;
       let k10 = upd_thread t (\<lambda>x. x\<lparr>th_tflags := tflags, th_status := 0\<rparr>) k9;
       k11 \<leftarrow> create_files t k10;
       let k12 = upd_thread t
             (\<lambda>x. x\<lparr>th_child_vfork_done := False, th_is_vfork := False, th_state := kRunNone\<rparr>) k11;
       Some (t, unlock_threads k12) } }"

text \<open>The number of slots is a signed \<^verbatim>\<open>int\<close>: none when it is negative.\<close>

definition fd_slots :: "thread_file_info \<Rightarrow> u64" where
  "fd_slots f = (if 0 < sint (fi_max_fd_count f) then scast (fi_max_fd_count f) else 0)"

definition add_fd_info :: "u64 \<Rightarrow> u64 \<Rightarrow> kernel \<Rightarrow> u64 \<times> kernel" where
  "add_fd_info t f k =
     (let fi = th_file_info (k_thread k t) in
      if fi \<noteq> 0 then
        (let fds = fi_fds (k_finfo k fi) in
         case for_ret 0 (fd_slots (k_finfo k fi)) (\<lambda>i s. if rd64 (k_mem k) (fds + i * 8) = 0 then Inl i else Inr s) () of
           Inl i \<Rightarrow> (i, set_mem (wr64 (k_mem k) (fds + i * 8) f) k)
         | Inr _ \<Rightarrow> (- 1, k))
      else (- 1, k))"

section \<open>Scheduling\<close>

function search_loop :: "kernel \<Rightarrow> run_state \<Rightarrow> u32 \<Rightarrow> nat \<Rightarrow> u64 \<Rightarrow> u64" where
  "search_loop k st cpu i task =
     (if i < 4096 then
        let ptr = k_threads k i in
        if ptr = 0 then task
        else if th_state (k_thread k ptr) \<noteq> st then search_loop k st cpu (Suc i) task
        else if th_cpu_id (k_thread k ptr) \<noteq> cpu then search_loop k st cpu (Suc i) task
        else if task = 0 \<or> th_jiffies (k_thread k ptr) < th_jiffies (k_thread k task) then search_loop k st cpu (Suc i) ptr
        else search_loop k st cpu (Suc i) task
      else task)"
  by pat_completeness auto
termination
  by (relation "measure (\<lambda>(k, st, cpu, i, task). 4096 - i)") auto

declare search_loop.simps [simp del]

definition search :: "run_state \<Rightarrow> u32 \<Rightarrow> kernel \<Rightarrow> (u64 \<times> kernel) option" where
  "search st cpu k = do {
     k1 \<leftarrow> lock_search k;
     let task = search_loop k1 st cpu 1 0;
     let task' = (if task = 0 \<and> st = kRunNone then k_idle_threads k1 (unat cpu) else task);
     Some (task', unlock_search k1) }"

definition getpid :: "kernel \<Rightarrow> u64" where
  "getpid k = th_id (k_thread k (k_current k))"

definition thread_clone :: u64 where "thread_clone = 2"

definition thread_exit :: u64 where "thread_exit = 0"

definition set_current_thread :: "u64 \<Rightarrow> kernel \<Rightarrow> kernel" where
  "set_current_thread t k = k\<lparr>k_current := t\<rparr>"

primrec create_idle :: "nat \<Rightarrow> u64 \<Rightarrow> kernel \<Rightarrow> kernel option" where
  "create_idle 0 idle_entry k = Some k"
| "create_idle (Suc n) idle_entry k = do { (t, k1) \<leftarrow> create idle_entry 0 k; create_idle n idle_entry k1 }"

text \<open>The flags are \<^verbatim>\<open>kFlagNone\<close> and \<^verbatim>\<open>kFlagServer\<close>; the flag \<^verbatim>\<open>thread_initialized\<close> only releases the other processors.\<close>

definition thread_init :: "u64 \<Rightarrow> u64 \<Rightarrow> kernel \<Rightarrow> kernel option" where
  "thread_init idle_entry init_entry k = do {
     k1 \<leftarrow> create_idle (unat (k_cpu_count k)) idle_entry (k\<lparr>k_threads := (\<lambda>_. 0)\<rparr>);
     (t, k2) \<leftarrow> create init_entry 1 (k1\<lparr>k_cpu_idx := 0\<rparr>);
     Some (set_current_thread (k_idle_threads k2 (unat (k_cpu k2))) k2) }"

definition switch_to :: "u64 \<Rightarrow> u64 \<Rightarrow> u64 \<Rightarrow> kernel \<Rightarrow> u64 \<times> kernel" where
  "switch_to intr_frame from to k =
     (let k1 = thread_switch_mm (rd64 (k_mem k) (th_mm (k_thread k to))) k;
          k2 = upd_thread from (\<lambda>x. x\<lparr>th_state := kRunNone\<rparr>) k1;
          k3 = upd_thread to (\<lambda>x. x\<lparr>th_state := kRunActive\<rparr>) k2
      in thread_switch_to intr_frame (th_arch_context (k_thread k3 from)) (th_arch_context (k_thread k3 to)) k3)"

text \<open>The timer interrupt returns to the interrupted frame when there is no switch. A null thread cannot be switched to. The handler
  first acknowledges the interrupt at the local controller (\<^verbatim>\<open>end_of_interrupt\<close>): that write is to a register of the controller
  and touches no field of the state, and is left out here.\<close>

definition do_lapic_timer :: "u64 \<Rightarrow> kernel \<Rightarrow> (u64 \<times> kernel) option" where
  "do_lapic_timer regs k = do {
     (next, k1) \<leftarrow> search kRunNone (ucast (k_cpu k)) k;
     if k_current k1 \<noteq> next then (if next = 0 then None else Some (switch_to regs (k_current k1) next k1))
     else Some (regs, k1) }"

section \<open>Choosing a thread\<close>

text \<open>The threads \<open>search\<close> considers: those before the first free slot of the table.\<close>

definition listed :: "kernel \<Rightarrow> nat \<Rightarrow> bool" where
  "listed k i \<longleftrightarrow> 1 \<le> i \<and> i < 4096 \<and> (\<forall>j. 1 \<le> j \<and> j \<le> i \<longrightarrow> k_threads k j \<noteq> 0)"

definition eligible :: "kernel \<Rightarrow> run_state \<Rightarrow> u32 \<Rightarrow> nat \<Rightarrow> bool" where
  "eligible k st cpu i \<longleftrightarrow> listed k i \<and> th_state (k_thread k (k_threads k i)) = st \<and> th_cpu_id (k_thread k (k_threads k i)) = cpu"

text \<open>\<open>best\<close>: the task chosen among the slots below \<open>i\<close>.\<close>

definition best :: "kernel \<Rightarrow> run_state \<Rightarrow> u32 \<Rightarrow> nat set \<Rightarrow> u64 \<Rightarrow> bool" where
  "best k st cpu S task \<longleftrightarrow>
     (if S = {} then task = 0
      else \<exists>i\<in>S. task = k_threads k i \<and> (\<forall>j\<in>S. th_jiffies (k_thread k task) \<le> th_jiffies (k_thread k (k_threads k j)) \<and>
             (j < i \<longrightarrow> th_jiffies (k_thread k task) < th_jiffies (k_thread k (k_threads k j)))))"

lemma listed_Suc: "(\<forall>j. 1 \<le> j \<and> j < i \<longrightarrow> k_threads k j \<noteq> 0) \<Longrightarrow> 1 \<le> i \<Longrightarrow> i < 4096 \<Longrightarrow> listed k i = (k_threads k i \<noteq> 0)"
  by (auto simp: listed_def le_less)

lemma best_insert:
  assumes "best k st cpu S task" "\<And>j. j \<in> S \<Longrightarrow> j < i \<and> k_threads k j \<noteq> 0"
  shows "best k st cpu (insert i S)
    (if task = 0 \<or> th_jiffies (k_thread k (k_threads k i)) < th_jiffies (k_thread k task) then k_threads k i else task)"
proof (cases "S = {}")
  case True
  with assms(1) show ?thesis by (simp add: best_def)
next
  case False
  let ?J = "\<lambda>j. th_jiffies (k_thread k (k_threads k j))"
  obtain i' where i': "i' \<in> S" "task = k_threads k i'" "\<And>j. j \<in> S \<Longrightarrow> ?J i' \<le> ?J j" "\<And>j. j \<in> S \<Longrightarrow> j < i' \<Longrightarrow> ?J i' < ?J j"
    using assms(1) False by (auto simp: best_def)
  have nz: "task \<noteq> 0" "i' < i" using i'(1,2) assms(2) by auto
  show ?thesis
  proof (cases "?J i < ?J i'")
    case True
    then have "\<forall>j\<in>insert i S. ?J i \<le> ?J j \<and> (j < i \<longrightarrow> ?J i < ?J j)" using i'(3) by (fastforce dest: order.strict_trans2)
    then show ?thesis using True nz i'(2) by (auto simp: best_def)
  next
    case False
    then have "\<forall>j\<in>insert i S. ?J i' \<le> ?J j \<and> (j < i' \<longrightarrow> ?J i' < ?J j)" using i'(3,4) nz(2) by auto
    then show ?thesis using False nz i'(1,2) by (auto simp: best_def)
  qed
qed

lemma search_loop_best:
  assumes "\<forall>j. 1 \<le> j \<and> j < i \<longrightarrow> k_threads k j \<noteq> 0" "1 \<le> i" "i \<le> 4096" "best k st cpu {j. eligible k st cpu j \<and> j < i} task"
  shows "best k st cpu {j. eligible k st cpu j} (search_loop k st cpu i task)"
  using assms
proof (induction k st cpu i task rule: search_loop.induct)
  case (1 k st cpu i task)
  let ?p = "k_threads k i"
  show ?case
  proof (cases "i < 4096 \<and> ?p \<noteq> 0")
    case False
    have "{j. eligible k st cpu j} = {j. eligible k st cpu j \<and> j < i}"
    proof -
      have "j < i" if "eligible k st cpu j" for j
        using that False "1.prems"(2,3) by (auto simp: eligible_def listed_def not_less [symmetric])
      then show ?thesis by auto
    qed
    moreover have "search_loop k st cpu i task = task" using False by (auto simp: search_loop.simps [of k st cpu i] Let_def)
    ultimately show ?thesis using "1.prems"(4) by simp
  next
    case True
    then have li: "listed k i" using listed_Suc [OF "1.prems"(1,2)] by simp
    have pre: "\<forall>j. 1 \<le> j \<and> j < Suc i \<longrightarrow> k_threads k j \<noteq> 0" using "1.prems"(1) True by (auto simp: less_Suc_eq)
    have S: "{j. eligible k st cpu j \<and> j < Suc i} =
        (if eligible k st cpu i then insert i {j. eligible k st cpu j \<and> j < i} else {j. eligible k st cpu j \<and> j < i})"
      by (auto simp: less_Suc_eq)
    show ?thesis
    proof (cases "eligible k st cpu i")
      case False
      then have ne: "th_state (k_thread k ?p) \<noteq> st \<or> th_cpu_id (k_thread k ?p) \<noteq> cpu" using li by (simp add: eligible_def)
      then have "search_loop k st cpu i task = search_loop k st cpu (Suc i) task"
        using True by (auto simp: search_loop.simps [of k st cpu i] Let_def)
      moreover have "best k st cpu {j. eligible k st cpu j} (search_loop k st cpu (Suc i) task)"
        using "1.IH"(1,2) True ne pre "1.prems"(4) S False by auto
      ultimately show ?thesis by simp
    next
      case el: True
      then have e: "th_state (k_thread k ?p) = st" "th_cpu_id (k_thread k ?p) = cpu" by (simp_all add: eligible_def)
      let ?b = "task = 0 \<or> th_jiffies (k_thread k ?p) < th_jiffies (k_thread k task)"
      have s: "search_loop k st cpu i task = search_loop k st cpu (Suc i) (if ?b then ?p else task)"
        using True e by (auto simp: search_loop.simps [of k st cpu i] Let_def)
      have "best k st cpu {j. eligible k st cpu j \<and> j < Suc i} (if ?b then ?p else task)"
        using best_insert [OF "1.prems"(4), of i] el unfolding S by (auto simp: eligible_def listed_def)
      then show ?thesis unfolding s using "1.IH"(3,4) True e pre by auto
    qed
  qed
qed

lemma search_cases:
  assumes "\<not> bit (sl_lock (k_search_lock k)) 0"
  shows "search st cpu k = Some (let task = search_loop k st cpu 1 0 in
      if task = 0 \<and> st = kRunNone then k_idle_threads k (unat cpu) else task,
    k\<lparr>k_search_lock := (k_search_lock k)\<lparr>sl_rflags := kh_rflags (k_heap k)\<rparr>\<rparr>)"
proof -
  obtain l1 where l: "spin_lock (k_search_lock k, kh_rflags (k_heap k)) = Some (l1, cli (kh_rflags (k_heap k)))"
    "\<And>rf'. spin_unlock (l1, rf') = ((k_search_lock k)\<lparr>sl_rflags := kh_rflags (k_heap k)\<rparr>, kh_rflags (k_heap k))"
    using spin_lock_unlock [OF assms, of "kh_rflags (k_heap k)"] by (auto simp: spin_unlock_def)
  let ?k = "k\<lparr>k_search_lock := l1, k_heap := (k_heap k)\<lparr>kh_rflags := cli (kh_rflags (k_heap k))\<rparr>\<rparr>"
  have same: "search_loop ?k st cpu i task = search_loop k st cpu i task" for st cpu i task
  proof (induction "?k" st cpu i task rule: search_loop.induct)
    case (1 st cpu i task)
    then show ?case by (simp add: search_loop.simps [of ?k st cpu i] search_loop.simps [of k st cpu i] Let_def)
  qed
  have "k\<lparr>k_search_lock := (k_search_lock k)\<lparr>sl_rflags := kh_rflags (k_heap k)\<rparr>,
      k_heap := (k_heap k)\<lparr>kh_rflags := kh_rflags (k_heap k)\<rparr>\<rparr> =
    k\<lparr>k_search_lock := (k_search_lock k)\<lparr>sl_rflags := kh_rflags (k_heap k)\<rparr>\<rparr>" by (cases k) simp
  then show ?thesis by (cases "st = kRunNone") (simp_all add: search_def lock_search_def unlock_search_def l same Let_def)
qed

text \<open>What \<open>search\<close> may return.\<close>

definition chosen :: "kernel \<Rightarrow> run_state \<Rightarrow> u32 \<Rightarrow> u64 \<Rightarrow> bool" where
  "chosen k st cpu task \<longleftrightarrow>
     (if \<exists>i. eligible k st cpu i then
        \<exists>i. eligible k st cpu i \<and> task = k_threads k i \<and>
          (\<forall>j. eligible k st cpu j \<longrightarrow> th_jiffies (k_thread k task) \<le> th_jiffies (k_thread k (k_threads k j)) \<and>
             (j < i \<longrightarrow> th_jiffies (k_thread k task) < th_jiffies (k_thread k (k_threads k j))))
      else task = (if st = kRunNone then k_idle_threads k (unat cpu) else 0))"

lemma search_chosen:
  assumes "search st cpu k = Some (task, k')"
  shows "chosen k st cpu task" "k' = k\<lparr>k_search_lock := (k_search_lock k)\<lparr>sl_rflags := kh_rflags (k_heap k)\<rparr>\<rparr>"
    "\<not> bit (sl_lock (k_search_lock k)) 0"
proof -
  show u: "\<not> bit (sl_lock (k_search_lock k)) 0"
    using assms by (auto simp: search_def lock_search_def spin_lock_def bts_def bind_eq_Some_conv split: if_splits)
  show "k' = k\<lparr>k_search_lock := (k_search_lock k)\<lparr>sl_rflags := kh_rflags (k_heap k)\<rparr>\<rparr>"
    using assms search_cases [OF u] by simp
  have b: "best k st cpu {j. eligible k st cpu j} (search_loop k st cpu 1 0)"
    by (rule search_loop_best) (auto simp: best_def eligible_def listed_def)
  have nz: "k_threads k i \<noteq> 0" if "eligible k st cpu i" for i using that by (auto simp: eligible_def listed_def)
  show "chosen k st cpu task"
    using b nz assms search_cases [OF u, of st cpu] unfolding best_def chosen_def by (auto simp: Let_def split: if_splits)
qed

section \<open>Timer interrupts\<close>

primrec ticks :: "u64 list \<Rightarrow> kernel \<Rightarrow> kernel option" where
  "ticks [] k = Some k"
| "ticks (r # rs) k = do { (f, k1) \<leftarrow> do_lapic_timer r k; ticks rs k1 }"

lemma thread_switch_to_frame:
  "k_thread (snd (thread_switch_to r p n k)) = k_thread k" "k_current (snd (thread_switch_to r p n k)) = k_current k"
  "k_threads (snd (thread_switch_to r p n k)) = k_threads k" "k_idle_threads (snd (thread_switch_to r p n k)) = k_idle_threads k"
  "k_cpu (snd (thread_switch_to r p n k)) = k_cpu k"
  by (simp_all add: thread_switch_to_def Let_def upd_ctx_def set_mem_def)

lemma switch_to_frame:
  "k_thread (snd (switch_to r a b k)) =
     (k_thread k)(a := (k_thread k a)\<lparr>th_state := kRunNone\<rparr>,
       b := (if a = b then (k_thread k a)\<lparr>th_state := kRunNone\<rparr> else k_thread k b)\<lparr>th_state := kRunActive\<rparr>)"
  "k_current (snd (switch_to r a b k)) = k_current k" "k_idle_threads (snd (switch_to r a b k)) = k_idle_threads k"
  "k_cpu (snd (switch_to r a b k)) = k_cpu k" "k_threads (snd (switch_to r a b k)) = k_threads k"
  by (simp_all add: switch_to_def Let_def thread_switch_to_frame upd_thread_def thread_switch_mm_def)

lemma switch_to_lock: "k_search_lock (snd (switch_to r a b k)) = k_search_lock k"
  by (simp add: switch_to_def thread_switch_to_def Let_def upd_ctx_def set_mem_def upd_thread_def thread_switch_mm_def)

text \<open>A running thread that the current-thread register does not point to.\<close>

definition orphan :: "kernel \<Rightarrow> u64 \<Rightarrow> bool" where
  "orphan k t \<longleftrightarrow> th_state (k_thread k t) = kRunActive \<and> t \<noteq> k_current k \<and> t \<noteq> k_idle_threads k (unat (ucast (k_cpu k) :: u32))"

lemma orphan_not_chosen:
  assumes "orphan k t" "search kRunNone (ucast (k_cpu k)) k = Some (task, k')"
  shows "task \<noteq> t"
  using search_chosen(1) [OF assms(2)] assms(1) by (auto simp: chosen_def orphan_def eligible_def split: if_splits)

lemma do_lapic_timer_orphan:
  assumes "orphan k t" "do_lapic_timer r k = Some (f, k1)"
  shows "orphan k1 t"
proof -
  from assms(2) obtain nx ka where s: "search kRunNone (ucast (k_cpu k)) k = Some (nx, ka)"
    "(f, k1) = (if k_current ka \<noteq> nx then switch_to r (k_current ka) nx ka else (r, ka))"
    by (auto simp: do_lapic_timer_def bind_eq_Some_conv split: if_splits)
  have ne: "nx \<noteq> t" by (rule orphan_not_chosen [OF assms(1) s(1)])
  have ka: "orphan ka t" using search_chosen(2) [OF s(1)] assms(1) by (simp add: orphan_def)
  show ?thesis
  proof (cases "k_current ka = nx")
    case True
    with s(2) ka show ?thesis by simp
  next
    case False
    then have "k1 = snd (switch_to r (k_current ka) nx ka)" using s(2) by (simp, metis snd_conv)
    then show ?thesis using ka ne by (auto simp: orphan_def switch_to_frame)
  qed
qed

lemma ticks_orphan: "orphan k t \<Longrightarrow> ticks rs k = Some k' \<Longrightarrow> orphan k' t"
proof (induction rs arbitrary: k)
  case (Cons r rs)
  from Cons.prems(2) obtain f k1 where "do_lapic_timer r k = Some (f, k1)" "ticks rs k1 = Some k'"
    by (auto simp: bind_eq_Some_conv)
  then show ?case using Cons.IH do_lapic_timer_orphan [OF Cons.prems(1)] by blast
qed simp

lemma do_lapic_timer_current:
  assumes "do_lapic_timer r k = Some (f, k1)"
  shows "k_current k1 = k_current k"
proof -
  from assms obtain nx ka where s: "search kRunNone (ucast (k_cpu k)) k = Some (nx, ka)"
    "(f, k1) = (if k_current ka \<noteq> nx then switch_to r (k_current ka) nx ka else (r, ka))"
    by (auto simp: do_lapic_timer_def bind_eq_Some_conv split: if_splits)
  have "k1 = snd (switch_to r (k_current ka) nx ka) \<or> k1 = ka" using s(2) by (metis snd_conv)
  then show ?thesis using search_chosen(2) [OF s(1)] switch_to_frame(2) by auto
qed

lemma ticks_current: "ticks rs k = Some k' \<Longrightarrow> k_current k' = k_current k"
  by (induction rs arbitrary: k) (auto simp: bind_eq_Some_conv dest!: do_lapic_timer_current)

lemma switch_makes_orphan:
  assumes "search kRunNone (ucast (k_cpu k)) k = Some (t, ka)" "t \<noteq> k_current k"
    "t \<noteq> k_idle_threads k (unat (ucast (k_cpu k) :: u32))" "do_lapic_timer r k = Some (f, k1)"
  shows "orphan k1 t"
proof -
  have ka: "k_current ka = k_current k" "k_idle_threads ka = k_idle_threads k" "k_cpu ka = k_cpu k"
    using search_chosen(2) [OF assms(1)] by simp_all
  have "(f, k1) = switch_to r (k_current k) t ka"
    using assms(1,2,4) ka(1) by (auto simp: do_lapic_timer_def split: if_splits)
  then have "k1 = snd (switch_to r (k_current k) t ka)" by (metis snd_conv)
  then show ?thesis using assms(2,3) ka by (simp add: orphan_def switch_to_frame)
qed

lemma unat_ucast32: "unat (ucast (x :: u32) :: u64) = unat x"
proof -
  have "unat x < 2 ^ 64" using unsigned_less [of x, where ?'a = nat] by simp
  then show ?thesis by (simp add: unsigned_ucast_eq unsigned_take_bit_eq take_bit_nat_eq_self)
qed

lemma bit_0xa: "bit (0xa :: u64) n = (n = 1 \<or> n = 3)"
proof -
  have a: "bit ((2 :: u64) ^ 1) n = (n = 1)" "bit ((2 :: u64) ^ 3) n = (n = 3)" by (rule bit_exp64, simp)+
  have "(0xa :: u64) = 2 ^ 1 OR 2 ^ 3" by simp
  then show ?thesis using bit_or_iff [of "(2 :: u64) ^ 1" "2 ^ 3" n] by (simp only: a)
qed

lemma unat_minus_le: "unat (y :: u64) \<le> unat x \<Longrightarrow> unat (x - y) = unat x - unat y"
  using unat_sub_if_size [of x y] by simp

lemma page_below:
  assumes "(stack :: u64) AND 4095 = 0" "stack \<noteq> 0"
  shows "(stack - 192) div PAGE_SIZE = stack div PAGE_SIZE - 1" "(stack - 192) AND NOT 0xa = stack - 192"
proof -
  have t: "take_bit 12 stack = 0" using assms(1) by (simp add: take_bit_eq_mask mask_eq_exp_minus_1)
  then have "stack mod 4096 = 0" by (simp add: take_bit_eq_mod)
  then have "unat stack mod 4096 = 0" by (simp add: word_unat_eq_iff unat_mod)
  then obtain q where q: "unat stack = 4096 * q" by auto
  moreover have "q \<noteq> 0" using q assms(2) unat_gt_0 [of stack] by auto
  ultimately obtain r where r: "unat stack = 4096 * r + 4096" by (cases q) auto
  have u: "unat (stack - 192) = unat stack - 192" using unat_minus_le [of 192 stack] r by simp
  have "unat (stack - 192) div 4096 = r" using r u by simp
  then have "unat ((stack - 192) div 4096) = r" by (simp add: unat_div)
  moreover have "unat (stack div 4096) = r + 1" using r by (simp add: unat_div)
  then have "unat (stack div 4096 - 1) = r" using unat_minus_le [of 1 "stack div 4096"] by simp
  ultimately show "(stack - 192) div PAGE_SIZE = stack div PAGE_SIZE - 1" by (simp add: PAGE_SIZE_def word_unat_eq_iff)
  have "unat (stack - 192) = 2 * (2 * (1024 * r + 976))" "unat (stack - 192) = 8 * (2 * (256 * r + 244))" using u r by simp_all
  then have "\<not> bit (unat (stack - 192)) 1" "\<not> bit (unat (stack - 192)) 3"
    by (simp_all only: bit_iff_odd) simp_all
  then have b: "\<not> bit (stack - 192) 1" "\<not> bit (stack - 192) 3" by (simp_all add: bit_unsigned_iff)
  show "(stack - 192) AND NOT 0xa = stack - 192"
  proof (rule bit_word_eqI)
    fix n assume "n < LENGTH(64)"
    then show "bit ((stack - 192) AND NOT 0xa) n = bit (stack - 192) n"
      unfolding bit_and_iff bit_not_iff bit_0xa using b by auto
  qed
qed

section \<open>Properties\<close>

text \<open>C8: \<open>search\<close>, when the lock is free, returns a thread of the processor in the wanted state that has run least, the first of those in
  table order, among the threads before the first free slot of the table. When there is none, it returns the idle thread of the
  processor for a ready thread and null for any other state. It changes nothing but the flags saved in its lock.\<close>

theorem search_picks_least_run:
  assumes "\<not> bit (sl_lock (k_search_lock k)) 0"
  shows "\<exists>task. search st cpu k = Some (task, k\<lparr>k_search_lock := (k_search_lock k)\<lparr>sl_rflags := kh_rflags (k_heap k)\<rparr>\<rparr>) \<and>
    (if \<exists>i. eligible k st cpu i then
       \<exists>i. eligible k st cpu i \<and> task = k_threads k i \<and>
         (\<forall>j. eligible k st cpu j \<longrightarrow> th_jiffies (k_thread k task) \<le> th_jiffies (k_thread k (k_threads k j)) \<and>
            (j < i \<longrightarrow> th_jiffies (k_thread k task) < th_jiffies (k_thread k (k_threads k j))))
     else task = (if st = kRunNone then k_idle_threads k (unat cpu) else 0))"
proof -
  obtain task where t: "search st cpu k = Some (task, k\<lparr>k_search_lock := (k_search_lock k)\<lparr>sl_rflags := kh_rflags (k_heap k)\<rparr>\<rparr>)"
    by (rule that [OF search_cases [OF assms]])
  show ?thesis by (rule exI [of _ task], rule conjI [OF t search_chosen(1) [OF t, unfolded chosen_def]])
qed

text \<open>C39: A timer interrupt that switches to another thread, not the idle thread of the processor, leaves the current-thread
  register alone. From then on, over any number of timer interrupts (no other event is considered), the register still holds the
  thread that was interrupted first, and the thread switched to stays marked as running: the search for a ready thread, on
  its processor, never returns it. (The interrupt that takes the processor from it marks the current thread as ready in its
  place, and stores its registers there.)\<close>

theorem switched_thread_starves:
  assumes "search kRunNone (ucast (k_cpu k)) k = Some (t, ka)" "t \<noteq> k_current k"
    "t \<noteq> k_idle_threads k (unat (ucast (k_cpu k) :: u32))"
    "do_lapic_timer r k = Some (f, k1)" "ticks rs k1 = Some k'"
  shows "k_current k' = k_current k \<and> th_state (k_thread k' t) = kRunActive \<and>
    (\<forall>k''. search kRunNone (ucast (k_cpu k')) k' \<noteq> Some (t, k''))"
proof -
  have o: "orphan k' t" by (rule ticks_orphan [OF switch_makes_orphan [OF assms(1-4)] assms(5)])
  have "search kRunNone (ucast (k_cpu k')) k' \<noteq> Some (t, k'')" for k'' using orphan_not_chosen [OF o, of t k''] by blast
  moreover have "th_state (k_thread k' t) = kRunActive" using o by (simp add: orphan_def)
  ultimately show ?thesis using do_lapic_timer_current [OF assms(4)] ticks_current [OF assms(5)] by simp
qed

text \<open>C27: \<open>add_fd_info\<close> puts the descriptor into the lowest free slot, returns its number and leaves every other slot alone; when the
  thread has no table or no slot is free it returns \<open>-1\<close> and changes nothing.\<close>

theorem add_fd_info_first_free:
  fixes k :: kernel and t f :: u64
  defines "fi \<equiv> th_file_info (k_thread k t)"
  defines "slot_of \<equiv> \<lambda>m i. rd64 m (fi_fds (k_finfo k fi) + of_nat i * 8)"
  defines "n \<equiv> if fi = 0 then 0 else unat (fd_slots (k_finfo k fi))"
  shows "(\<forall>i < n. slot_of (k_mem k) i \<noteq> 0) \<and> add_fd_info t f k = (- 1, k) \<or>
    (\<exists>i < n. (\<forall>j < i. slot_of (k_mem k) j \<noteq> 0) \<and> slot_of (k_mem k) i = 0 \<and> fst (add_fd_info t f k) = of_nat i \<and>
       slot_of (k_mem (snd (add_fd_info t f k))) i = f \<and>
       (\<forall>j < n. j \<noteq> i \<longrightarrow> slot_of (k_mem (snd (add_fd_info t f k))) j = slot_of (k_mem k) j))"
proof (cases "fi = 0")
  case True
  then show ?thesis by (simp add: n_def add_fd_info_def fi_def [symmetric])
next
  case False
  let ?fds = "fi_fds (k_finfo k fi)" and ?N = "fd_slots (k_finfo k fi)"
  let ?r = "for_ret 0 ?N (\<lambda>i s. if rd64 (k_mem k) (?fds + i * 8) = 0 then Inl i else Inr s) ()"
  have N: "unat ?N < 2 ^ 31"
  proof (cases "0 < sint (fi_max_fd_count (k_finfo k fi))")
    case True
    let ?x = "sint (fi_max_fd_count (k_finfo k fi))"
    obtain x where x: "?x = int x" using True zero_le_imp_eq_int [of ?x] by auto
    have "x < 2 ^ 31" using sint32_range(2) [of "fi_max_fd_count (k_finfo k fi)"] x by simp
    then show ?thesis using True by (simp add: fd_slots_def scast_of_int x)
  qed (simp add: fd_slots_def)
  have F: "case ?r of
      Inl r \<Rightarrow> \<exists>i. i < unat ?N \<and> r = of_nat i \<and> rd64 (k_mem k) (?fds + r * 8) = 0 \<and> (\<forall>j < i. rd64 (k_mem k) (?fds + of_nat j * 8) \<noteq> 0)
    | Inr s' \<Rightarrow> \<forall>j < unat ?N. rd64 (k_mem k) (?fds + of_nat j * 8) \<noteq> 0"
    using for_ret_first [of 0 ?N "\<lambda>i. rd64 (k_mem k) (?fds + i * 8) = 0" "()"] by (simp split: sum.splits)
  show ?thesis
  proof (cases ?r)
    case (Inr u)
    then show ?thesis using F False by (simp add: n_def slot_of_def add_fd_info_def fi_def [symmetric] Let_def)
  next
    case (Inl r)
    then obtain i where i: "i < unat ?N" "r = of_nat i" "rd64 (k_mem k) (?fds + of_nat i * 8) = 0"
      "\<forall>j < i. rd64 (k_mem k) (?fds + of_nat j * 8) \<noteq> 0" using F by auto
    have e: "add_fd_info t f k = (of_nat i, set_mem (wr64 (k_mem k) (?fds + of_nat i * 8) f) k)"
      using Inl False i(2) by (simp add: add_fd_info_def fi_def [symmetric] Let_def)
    have "rd64 (wr64 (k_mem k) (?fds + of_nat i * 8) f) (?fds + of_nat j * 8) = rd64 (k_mem k) (?fds + of_nat j * 8)"
      if "j < unat ?N" "j \<noteq> i" for j
    proof (rule rd64_wr64_other)
      have d: "8 \<le> (of_nat a * 8 - of_nat b * 8 :: u64)" if "a < 2 ^ 31" "b < 2 ^ 31" "a \<noteq> b" for a b :: nat
      proof -
        have "unat (of_nat (a * 8) :: u64) = a * 8" "unat (of_nat (b * 8) :: u64) = b * 8"
          by (rule unat_of_nat64, use that in simp)+
        then have "8 \<le> unat (of_nat (a * 8) - of_nat (b * 8) :: u64)"
          using that unat_sub_if_size [of "of_nat (a * 8) :: u64" "of_nat (b * 8)"] by (auto simp: word_size)
        then show ?thesis by (simp add: word_le_nat_alt)
      qed
      show "8 \<le> ?fds + of_nat j * 8 - (?fds + of_nat i * 8)" "8 \<le> ?fds + of_nat i * 8 - (?fds + of_nat j * 8)"
        using d [of j i] d [of i j] that i(1) N by simp_all
    qed
    then show ?thesis using False i by (intro disjI2 exI [of _ i]) (simp add: n_def slot_of_def e set_mem_def)
  qed
qed

text \<open>Processors are assigned to new threads in turn: of \<open>n\<close> processors, the assignments after the first \<open>i\<close> start again where
  the index stands, modulo \<open>n\<close>.\<close>

theorem alloc_cpu_id_round_robin:
  assumes "unat (k_cpu_idx k) < n" "k_cpu_count k = of_nat n" "n < 2 ^ 32"
  shows "unat (fst (alloc_cpu_id (((snd \<circ> alloc_cpu_id) ^^ i) k))) = (unat (k_cpu_idx k) + i) mod n"
proof -
  have step: "unat (k_cpu_idx (snd (alloc_cpu_id k))) = (unat (k_cpu_idx k) + 1) mod n"
    if "unat (k_cpu_idx k) < n" "k_cpu_count k = of_nat n" for k
  proof -
    have "unat (k_cpu_idx k + 1) = (if unat (k_cpu_idx k) + 1 = 2 ^ 32 then 0 else unat (k_cpu_idx k) + 1)"
      using unsigned_less [of "k_cpu_idx k", where ?'a = nat] by (auto simp: unat_word_ariths mod_if)
    then have w: "unat (k_cpu_idx k + 1) = unat (k_cpu_idx k) + 1" using that assms(3) by simp
    have "unat ((ucast (k_cpu_idx k + 1) :: u64) mod of_nat n) = (unat (k_cpu_idx k) + 1) mod n"
      using w assms(3) by (simp add: unat_mod unat_ucast32)
    moreover have "(unat (k_cpu_idx k) + 1) mod n < 2 ^ 32" using that assms(3)
      by (metis mod_less_divisor order.strict_trans not_less0 neq0_conv)
    ultimately show ?thesis
      using that by (simp add: alloc_cpu_id_def unsigned_ucast_eq unsigned_take_bit_eq take_bit_nat_eq_self)
  qed
  have cnt: "k_cpu_count (snd (alloc_cpu_id k)) = k_cpu_count k" for k by (simp add: alloc_cpu_id_def)
  have "unat (k_cpu_idx (((snd \<circ> alloc_cpu_id) ^^ i) k)) = (unat (k_cpu_idx k) + i) mod n \<and>
      k_cpu_count (((snd \<circ> alloc_cpu_id) ^^ i) k) = of_nat n"
  proof (induction i)
    case (Suc i)
    let ?k = "((snd \<circ> alloc_cpu_id) ^^ i) k"
    have "unat (k_cpu_idx ?k) < n" using Suc assms(1) by (metis gr_implies_not0 mod_less_divisor neq0_conv)
    with step [of ?k] Suc
    have "unat (k_cpu_idx (snd (alloc_cpu_id ?k))) = ((unat (k_cpu_idx k) + i) mod n + 1) mod n" by simp
    moreover have "k_cpu_count (snd (alloc_cpu_id ?k)) = of_nat n" using trans [OF cnt conjunct2 [OF Suc.IH]] .
    moreover have "((snd \<circ> alloc_cpu_id) ^^ Suc i) k = snd (alloc_cpu_id ?k)" by simp
    ultimately show ?case by (simp only: mod_add_left_eq add.assoc simp_thms Suc_eq_plus1)
  qed (use assms in simp)
  then show ?thesis by (simp add: alloc_cpu_id_def)
qed

text \<open>C30: A thread that is switched away and back resumes where it was interrupted, with the bases of \<open>fs\<close> and \<open>gs\<close> and the floating
  point state it had, whatever the other thread did with those registers in between.\<close>

theorem switch_roundtrip:
  assumes "a \<noteq> b" "a \<noteq> 0" "b \<noteq> 0" "ra \<noteq> 0" "rb \<noteq> 0"
    and apart: "\<And>i j. i < 512 \<Longrightarrow> j < 512 \<Longrightarrow> cx_fpu (k_ctx k a) + of_nat i \<noteq> cx_fpu (k_ctx k b) + of_nat j"
    and k1: "k1 = snd (thread_switch_to ra a b k)"
    and k2: "k2 = k1\<lparr>k_cpu_fsbase := x, k_cpu_gsbase := y, k_cpu_fpu := z\<rparr>"
    and k3: "(frame, k3) = thread_switch_to rb b a k2"
  shows "frame = ra \<and> k_cpu_fsbase k3 = k_cpu_fsbase k \<and> k_cpu_gsbase k3 = k_cpu_gsbase k \<and>
    (\<forall>i < 512. k_cpu_fpu k3 i = k_cpu_fpu k i)"
proof -
  let ?A = "cx_fpu (k_ctx k a)" and ?B = "cx_fpu (k_ctx k b)"
  have A: "(?A + of_nat i) - ?B < 512 \<longleftrightarrow> False" if "i < 512" for i
    using window_iff [of 512 "?A + of_nat i" ?B] apart [OF that] by auto
  have w: "(?A + of_nat i) - ?A < 512" if "i < 512" for i
    using window_iff [of 512 "?A + of_nat i" ?A] that by auto
  have c1: "cx_fpu (k_ctx k1 a) = ?A" "cx_fpu (k_ctx k1 b) = ?B" "cx_context (k_ctx k1 a) = ra"
    "cx_fsbase (k_ctx k1 a) = k_cpu_fsbase k" "cx_gsbase (k_ctx k1 a) = k_cpu_gsbase k"
    using assms(1-5) by (simp_all add: k1 thread_switch_to_def Let_def upd_ctx_def set_mem_def)
  have m1: "k_mem k1 (?A + of_nat i) = k_cpu_fpu k i" if "i < 512" for i
    using assms(1-5) w [OF that] that by (simp add: k1 thread_switch_to_def Let_def upd_ctx_def set_mem_def)
  have c3: "frame = cx_context (k_ctx k1 a)" "k_cpu_fsbase k3 = cx_fsbase (k_ctx k1 a)" "k_cpu_gsbase k3 = cx_gsbase (k_ctx k1 a)"
    using k3 assms(1-5) by (simp_all add: k2 thread_switch_to_def Let_def upd_ctx_def set_mem_def)
  have "k_cpu_fpu k3 i = k_mem k1 (?A + of_nat i)" if "i < 512" for i
    using k3 assms(1-5) A [OF that] by (simp add: k2 thread_switch_to_def Let_def upd_ctx_def set_mem_def c1(1,2))
  then show ?thesis using c1 c3 m1 by simp
qed

text \<open>The register frame of a new thread lies below the memory the caller of \<open>arch_context_init\<close> gives it as a stack: for a stack at
  a page boundary, in the page before its first page. \<open>create\<close> passes the lowest address of the frames it allocated for the
  stack, so the frame, and everything the thread pushes, is outside of them.\<close>

lemma new_context_below_stack:
  assumes "arch_context_init entry stack k = Some (ctx, k')" "stack AND 4095 = 0" "stack \<noteq> 0"
  shows "cx_context (k_ctx k' ctx) div PAGE_SIZE = stack div PAGE_SIZE - 1 \<and>
    rg_rip (k_regs k' (cx_context (k_ctx k' ctx))) = entry \<and>
    rg_rsp (k_regs k' (cx_context (k_ctx k' ctx))) = cx_context (k_ctx k' ctx)"
proof -
  obtain ka kb h where K: "kmalloc 48 k = Some (ctx, ka)" "cx_context (k_ctx k' ctx) = stack - 192"
    "k_regs k' (stack - 192) = (k_regs ka (stack - 192))\<lparr>rg_r15 := 0, rg_r14 := 0, rg_r13 := 0, rg_r12 := 0, rg_r11 := 0,
       rg_r10 := 0, rg_rflags := 0x200, rg_rip := entry, rg_rsp := (stack - 192) AND NOT 0xa, rg_cs := 8, rg_ss := 0x10,
       rg_ds := 0x10, rg_es := 0x10\<rparr>"
    using assms(1) by (auto simp: arch_context_init_def bind_eq_Some_conv Let_def upd_ctx_def upd_regs_def set_mem_def
        split: if_splits)
  then show ?thesis using page_below [OF assms(2,3)] by simp
qed

text \<open>Two ready threads in the table, an idle thread, and a running thread outside of the table.\<close>

definition demo_threads :: kernel where
  "demo_threads = (blank_kernel demo_heap)\<lparr>
     k_threads := (\<lambda>_. 0)(1 := 0x1000, 2 := 0x2000),
     k_idle_threads := (\<lambda>_. 0x3000),
     k_thread := (\<lambda>_. blank_thread)(0x1000 := blank_thread\<lparr>th_jiffies := 5\<rparr>, 0x2000 := blank_thread\<lparr>th_jiffies := 3\<rparr>,
       0x4000 := blank_thread\<lparr>th_state := kRunActive, th_file_info := 0x5000\<rparr>),
     k_current := 0x1000,
     k_finfo := (\<lambda>_. \<lparr>fi_fds = 0x6000, fi_max_fd_count = 2, fi_ref_count = 1\<rparr>),
     k_ctx := (\<lambda>p. \<lparr>cx_context = 0, cx_fpu = p + 0x10000, cx_fs = 0, cx_gs = 0, cx_fsbase = 0, cx_gsbase = 0\<rparr>)\<rparr>"

lemma demo_lock: "\<not> bit (sl_lock (k_search_lock demo_threads)) 0"
  by (simp add: demo_threads_def blank_kernel_def SPIN_INIT_def)

lemma demo_listed: "listed demo_threads i \<longleftrightarrow> i = 1 \<or> i = 2"
proof
  show "i = 1 \<or> i = 2" if l: "listed demo_threads i"
  proof (rule ccontr)
    assume "\<not> (i = 1 \<or> i = 2)"
    then have "3 \<le> i" using l by (auto simp: listed_def)
    then have "k_threads demo_threads 3 \<noteq> 0" using l unfolding listed_def by simp
    then show False by (simp add: demo_threads_def)
  qed
  have "j = 1 \<or> j = 2" if "1 \<le> j" "j \<le> 2" for j :: nat using that by auto
  then show "listed demo_threads i" if "i = 1 \<or> i = 2"
    using that by (auto simp: listed_def demo_threads_def dest: le_antisym)
qed

lemma demo_eligible: "eligible demo_threads kRunNone 0 i \<longleftrightarrow> i = 1 \<or> i = 2"
  by (auto simp: eligible_def demo_listed) (simp_all add: demo_threads_def blank_thread_def)

lemma demo_least:
  assumes "eligible demo_threads kRunNone 0 i"
    "\<forall>j. eligible demo_threads kRunNone 0 j \<longrightarrow>
       th_jiffies (k_thread demo_threads (k_threads demo_threads i)) \<le> th_jiffies (k_thread demo_threads (k_threads demo_threads j))"
  shows "k_threads demo_threads i = 0x2000"
  using assms(1) assms(2) [rule_format, of 2] unfolding demo_eligible by (auto simp: demo_threads_def)

lemma demo_search: "\<exists>k'. search kRunNone 0 demo_threads = Some (0x2000, k')"
proof -
  obtain task k' where s: "search kRunNone 0 demo_threads = Some (task, k')" using search_cases [OF demo_lock] by blast
  have "\<exists>i. eligible demo_threads kRunNone 0 i" using demo_eligible by blast
  with search_chosen(1) [OF s] have "task = 0x2000" unfolding chosen_def using demo_least by auto
  with s show ?thesis by blast
qed

theorem search_picks_least_run_witness: "\<exists>k'. search kRunNone 0 demo_threads = Some (0x2000, k')"
proof -
  have "\<exists>i. eligible demo_threads kRunNone 0 i" using demo_eligible by blast
  then show ?thesis using search_picks_least_run [OF demo_lock, of kRunNone 0] demo_least by auto
qed

theorem switched_thread_starves_witness:
  "\<exists>k'. ticks [0x9000, 0xA000] demo_threads = Some k' \<and> k_current k' = 0x1000 \<and> th_state (k_thread k' 0x2000) = kRunActive \<and>
     (\<forall>k''. search kRunNone (ucast (k_cpu k')) k' \<noteq> Some (0x2000, k''))"
proof -
  obtain ka where s: "search kRunNone (ucast (k_cpu demo_threads)) demo_threads = Some (0x2000, ka)"
    using demo_search by (auto simp: demo_threads_def blank_kernel_def)
  have t: "do_lapic_timer 0x9000 demo_threads = Some (switch_to 0x9000 0x1000 0x2000 ka)"
    using s search_chosen(2) [OF s] by (simp add: do_lapic_timer_def demo_threads_def)
  obtain f k1 where k1: "switch_to 0x9000 0x1000 0x2000 ka = (f, k1)" by (rule prod.exhaust)
  have st: "k_idle_threads k1 = (\<lambda>_. 0x3000)" "k_cpu k1 = 0" "k_search_lock k1 = k_search_lock ka"
    using switch_to_frame(3-5) [of "0x9000" "0x1000" "0x2000" ka] search_chosen(2) [OF s] k1
      switch_to_lock [of "0x9000" "0x1000" "0x2000" ka]
    by (simp_all add: demo_threads_def blank_kernel_def)
  have "\<not> bit (sl_lock (k_search_lock k1)) 0" using search_chosen(2) [OF s] demo_lock by (simp add: st(3))
  then obtain nx kb where s1: "search kRunNone (ucast (k_cpu k1)) k1 = Some (nx, kb)" using search_cases by blast
  have "nx \<noteq> 0" using search_chosen(1) [OF s1] st(1) by (auto simp: chosen_def eligible_def listed_def split: if_splits)
  then obtain g k' where "do_lapic_timer 0xA000 k1 = Some (g, k')"
    using s1 by (cases "switch_to 0xA000 (k_current kb) nx kb"; cases "k_current kb = nx") (simp_all add: do_lapic_timer_def)
  then have k': "ticks [0xA000] k1 = Some k'" by simp
  show ?thesis
    using switched_thread_starves [OF s _ _ t [unfolded k1] k'] k' t k1 by (simp add: demo_threads_def blank_kernel_def)
qed

theorem add_fd_info_first_free_witness: "fst (add_fd_info 0x4000 0x7000 (set_mem (wr64 (\<lambda>_. 0) 0x6000 0x8000) demo_threads)) = 1"
proof -
  let ?k = "set_mem (wr64 (\<lambda>_. 0) 0x6000 0x8000) demo_threads"
  have f: "th_file_info (k_thread ?k 0x4000) = 0x5000" "fi_fds (k_finfo ?k 0x5000) = 0x6000" "unat (fd_slots (k_finfo ?k 0x5000)) = 2"
    "k_mem ?k = wr64 (\<lambda>_. 0) 0x6000 0x8000"
    by (simp_all add: demo_threads_def set_mem_def fd_slots_def)
  have m: "rd64 (wr64 (\<lambda>_. 0) 0x6000 0x8000) 0x6000 = 0x8000" "rd64 (wr64 (\<lambda>_. 0) 0x6000 0x8000) 0x6008 = 0"
    by (simp, subst rd64_wr64_other, simp_all add: rd64_def upt_rec)
  have two: "(\<forall>i < (2 :: nat). P i) \<longleftrightarrow> P 0 \<and> P 1" "(\<exists>i < (2 :: nat). P i) \<longleftrightarrow> P 0 \<or> P 1" for P
    by (auto simp: less_2_cases_iff)
  have nz: "(0x5000 :: u64) \<noteq> 0" by simp
  show ?thesis using add_fd_info_first_free [of ?k "0x4000" "0x7000"]
    unfolding f if_not_P [OF nz] two by (simp add: m)
qed

theorem alloc_cpu_id_round_robin_witness: "unat (fst (alloc_cpu_id (((snd \<circ> alloc_cpu_id) ^^ 3) demo_threads))) = 1"
  using alloc_cpu_id_round_robin [of demo_threads 2 3] by (simp add: demo_threads_def blank_kernel_def)

theorem switch_roundtrip_witness:
  "\<exists>k3. thread_switch_to 0x8000 0x2000 0x1000 (snd (thread_switch_to 0x9000 0x1000 0x2000 demo_threads)) = (0x9000, k3)"
proof -
  let ?k1 = "snd (thread_switch_to 0x9000 0x1000 0x2000 demo_threads)"
  obtain frame k3 where k3: "(frame, k3) = thread_switch_to 0x8000 0x2000 0x1000 ?k1" by (metis surj_pair)
  have r: "?k1 = ?k1\<lparr>k_cpu_fsbase := k_cpu_fsbase ?k1, k_cpu_gsbase := k_cpu_gsbase ?k1, k_cpu_fpu := k_cpu_fpu ?k1\<rparr>" by simp
  have ap: "cx_fpu (k_ctx demo_threads 0x1000) + of_nat i \<noteq> cx_fpu (k_ctx demo_threads 0x2000) + of_nat j" if "i < 512" "j < 512" for i j
  proof
    assume "cx_fpu (k_ctx demo_threads 0x1000) + of_nat i = cx_fpu (k_ctx demo_threads 0x2000) + of_nat j"
    then have "of_nat i = (of_nat (0x1000 + j) :: u64)" by (simp add: demo_threads_def algebra_simps)
    then show False using of_nat64_eq_iff [of i "0x1000 + j"] that by simp
  qed
  have "frame = 0x9000" using switch_roundtrip [OF _ _ _ _ _ ap refl r k3] by simp
  then show ?thesis using k3 by metis
qed

end
