(* ===== verification/ThreadTable.thy ===== *)
theory ThreadTable
  imports Thread
begin

text \<open>
  The thread table as an invariant over the heap: every entry points to a live block of the heap, and the thread there has the
  number of its slot, 0 for the idle threads. As the numbers differ, the entries of the table are different threads. What
  \<open>get_free_thread\<close> promises rests on the contract of the heap (\<open>kernel\<close> of \<open>Heap\<close>): a new block is none of the live ones.
\<close>

definition slots_live :: "kernel \<Rightarrow> (nat \<rightharpoonup> nat) \<Rightarrow> nat set \<Rightarrow> (nat \<Rightarrow> u64) \<Rightarrow> (nat \<Rightarrow> u64) \<Rightarrow> bool" where
  "slots_live k L S table ident \<longleftrightarrow>
     (\<forall>i\<in>S. table i \<noteq> 0 \<longrightarrow> unat (table i) \<in> dom L \<and> th_id (k_thread k (table i)) = ident i)"

definition thread_table :: "kernel \<Rightarrow> (nat \<rightharpoonup> nat) \<Rightarrow> bool" where
  "thread_table k L \<longleftrightarrow> heap_repr (k_heap k) L \<and>
     slots_live k L {1..<4096} (k_threads k) of_nat \<and> slots_live k L {..<unat (k_cpu_count k)} (k_idle_threads k) (\<lambda>_. 0)"

lemma thread_table_distinct:
  assumes "thread_table k L" "i \<in> {1..<4096}" "j \<in> {1..<4096}" "k_threads k i \<noteq> 0" "k_threads k i = k_threads k j"
  shows "i = j"
proof -
  have "th_id (k_thread k (k_threads k a)) = of_nat a" if "a \<in> {1..<4096}" "k_threads k a \<noteq> 0" for a
    using assms(1) that by (auto simp: thread_table_def slots_live_def)
  from this [OF assms(2,4)] this [OF assms(3)] have "of_nat i = (of_nat j :: u64)" using assms(4,5) by simp
  then show ?thesis using assms(2,3) of_nat64_eq_iff [of i j] by simp
qed

text \<open>A new block with the thread's number, and one slot pointing to it.\<close>

lemma slots_live_new:
  assumes "slots_live k L S table ident" "unat t \<notin> dom L" "k_thread k' = (k_thread k)(t := x)"
  shows "slots_live k' (L(unat t \<mapsto> n)) S table ident" "th_id x = ident i \<Longrightarrow> slots_live k' (L(unat t \<mapsto> n)) S (table(i := t)) ident"
  using assms by (auto simp: slots_live_def)

lemma kmalloc_heap:
  assumes "heap_repr (k_heap k) L" "unat sz < pool_lim"
  shows "case kmalloc sz k of
      None \<Rightarrow> \<exists>h. malloc (k_heap k) sz = Some (0, h) \<and> heap_repr h L
    | Some (p, k') \<Rightarrow> p \<noteq> 0 \<and> unat p \<notin> dom L \<and> (\<exists>h n. k' = k\<lparr>k_heap := h\<rparr> \<and> unat sz \<le> n \<and> heap_repr h (L(unat p \<mapsto> n)))"
proof -
  obtain r h where m: "heap_malloc (k_heap k) (unat sz) = Some (r, h)" using kernel.alloc_returns [OF assms] by blast
  then obtain p where p: "malloc (k_heap k) sz = Some (p, h)" "r = (if p = 0 then None else Some (unat p))"
    by (auto simp: heap_malloc_def)
  show ?thesis
  proof (cases "p = 0")
    case True
    then show ?thesis using kernel.alloc_none [OF assms] m p by (simp add: kmalloc_def new_block_def)
  next
    case False
    then show ?thesis using kernel.alloc_some [OF assms, of "unat p" h] m p by (auto simp: kmalloc_def new_block_def)
  qed
qed

section \<open>Property\<close>

text \<open>C13: \<open>get_free_thread\<close> keeps the thread table: when it returns a thread, its block is new, its number is that of the slot it was
  put into, an idle slot if one is free and else the lowest free slot of the table, and the table is again one of live and
  different threads. It returns null, and changes nothing, only when no slot is free; it fails only when the heap is full.\<close>

theorem get_free_thread_keeps_table:
  assumes "thread_table k L"
  shows "case get_free_thread k of
      None \<Rightarrow> \<exists>h. malloc (k_heap k) 80 = Some (0, h)
    | Some (t, k') \<Rightarrow>
        if t = 0 then k' = k \<and> (\<forall>i < unat (k_cpu_count k). k_idle_threads k i \<noteq> 0) \<and> (\<forall>i\<in>{1..<4096}. k_threads k i \<noteq> 0)
        else unat t \<notin> dom L \<and> (\<exists>n \<ge> 80. thread_table k' (L(unat t \<mapsto> n))) \<and>
          ((\<exists>i < unat (k_cpu_count k). k_idle_threads k i = 0 \<and> k_idle_threads k' = (k_idle_threads k)(i := t) \<and> k_threads k' = k_threads k) \<or>
           (\<exists>i\<in>{1..<4096}. k_threads k i = 0 \<and> (\<forall>j\<in>{1..<i}. k_threads k j \<noteq> 0) \<and> k_threads k' = (k_threads k)(i := t) \<and>
              k_idle_threads k' = k_idle_threads k))"
proof -
  let ?r = "for_ret 0 (k_cpu_count k) (\<lambda>i s. if k_idle_threads k (unat i) = 0 then Inl i else Inr s) ()"
  let ?q = "for_ret 1 kMaxThreadCount (\<lambda>i s. if k_threads k (unat i) = 0 then Inl i else Inr s) ()"
  have live: "heap_repr (k_heap k) L" "slots_live k L {1..<4096} (k_threads k) of_nat"
    "slots_live k L {..<unat (k_cpu_count k)} (k_idle_threads k) (\<lambda>_. 0)"
    using assms by (simp_all add: thread_table_def)
  have u80: "unat (80 :: u64) = 80" by simp
  have "80 < pool_lim" by (simp add: pool_lim_def)
  then have A: "case kmalloc 80 k of
      None \<Rightarrow> \<exists>h. malloc (k_heap k) 80 = Some (0, h) \<and> heap_repr h L
    | Some (p, k') \<Rightarrow> p \<noteq> 0 \<and> unat p \<notin> dom L \<and> (\<exists>h n. k' = k\<lparr>k_heap := h\<rparr> \<and> 80 \<le> n \<and> heap_repr h (L(unat p \<mapsto> n)))"
    using kmalloc_heap [OF live(1), of 80, unfolded u80] by simp
  show ?thesis
  proof (cases ?r)
    case (Inl i)
    have i: "unat i < unat (k_cpu_count k)" "k_idle_threads k (unat i) = 0"
      using for_ret_first [of 0 "k_cpu_count k" "\<lambda>i. k_idle_threads k (unat i) = 0" "()"] Inl
        less_trans [OF _ unat_less_2p64 [of "k_cpu_count k"]] by auto
    show ?thesis
    proof (cases "kmalloc 80 k")
      case None
      then show ?thesis using A Inl by (auto simp: get_free_thread_def)
    next
      case (Some pk)
      then obtain t h n where B: "kmalloc 80 k = Some (t, k\<lparr>k_heap := h\<rparr>)" "t \<noteq> 0" "unat t \<notin> dom L" "80 \<le> n"
        "heap_repr h (L(unat t \<mapsto> n))" using A by (auto split: prod.splits)
      let ?k = "upd_thread t (\<lambda>x. x\<lparr>th_id := 0\<rparr>) (k\<lparr>k_heap := h, k_idle_threads := (k_idle_threads k)(unat i := t)\<rparr>)"
      have "get_free_thread k = Some (t, ?k)" using Inl B(1) by (simp add: get_free_thread_def)
      moreover have "thread_table ?k (L(unat t \<mapsto> n))"
        using B(5) slots_live_new(1) [OF live(2) B(3), of ?k] slots_live_new(2) [OF live(3) B(3), where k' = ?k and i = "unat i" and n = n]
        by (simp add: thread_table_def upd_thread_def)
      ultimately show ?thesis using B(2-4) i by (auto simp: upd_thread_def)
    qed
  next
    case (Inr u)
    have idle: "k_idle_threads k j \<noteq> 0" if "j < unat (k_cpu_count k)" for j
      using for_ret_first [of 0 "k_cpu_count k" "\<lambda>i. k_idle_threads k (unat i) = 0" "()"] Inr that
        less_trans [OF that unat_less_2p64] by auto
    show ?thesis
    proof (cases ?q)
      case q: (Inr v)
      have "k_threads k j \<noteq> 0" if "j \<in> {1..<4096}" for j
        using for_ret_first [of 1 kMaxThreadCount "\<lambda>i. k_threads k (unat i) = 0" "()"] q that
        by (auto simp: kMaxThreadCount_def)
      then show ?thesis using Inr q idle by (simp add: get_free_thread_def)
    next
      case q: (Inl i)
      obtain i' where i': "1 \<le> i'" "i' < 4096" "i = of_nat i'" "k_threads k i' = 0" "\<forall>j\<in>{1..<i'}. k_threads k j \<noteq> 0"
        using for_ret_first [of 1 kMaxThreadCount "\<lambda>i. k_threads k (unat i) = 0" "()"] q
        by (auto simp: kMaxThreadCount_def)
      have u: "unat (of_nat i' :: u64) = i'" using i'(2) by simp
      show ?thesis
      proof (cases "kmalloc 80 k")
        case None
        then show ?thesis using A Inr q by (auto simp: get_free_thread_def)
      next
        case (Some pk)
        then obtain t h n where B: "kmalloc 80 k = Some (t, k\<lparr>k_heap := h\<rparr>)" "t \<noteq> 0" "unat t \<notin> dom L" "80 \<le> n"
          "heap_repr h (L(unat t \<mapsto> n))" using A by (auto split: prod.splits)
        let ?k = "upd_thread t (\<lambda>x. x\<lparr>th_id := i\<rparr>) (k\<lparr>k_heap := h, k_threads := (k_threads k)(i' := t)\<rparr>)"
        have "get_free_thread k = Some (t, ?k)" using Inr q B(1) u by (simp add: get_free_thread_def i'(3))
        moreover have "thread_table ?k (L(unat t \<mapsto> n))"
          using B(5) slots_live_new(2) [OF live(2) B(3), where k' = ?k and i = i' and n = n] slots_live_new(1) [OF live(3) B(3), of ?k]
          by (simp add: thread_table_def upd_thread_def i'(3))
        ultimately show ?thesis using B(2-4) i' by (auto simp: upd_thread_def)
      qed
    qed
  qed
qed

theorem get_free_thread_keeps_table_witness:
  "\<exists>h. thread_table (blank_kernel h) Map.empty \<and>
     (case get_free_thread (blank_kernel h) of
        None \<Rightarrow> \<exists>h'. malloc h 80 = Some (0, h')
      | Some (t, k') \<Rightarrow> t \<noteq> 0 \<and> (\<exists>i<2. k_idle_threads k' i = t) \<or> (\<exists>n. thread_table k' [unat t \<mapsto> n]))"
proof -
  obtain h :: kheap where h: "heap_repr h Map.empty" by (rule fresh_heap) blast
  have e: "k_heap (blank_kernel h) = h" "k_cpu_count (blank_kernel h) = 2" "k_idle_threads (blank_kernel h) i = 0"
    "k_threads (blank_kernel h) i = 0" for i by (simp_all add: blank_kernel_def)
  have t: "thread_table (blank_kernel h) Map.empty" using h by (simp add: thread_table_def slots_live_def e)
  show ?thesis
    by (rule exI [of _ h])
      (use get_free_thread_keeps_table [OF t] t in \<open>fastforce simp: e split: option.splits prod.splits if_splits\<close>)
qed

end
