(* ===== verification/Debug.thy ===== *)
theory Debug
  imports Kernel
begin

unbundle bit_operations_syntax

text \<open>
  Kernel messages: \<open>printk\<close> of \<^verbatim>\<open>arch/x86_64/debug.cpp\<close>. A message is formatted into a buffer of 4096 bytes, and then sent over the serial
  line with a carriage return before every newline. Waiting for the line to be ready has no effect of its own.
\<close>

definition serial_write :: "u8 \<Rightarrow> kernel \<Rightarrow> kernel" where
  "serial_write a k = k\<lparr>k_serial := k_serial k @ [a]\<rparr>"

definition lock_debug :: "kernel \<Rightarrow> kernel option" where
  "lock_debug k = map_option (\<lambda>(l, rf). k\<lparr>k_debug_lock := l, k_heap := (k_heap k)\<lparr>kh_rflags := rf\<rparr>\<rparr>)
     (spin_lock (k_debug_lock k, kh_rflags (k_heap k)))"

definition unlock_debug :: "kernel \<Rightarrow> kernel" where
  "unlock_debug k = (let (l, rf) = spin_unlock (k_debug_lock k, kh_rflags (k_heap k))
     in k\<lparr>k_debug_lock := l, k_heap := (k_heap k)\<lparr>kh_rflags := rf\<rparr>\<rparr>)"

definition send_char :: "u8 \<Rightarrow> kernel \<Rightarrow> kernel" where
  "send_char c k = serial_write c (if c = 0x0a then serial_write 0x0d k else k)"

text \<open>The length is a signed \<^verbatim>\<open>int\<close>: nothing is sent when it is negative.\<close>

definition printk :: "char list \<Rightarrow> u64 list \<Rightarrow> kernel \<Rightarrow> (u32 \<times> kernel) option" where
  "printk fmt args k = do {
     k1 \<leftarrow> lock_debug k;
     (len, m) \<leftarrow> vsprintf (k_mem k1) (k_debug_buf k1) fmt args;
     let k2 = fold (\<lambda>i k. send_char (k_mem k (k_debug_buf k + of_nat i)) k) [0..<nat (sint len)] (set_mem m k1);
     Some (len, unlock_debug k2) }"

section \<open>What is sent\<close>

definition on_line :: "u8 list \<Rightarrow> u8 list" where
  "on_line cs = concat (map (\<lambda>c. if c = 0x0a then [0x0d, c] else [c]) cs)"

lemma send_chars:
  "fold (\<lambda>i k. send_char (k_mem k (k_debug_buf k + of_nat i)) k) is k =
     k\<lparr>k_serial := k_serial k @ on_line (map (\<lambda>i. k_mem k (k_debug_buf k + of_nat i)) is)\<rparr>"
  by (induction "is" arbitrary: k) (auto simp: on_line_def send_char_def serial_write_def)

lemma sint_len: "n < 2 ^ 31 \<Longrightarrow> sint (of_nat n :: u32) = int n"
  using signed_of_int [of "int n", where ?'b = 32 and ?'a = int] by (simp add: signed_take_bit_int_eq_self)

lemma text_at_nth: "i < length cs \<Longrightarrow> length cs < 2 ^ 64 \<Longrightarrow> text_at m p cs (p + of_nat i) = cs ! i"
  by (simp add: text_at_def)

text \<open>With the lock free, a message goes to the serial line as it was formatted, and the flags register is as before.\<close>

lemma printk_sends:
  assumes "\<not> bit (sl_lock (k_debug_lock k)) 0" "length cs < 2 ^ 31"
    "vsprintf (k_mem k) (k_debug_buf k) fmt args = Some (of_nat (length cs), text_at (k_mem k) (k_debug_buf k) (cs @ [0]))"
  shows "printk fmt args k = Some (of_nat (length cs),
    (set_mem (text_at (k_mem k) (k_debug_buf k) (cs @ [0])) k)
      \<lparr>k_serial := k_serial k @ on_line cs, k_debug_lock := (k_debug_lock k)\<lparr>sl_rflags := kh_rflags (k_heap k)\<rparr>\<rparr>)"
proof -
  obtain l1 where l: "spin_lock (k_debug_lock k, kh_rflags (k_heap k)) = Some (l1, cli (kh_rflags (k_heap k)))"
    "\<And>rf'. spin_unlock (l1, rf') = ((k_debug_lock k)\<lparr>sl_rflags := kh_rflags (k_heap k)\<rparr>, kh_rflags (k_heap k))"
    using spin_lock_unlock [OF assms(1), of "kh_rflags (k_heap k)"] by (auto simp: spin_unlock_def)
  have "map (\<lambda>i. text_at (k_mem k) (k_debug_buf k) (cs @ [0]) (k_debug_buf k + of_nat i)) [0..<length cs] = cs"
    using assms(2) by (intro nth_equalityI) (simp_all add: text_at_nth nth_append)
  moreover have "(k_heap k)\<lparr>kh_mem := m, kh_rflags := kh_rflags (k_heap k)\<rparr> = (k_heap k)\<lparr>kh_mem := m\<rparr>" for m
    by (cases "k_heap k") simp
  ultimately show ?thesis
    by (simp add: printk_def lock_debug_def unlock_debug_def l assms(3) send_chars sint_len [OF assms(2)] set_mem_def)
qed

lemma plain_prefix:
  "CHR ''%'' \<notin> set pre \<Longrightarrow> vsprintf_loop buf (pre @ fmt) args o0 = vsprintf_loop buf fmt args (emit (map of_char pre) o0)"
  by (induction pre arbitrary: o0) auto

text \<open>A fixed prefix followed by \<^verbatim>\<open>%s\<close>.\<close>

lemma vsprintf_loop_string:
  fixes s buf :: u64
  defines "cs \<equiv> \<lambda>m n. map (\<lambda>j. m (s + of_nat j)) [0 ..< n]"
  assumes "CHR ''%'' \<notin> set pre" "\<forall>j < n. m (s + of_nat j) \<noteq> 0" "m (s + of_nat n) = 0" "length pre + n < 2 ^ 31"
    "\<forall>j \<le> n. \<forall>i < length pre + n. s + of_nat j \<noteq> buf + of_nat i"
  shows "vsprintf_loop buf (pre @ ''%s'' @ fmt) (s # args) (buf, m) =
    vsprintf_loop buf fmt args (emit (map of_char pre @ cs m n) (buf, m))"
proof -
  let ?p = "map of_char pre :: u8 list" and ?b = "buf + of_nat (length pre)"
  let ?m = "text_at m buf ?p"
  have far: "length pre + n \<le> unat (s + of_nat j - buf)" if "j \<le> n" for j
  proof (rule ccontr)
    assume "\<not> length pre + n \<le> unat (s + of_nat j - buf)"
    then have "unat (s + of_nat j - buf) < length pre + n" by simp
    then have "s + of_nat j \<noteq> buf + of_nat (unat (s + of_nat j - buf))" using assms(6) that by blast
    then show False by simp
  qed
  have same: "?m (s + of_nat j) = m (s + of_nat j)" if "j \<le> n" for j
    using far [OF that] by (simp add: text_at_def)
  have "n \<le> unat (s + of_nat j - ?b)" if "j < n" for j
  proof -
    have "length pre \<le> unat (s + of_nat j - buf)" using far [of j] that by simp
    moreover have "unat (of_nat (length pre) :: u64) = length pre" using assms(5) by simp
    ultimately have "unat (s + of_nat j - ?b) = unat (s + of_nat j - buf) - length pre"
      using unat_sub_if_size [of "s + of_nat j - buf" "of_nat (length pre)"] by (simp only: diff_diff_eq if_True)
    then show ?thesis using far [of j] that by simp
  qed
  moreover have "strnlen ?m s (- 1) = of_nat n" by (rule strnlen_unique) (use assms(3,4,5) same in auto)
  ultimately have "put_string 0 (- 1) (- 1) s (?b, ?m) = emit (cs ?m n) (?b, ?m)"
    using assms(5) by (simp add: put_string_plain copy_string_emit cs_def)
  moreover have "cs ?m n = cs m n" using same by (auto simp: cs_def)
  moreover have "emit ?p (buf, m) = (?b, ?m)" using assms(5) by (simp add: emit_text)
  ultimately show ?thesis
    using assms(2) by (simp add: plain_prefix directive_s emit_append)
qed

lemma vsprintf_prefixed:
  fixes s buf :: u64
  assumes "CHR ''%'' \<notin> set pre" "\<forall>j < n. m (s + of_nat j) \<noteq> 0" "m (s + of_nat n) = 0" "length pre + n < 2 ^ 31"
    "\<forall>j \<le> n. \<forall>i < length pre + n. s + of_nat j \<noteq> buf + of_nat i"
  shows "vsprintf m buf (pre @ ''%s'') [s] =
    Some (of_nat (length pre + n), text_at m buf ((map of_char pre @ map (\<lambda>j. m (s + of_nat j)) [0 ..< n]) @ [0]))"
  using vsprintf_text [of buf "pre @ ''%s''" "[s]" m "map of_char pre @ map (\<lambda>j. m (s + of_nat j)) [0 ..< n]"]
    vsprintf_loop_string [OF assms, of "[]" "[]"] assms(4) by simp

end
