(* ===== verification/Syscall.thy ===== *)
theory Syscall
  imports Thread Debug
begin

unbundle bit_operations_syntax

text \<open>
  System calls: the handlers of \<^verbatim>\<open>hel/syscall.cpp\<close> and their dispatcher in \<^verbatim>\<open>arch/x86_64/syscall.cpp\<close>.

  A handler that waits for another thread yields in a loop. It is cut in two at that loop: its result is then \<open>Block\<close> with the
  variables the rest of it needs, and \<open>resume\<close> tests the loop condition and does the rest. \<open>Jump\<close> is the result of a handler
  that switches to another thread and does not come back. Every other handler returns its value.
\<close>

section \<open>Results\<close>

definition k_hel_error_none :: u64 where "k_hel_error_none = 0"
definition k_hel_error_invalid_argument :: u64 where "k_hel_error_invalid_argument = 1"
definition k_hel_error_not_implemented :: u64 where "k_hel_error_not_implemented = 2"
definition k_hel_error_bad_handler :: u64 where "k_hel_error_bad_handler = 3"
definition k_hel_error_not_found :: u64 where "k_hel_error_not_found = 4"
definition k_hel_error_already_connected :: u64 where "k_hel_error_already_connected = 5"

definition DSOCK_ADDR_MAX :: u64 where "DSOCK_ADDR_MAX = 109"
definition DSOCK_BUFF_SIZE :: u64 where "DSOCK_BUFF_SIZE = 4096"
definition DSOCKET_CONN_MAX :: u32 where "DSOCKET_CONN_MAX = 8"

datatype pending =
    Await_connected u64 u64 u64
  | Await_connection u64 u64 u64
  | Await_vfork u64

datatype outcome = Return u64 | Block pending | Jump u64

definition returned :: "(u64 \<times> kernel) \<Rightarrow> outcome \<times> kernel" where
  "returned r = (Return (fst r), snd r)"

text \<open>An allocation whose result is stored without being used, so that it may be null.\<close>

definition kalloc :: "u64 \<Rightarrow> kernel \<Rightarrow> (u64 \<times> kernel) option" where
  "kalloc sz k = map_option (\<lambda>(p, h). (p, k\<lparr>k_heap := h\<rparr>)) (malloc (k_heap k) sz)"

section \<open>Messages and memory\<close>

text \<open>The kind is an \<^verbatim>\<open>int\<close>: \<^verbatim>\<open>info\<close>, \<^verbatim>\<open>debug\<close>, \<^verbatim>\<open>warning\<close>, \<^verbatim>\<open>error\<close> are 1 to 4.\<close>

definition k_hel_debug_impl :: "u32 \<Rightarrow> u64 \<Rightarrow> kernel \<Rightarrow> (u64 \<times> kernel) option" where
  "k_hel_debug_impl kind str_ptr k =
     (if kind \<noteq> 1 \<and> kind \<noteq> 2 \<and> kind \<noteq> 4 \<and> kind \<noteq> 3 then Some (- k_hel_error_invalid_argument, k)
      else map_option (\<lambda>(sz, k1). (scast sz, k1))
        (if kind = 1 then printk ''[info] %s'' [str_ptr] k
         else if kind = 2 then printk ''[debug] %s'' [str_ptr] k
         else if kind = 3 then printk ''[warning] %s'' [str_ptr] k
         else printk ''[error] %s'' [str_ptr] k))"

text \<open>The flags are \<^verbatim>\<open>present | read_write | user\<close>.\<close>

definition k_hel_physmap_impl :: "u64 \<Rightarrow> u64 \<Rightarrow> kernel \<Rightarrow> u64 \<times> kernel" where
  "k_hel_physmap_impl physaddr sz k =
     (let table = from_current (k_cr3 k) True;
          count = (sz + PAGE_SIZE - 1) div PAGE_SIZE;
          (virtaddr, k1) = kframes count k;
          (b, m) = page_table_map_range (k_off k1) table (k_frames k1, k_mem k1) virtaddr physaddr count 7
      in (virtaddr, set_mem m (k1\<lparr>k_frames := b\<rparr>)))"

definition k_hel_physunmap_impl :: "u64 \<Rightarrow> u64 \<Rightarrow> kernel \<Rightarrow> u64 \<times> kernel" where
  "k_hel_physunmap_impl virtaddr sz k =
     (let table = from_current (k_cr3 k) True;
          count = (sz + PAGE_SIZE - 1) div PAGE_SIZE;
          m1 = free_frames (k_frames k) (k_mem k) virtaddr count;
          (b, m2) = page_table_unmap_range (k_off k) table (k_frames k, m1) virtaddr count
      in (k_hel_error_none, set_mem m2 (k\<lparr>k_frames := b\<rparr>)))"

section \<open>Driver sockets\<close>

text \<open>The descriptor behind a handle, or null when there is none or it is not a socket.\<close>

definition fd_lookup :: "u64 \<Rightarrow> kernel \<Rightarrow> u64" where
  "fd_lookup handle_id k =
     (let fi = th_file_info (k_thread k (k_current k)) in
      if fi = 0 then 0
      else
        let fds = fi_fds (k_finfo k fi) in
        if fds = 0 then 0
        else
          let fd = rd64 (k_mem k) (fds + handle_id * 8) in
          if fd = 0 then 0
          else if fd_kind (k_fd k fd) \<noteq> fd_info_type_dsocket then 0
          else fd)"

text \<open>The last socket of the list from \<open>d\<close> on. On a list with a cycle the loop does not end.\<close>

partial_function (option) last_socket :: "kernel \<Rightarrow> u64 \<Rightarrow> u64 option" where
  "last_socket k d = (if sk_next (k_sock k d) \<noteq> 0 then last_socket k (sk_next (k_sock k d)) else Some d)"

declare last_socket.simps [code]

definition append_socket :: "u64 \<Rightarrow> kernel \<Rightarrow> kernel option" where
  "append_socket s k = do {
     d \<leftarrow> last_socket k (k_driver_sockets k);
     Some (upd_sock d (\<lambda>x. x\<lparr>sk_next := s\<rparr>) k) }"

text \<open>A descriptor, its handle and its socket. The fields the code does not assign keep what the memory held.\<close>

definition new_socket :: "u64 \<Rightarrow> kernel \<Rightarrow> (u64 \<times> u64 \<times> u64 \<times> kernel) option" where
  "new_socket flags k = do {
     (file_info, k1) \<leftarrow> kmalloc 16 k;
     let k2 = upd_fd file_info (\<lambda>f. f\<lparr>fd_kind := fd_info_type_dsocket\<rparr>) k1;
     (handle, k3) \<leftarrow> kmalloc 16 k2;
     let k4 = upd_fd file_info (\<lambda>f. f\<lparr>fd_dsock_handle := handle\<rparr>) k3;
     (socket, k5) \<leftarrow> kmalloc 56 k4;
     let k6 = upd_sock socket (\<lambda>s. s\<lparr>sk_flags := flags\<rparr>) (upd_handle handle (\<lambda>h. h\<lparr>hd_socket := socket\<rparr>) k5);
     (bind_addr, k7) \<leftarrow> kalloc DSOCK_ADDR_MAX k6;
     Some (file_info, handle, socket, upd_sock socket (\<lambda>s. s\<lparr>sk_bind_addr := bind_addr\<rparr>) k7) }"

definition k_driver_cskt_impl :: "u64 \<Rightarrow> kernel \<Rightarrow> (u64 \<times> kernel) option" where
  "k_driver_cskt_impl flags k = do {
     (file_info, handle, socket, k1) \<leftarrow> new_socket flags k;
     let k2 = upd_sock socket (\<lambda>s. s\<lparr>sk_pair := 0, sk_state := dsocket_state_disconnected\<rparr>) k1;
     k3 \<leftarrow> append_socket socket k2;
     Some (add_fd_info (k_current k3) file_info k3) }"

text \<open>The address has the byte \<open>logical_address\<close> at offset 0 and the path at offset 1.\<close>

definition path_len :: "mem \<Rightarrow> u64 \<Rightarrow> u64" where
  "path_len m addr = (if m addr \<noteq> 0 then strlen m (addr + 1 + 1) + 1 else strlen m (addr + 1))"

definition k_driver_bind_impl :: "u64 \<Rightarrow> u64 \<Rightarrow> kernel \<Rightarrow> u64 \<times> kernel" where
  "k_driver_bind_impl handle_id addr k =
     (let fd = fd_lookup handle_id k in
      if fd = 0 then (- k_hel_error_bad_handler, k)
      else
        let dsock = hd_socket (k_handle k (fd_dsock_handle (k_fd k fd)));
            len = path_len (k_mem k) addr
        in (0, set_mem (memcpy (k_mem k) (sk_bind_addr (k_sock k dsock)) (addr + 1) len) k))"

text \<open>The search goes on while the comparison is equal. Reading from a null path faults.\<close>

partial_function (option) find_socket :: "kernel \<Rightarrow> u64 \<Rightarrow> u64 \<Rightarrow> u64 \<Rightarrow> u64 option" where
  "find_socket k dpath n d =
     (if d = 0 then Some 0
      else if sk_bind_addr (k_sock k d) = 0 \<and> n \<noteq> 0 then None
      else if memcmp (k_mem k) (sk_bind_addr (k_sock k d)) dpath n = 0 then find_socket k dpath n (sk_next (k_sock k d))
      else Some d)"

declare find_socket.simps [code]

definition new_pair :: "kernel \<Rightarrow> (u64 \<times> kernel) option" where
  "new_pair k = do {
     (pair, k1) \<leftarrow> kmalloc 56 k;
     Some (pair, upd_pair pair (\<lambda>_. blank_pair\<lparr>pr_client_fds := 1, pr_connected := False\<rparr>) k1) }"

definition k_driver_connect_impl :: "u64 \<Rightarrow> u64 \<Rightarrow> kernel \<Rightarrow> (outcome \<times> kernel) option" where
  "k_driver_connect_impl handle_id addr k =
     (let fd = fd_lookup handle_id k in
      if fd = 0 then Some (Return (- k_hel_error_bad_handler), k)
      else
        let handle = fd_dsock_handle (k_fd k fd);
            dsock = hd_socket (k_handle k handle)
        in if sk_pair (k_sock k dsock) \<noteq> 0 then Some (Return (- k_hel_error_already_connected), k)
        else do {
          d \<leftarrow> find_socket k (addr + 1) (path_len (k_mem k) addr) (k_driver_sockets k);
          if d = 0 \<or> sk_state (k_sock k d) \<noteq> dsocket_state_listening then Some (Return (- k_hel_error_not_found), k)
          else do {
            (pair, k1) \<leftarrow> new_pair k;
            let backlog = sk_backlog (k_sock k1 d);
            let conn = sk_conn_curr (k_sock k1 d);
            if backlog = 0 then None
            else
              let k2 = upd_sock d (\<lambda>s. s\<lparr>sk_conn_curr := conn + 1\<rparr>) k1;
                  k3 = set_mem (wr64 (k_mem k2) (backlog + scast conn * 8) pair) k2;
                  k4 = upd_sock dsock (\<lambda>s. s\<lparr>sk_pair := pair\<rparr>) k3
              in Some (Block (Await_connected handle dsock pair), k4) } })"

definition connect_finish :: "u64 \<Rightarrow> u64 \<Rightarrow> kernel \<Rightarrow> kernel" where
  "connect_finish handle dsock k =
     upd_handle handle (\<lambda>h. h\<lparr>hd_op := k_normal_ops k\<rparr>) (upd_sock dsock (\<lambda>s. s\<lparr>sk_state := dsocket_state_connected\<rparr>) k)"

text \<open>The part of \<open>accept\<close> after the backlog was found not to be empty.\<close>

definition fill_pair :: "u64 \<Rightarrow> kernel \<Rightarrow> kernel option" where
  "fill_pair pair k = do {
     let k1 = upd_pair pair (\<lambda>p. p\<lparr>pr_server_fds := pr_server_fds p + 1\<rparr>) k;
     (pt, k2) \<leftarrow> kalloc DSOCK_ADDR_MAX k1;
     let k3 = upd_pair pair (\<lambda>p. p\<lparr>pr_path := pt\<rparr>) k2;
     (sbuf, k4) \<leftarrow> kalloc DSOCK_BUFF_SIZE k3;
     let k5 = upd_pair pair (\<lambda>p. p\<lparr>pr_server_buffer := sbuf, pr_server_buffer_pos := 0\<rparr>) k4;
     (cbuf, k6) \<leftarrow> kalloc DSOCK_BUFF_SIZE k5;
     Some (upd_pair pair (\<lambda>p. p\<lparr>pr_client_buffer := cbuf, pr_client_buffer_pos := 0, pr_connected := True\<rparr>) k6) }"

definition shift_backlog :: "u64 \<Rightarrow> kernel \<Rightarrow> kernel" where
  "shift_backlog dsock k =
     (let backlog = sk_backlog (k_sock k dsock);
          m1 = wr64 (k_mem k) backlog 0;
          m2 = memmove m1 backlog (backlog + 8) (scast (sk_conn_max (k_sock k dsock) - 1) * 8)
      in upd_sock dsock (\<lambda>s. s\<lparr>sk_conn_max := sk_conn_max s - 1, sk_state := dsocket_state_disconnected\<rparr>) (set_mem m2 k))"

definition accept_finish :: "u64 \<Rightarrow> u64 \<Rightarrow> u64 \<Rightarrow> kernel \<Rightarrow> (u64 \<times> kernel) option" where
  "accept_finish dsock flags t k =
     (let backlog = sk_backlog (k_sock k dsock);
          pair = rd64 (k_mem k) backlog
      in if backlog = 0 \<or> pair = 0 then None
      else do {
        k1 \<leftarrow> fill_pair pair k;
        let k2 = shift_backlog dsock k1;
        (file_info, handle, socket, k3) \<leftarrow> new_socket flags k2;
        let k4 = upd_sock socket (\<lambda>s. s\<lparr>sk_pair := pair, sk_state := dsocket_state_connected\<rparr>) k3;
        let k5 = upd_handle handle (\<lambda>h. h\<lparr>hd_op := k_accept_ops k4\<rparr>) k4;
        k6 \<leftarrow> append_socket socket k5;
        Some (add_fd_info t file_info k6) })"

text \<open>\<open>accept\<close> waits for the backlog not to be empty.\<close>

definition accept_wait :: "u64 \<Rightarrow> u64 \<Rightarrow> u64 \<Rightarrow> kernel \<Rightarrow> (outcome \<times> kernel) option" where
  "accept_wait dsock flags t k =
     (if sk_conn_curr (k_sock k dsock) = 0 then Some (Block (Await_connection dsock flags t), k)
      else map_option returned (accept_finish dsock flags t k))"

definition k_driver_accept_impl :: "u64 \<Rightarrow> u64 \<Rightarrow> kernel \<Rightarrow> (outcome \<times> kernel) option" where
  "k_driver_accept_impl handle_id flags k =
     (let fd = fd_lookup handle_id k in
      if fd = 0 then Some (Return (- k_hel_error_bad_handler), k)
      else accept_wait (hd_socket (k_handle k (fd_dsock_handle (k_fd k fd)))) flags (k_current k) k)"

definition k_driver_listen_impl :: "u64 \<Rightarrow> kernel \<Rightarrow> (u64 \<times> kernel) option" where
  "k_driver_listen_impl handle_id k =
     (let fd = fd_lookup handle_id k in
      if fd = 0 then Some (- k_hel_error_bad_handler, k)
      else
        let dsock = hd_socket (k_handle k (fd_dsock_handle (k_fd k fd)))
        in do {
          (backlog, k1) \<leftarrow> kalloc (8 * 8)
            (upd_sock dsock (\<lambda>s. s\<lparr>sk_state := dsocket_state_listening, sk_conn_curr := 0, sk_conn_max := DSOCKET_CONN_MAX\<rparr>) k);
          Some (0, upd_sock dsock (\<lambda>s. s\<lparr>sk_backlog := backlog\<rparr>) k1) })"

text \<open>The operations of a handle that is not connected are whatever its memory held: calling them is not defined.\<close>

definition k_driver_send_impl :: "u64 \<Rightarrow> u64 \<Rightarrow> u64 \<Rightarrow> kernel \<Rightarrow> (u64 \<times> kernel) option" where
  "k_driver_send_impl handle_id inp limit k =
     (let fd = fd_lookup handle_id k in
      if fd = 0 then Some (- k_hel_error_bad_handler, k)
      else
        let handle = k_handle k (fd_dsock_handle (k_fd k fd)) in
        if hd_op handle = k_normal_ops k then Some (dsocket_send (hd_socket handle) inp limit k)
        else if hd_op handle = k_accept_ops k then Some (dsocket_accept_send (hd_socket handle) inp limit k)
        else None)"

definition k_driver_recv_impl :: "u64 \<Rightarrow> u64 \<Rightarrow> u64 \<Rightarrow> kernel \<Rightarrow> (u64 \<times> kernel) option" where
  "k_driver_recv_impl handle_id out limit k =
     (let fd = fd_lookup handle_id k in
      if fd = 0 then Some (- k_hel_error_bad_handler, k)
      else
        let handle = k_handle k (fd_dsock_handle (k_fd k fd)) in
        if hd_op handle = k_normal_ops k then Some (dsocket_recv (hd_socket handle) out limit k)
        else if hd_op handle = k_accept_ops k then Some (dsocket_accept_recv (hd_socket handle) out limit k)
        else None)"

section \<open>Cloning and leaving\<close>

definition CLONE_FILES :: u64 where "CLONE_FILES = 0x400"
definition CLONE_VFORK :: u64 where "CLONE_VFORK = 0x4000"
definition CLONE_SETTLS :: u64 where "CLONE_SETTLS = 0x80000"
definition CLONE_PARENT_SETTID :: u64 where "CLONE_PARENT_SETTID = 0x100000"
definition CLONE_CHILD_SETTID :: u64 where "CLONE_CHILD_SETTID = 0x1000000"

text \<open>Copies of the descriptors of the table \<open>from\<close>, in the table \<open>to\<close>.\<close>

fun copy_fds :: "u64 \<Rightarrow> u64 \<Rightarrow> nat list \<Rightarrow> kernel \<Rightarrow> kernel option" where
  "copy_fds from to [] k = Some k"
| "copy_fds from to (i # is) k =
     (let fd = rd64 (k_mem k) (from + of_nat i * 8) in
      if fd \<noteq> 0 then do {
        (p, k1) \<leftarrow> kmalloc 16 k;
        let k2 = set_mem (wr64 (k_mem k1) (to + of_nat i * 8) p) k1;
        copy_fds from to is (upd_fd p (\<lambda>_. k_fd k2 fd) k2) }
      else copy_fds from to is (set_mem (wr64 (k_mem k) (to + of_nat i * 8) 0) k))"

definition clone_files :: "u64 \<Rightarrow> u64 \<Rightarrow> kernel \<Rightarrow> kernel option" where
  "clone_files t flags k =
     (let cur = k_current k; fi = th_file_info (k_thread k cur) in
      if flags AND CLONE_FILES \<noteq> 0 then
        if fi = 0 then None
        else Some (upd_finfo fi (\<lambda>f. f\<lparr>fi_ref_count := fi_ref_count f + 1\<rparr>) (upd_thread t (\<lambda>x. x\<lparr>th_file_info := fi\<rparr>) k))
      else do {
        (fi', k1) \<leftarrow> kmalloc 16 k;
        let k2 = upd_thread t (\<lambda>x. x\<lparr>th_file_info := fi'\<rparr>) k1;
        let to = fi_fds (k_finfo k2 fi');
        if to = 0 \<or> fi = 0 then None
        else copy_fds (fi_fds (k_finfo k2 fi)) to [0..<unat (fd_slots (k_finfo k2 fi))]
               (set_mem (memset (k_mem k2) to 0 8) k2) })"

text \<open>The memory context of the child.\<close>

definition clone_mm :: "u64 \<Rightarrow> u64 \<Rightarrow> kernel \<Rightarrow> kernel option" where
  "clone_mm t flags k =
     map_option (\<lambda>(mm, b, h). upd_thread t (\<lambda>x. x\<lparr>th_mm := mm\<rparr>) (k\<lparr>k_frames := b, k_heap := h\<rparr>))
       (clone_page_table (k_off k) (k_frames k, k_heap k) (th_mm (k_thread k (k_current k))) flags)"

text \<open>Thread identifiers are stored as \<^verbatim>\<open>int\<close>s.\<close>

definition set_tid :: "bool \<Rightarrow> u64 \<Rightarrow> u64 \<Rightarrow> kernel \<Rightarrow> kernel option" where
  "set_tid wanted p t k =
     (if \<not> wanted then Some k
      else if p = 0 then None
      else Some (set_mem (wr32 (k_mem k) p (ucast (th_id (k_thread k t)))) k))"

text \<open>The registers of the child are those of the caller, whose frame becomes its saved context.\<close>

definition clone_context :: "u64 \<Rightarrow> u64 \<Rightarrow> kernel \<Rightarrow> kernel" where
  "clone_context regs t k =
     (let cur = k_current k;
          k1 = upd_ctx (th_arch_context (k_thread k cur)) (\<lambda>c. c\<lparr>cx_context := regs\<rparr>) k;
          k2 = upd_thread t (\<lambda>x. x\<lparr>th_call_in_signal := th_call_in_signal (k_thread k1 cur)\<rparr>) k1
      in context_copy (th_arch_context (k_thread k2 t)) (th_arch_context (k_thread k2 cur)) k2)"

definition clone_sp :: "u64 \<Rightarrow> u64 \<Rightarrow> kernel \<Rightarrow> kernel" where
  "clone_sp newsp t k =
     (if newsp \<noteq> 0 then upd_regs (cx_context (k_ctx k (th_arch_context (k_thread k t)))) (\<lambda>r. r\<lparr>rg_rsp := newsp\<rparr>) k else k)"

definition clone_tls :: "u64 \<Rightarrow> u64 \<Rightarrow> u64 \<Rightarrow> kernel \<Rightarrow> kernel" where
  "clone_tls flags tls t k =
     (if flags AND CLONE_SETTLS \<noteq> 0 then upd_ctx (th_arch_context (k_thread k t)) (\<lambda>c. c\<lparr>cx_fsbase := tls\<rparr>) k else k)"

definition clone_vfork :: "u64 \<Rightarrow> u64 \<Rightarrow> kernel \<Rightarrow> outcome \<times> kernel" where
  "clone_vfork flags t k =
     (let k1 = upd_thread t (\<lambda>x. x\<lparr>th_child_vfork_done := False, th_is_vfork := (flags AND CLONE_VFORK \<noteq> 0)\<rparr>) k in
      if flags AND CLONE_VFORK \<noteq> 0 then
        (Block (Await_vfork t), upd_thread (k_current k1) (\<lambda>x. x\<lparr>th_child_vfork_done := False\<rparr>) k1)
      else (Return (th_id (k_thread k1 t)), k1))"

definition k_clone_impl :: "u64 \<Rightarrow> u64 \<Rightarrow> u64 \<Rightarrow> u64 \<Rightarrow> u64 \<Rightarrow> u64 \<Rightarrow> kernel \<Rightarrow> (outcome \<times> kernel) option" where
  "k_clone_impl regs flags newsp parent_tid child_tid tls k = do {
     (t, k1) \<leftarrow> create 0 (th_tflags (k_thread k (k_current k))) k;
     k2 \<leftarrow> clone_mm t flags (clone_context regs t k1);
     let k3 = clone_sp newsp t k2;
     let k4 = upd_thread t (\<lambda>x. x\<lparr>th_jiffies := th_jiffies (k_thread k3 (k_current k3))\<rparr>) k3;
     k5 \<leftarrow> clone_files t flags k4;
     let k6 = clone_tls flags tls t k5;
     k7 \<leftarrow> set_tid (flags AND CLONE_PARENT_SETTID \<noteq> 0) parent_tid (k_current k6) k6;
     k8 \<leftarrow> set_tid (flags AND CLONE_CHILD_SETTID \<noteq> 0) child_tid t k7;
     Some (clone_vfork flags t k8) }"

fun free_fds :: "u64 \<Rightarrow> nat list \<Rightarrow> kernel \<Rightarrow> kernel option" where
  "free_fds fds [] k = Some k"
| "free_fds fds (i # is) k =
     (let fd = rd64 (k_mem k) (fds + of_nat i * 8) in
      if fd \<noteq> 0 then do { k1 \<leftarrow> kfree fd k; free_fds fds is k1 } else free_fds fds is k)"

text \<open>The memory context has its reference count at offset 8.\<close>

definition release_mm :: "u64 \<Rightarrow> kernel \<Rightarrow> kernel option" where
  "release_mm mm k =
     (if mm = 0 then None
      else
        let k1 = set_mem (wr64 (k_mem k) (mm + 8) (rd64 (k_mem k) (mm + 8) - 1)) k in
        if rd64 (k_mem k1) (mm + 8) = 0 then
          let (b, m) = free_page_table (k_off k1) (k_frames k1, k_mem k1) mm in Some (set_mem m (k1\<lparr>k_frames := b\<rparr>))
        else Some k1)"

definition k_exit_impl :: "u64 \<Rightarrow> kernel \<Rightarrow> (outcome \<times> kernel) option" where
  "k_exit_impl exit_code k = do {
     let t = k_current k;
     let ctx = th_arch_context (k_thread k t);
     let k1 = set_mem (free_frames (k_frames k) (k_mem k) (virt_to_phys (k_off k) (cx_context (k_ctx k ctx) + 192))
            (kThreadStackSize div PAGE_SIZE)) k;
     k2 \<leftarrow> arch_context_free ctx k1;
     k3 \<leftarrow> release_mm (th_mm (k_thread k2 t)) k2;
     let fi = th_file_info (k_thread k3 t);
     if fi = 0 then None
     else do {
       let fds = fi_fds (k_finfo k3 fi);
       k4 \<leftarrow> free_fds fds [0..<unat (fd_slots (k_finfo k3 fi))] k3;
       k5 \<leftarrow> kfree fds k4;
       k6 \<leftarrow> kfree fi k5;
       let k7 = upd_thread t (\<lambda>x. x\<lparr>th_status := exit_code, th_state := kRunTerminated\<rparr>) k6;
       (next, k8) \<leftarrow> search kRunNone (ucast (k_cpu k7)) k7;
       if next = 0 then None
       else let (frame, k9) = thread_switch_to 0 0 (th_arch_context (k_thread k8 next)) k8 in Some (Jump frame, k9) } }"

section \<open>Dispatch\<close>

text \<open>The system call numbers start at \<open>k_hel_base\<close>.\<close>

definition k_hel_base :: u64 where "k_hel_base = 0x80000000"

definition switch_to_kernel_stack :: "kernel \<Rightarrow> u64" where
  "switch_to_kernel_stack k =
     (let t = k_thread k (k_current k)
      in if th_call_in_signal t then th_syscall_stack t - kThreadStackSize div 2 else th_syscall_stack t)"

definition call_handler :: "pt_regs \<Rightarrow> u64 \<Rightarrow> kernel \<Rightarrow> (outcome \<times> kernel) option" where
  "call_handler r regs k =
     (let n = rg_rax r in
      if n = k_hel_base + 1 then map_option returned (k_hel_debug_impl (ucast (rg_rdi r)) (rg_rsi r) k)
      else if n = k_hel_base + 2 then Some (returned (k_hel_physmap_impl (rg_rdi r) (rg_rsi r) k))
      else if n = k_hel_base + 3 then Some (returned (k_hel_physunmap_impl (rg_rdi r) (rg_rsi r) k))
      else if n = k_hel_base + 10 then map_option returned (k_driver_cskt_impl (rg_rdi r) k)
      else if n = k_hel_base + 12 then k_driver_connect_impl (rg_rdi r) (rg_rsi r) k
      else if n = k_hel_base + 14 then map_option returned (k_driver_listen_impl (rg_rdi r) k)
      else if n = k_hel_base + 13 then k_driver_accept_impl (rg_rdi r) (rg_r10 r) k
      else if n = k_hel_base + 15 then map_option returned (k_driver_send_impl (rg_rdi r) (rg_rsi r) (rg_rdx r) k)
      else if n = k_hel_base + 16 then map_option returned (k_driver_recv_impl (rg_rdi r) (rg_rsi r) (rg_rdx r) k)
      else if n = k_hel_base + 20 then Some (Return (th_id (k_thread k (k_current k))), k)
      else if n = k_hel_base + 21 then k_clone_impl regs (rg_rdi r) (rg_rsi r) (rg_rdx r) (rg_r10 r) (rg_r8 r) k
      else if n = k_hel_base + 22 then k_exit_impl (rg_rdi r) k
      else Some (Return (- k_hel_error_not_implemented), k))"

text \<open>The value a handler returns goes into \<^verbatim>\<open>rax\<close> of the frame.\<close>

definition store_result :: "u64 \<Rightarrow> outcome \<times> kernel \<Rightarrow> outcome \<times> kernel" where
  "store_result regs r = (case r of (Return v, k) \<Rightarrow> (Return v, upd_regs regs (\<lambda>r. r\<lparr>rg_rax := v\<rparr>) k) | _ \<Rightarrow> r)"

definition enter_frame :: "u64 \<Rightarrow> pt_regs \<Rightarrow> pt_regs" where
  "enter_frame user_regs r = r\<lparr>rg_rip := rg_rcx r, rg_rflags := rg_r11 r, rg_cs := 0x23, rg_ss := 0x1B, rg_ds := 0x1B,
     rg_es := 0x1B, rg_rsp := user_regs + 192\<rparr>"

definition syscall_handler :: "u64 \<Rightarrow> u64 \<Rightarrow> kernel \<Rightarrow> (outcome \<times> kernel) option" where
  "syscall_handler regs user_regs k =
     (let k1 = upd_regs regs (enter_frame user_regs) k
      in map_option (store_result regs) (call_handler (k_regs k1 regs) regs k1))"

text \<open>What a waiting handler does when its thread runs again.\<close>

definition resume :: "pending \<Rightarrow> kernel \<Rightarrow> (outcome \<times> kernel) option" where
  "resume p k =
     (case p of
        Await_connected handle dsock pair \<Rightarrow>
          if pr_connected (k_pair k pair) then Some (Return 0, connect_finish handle dsock k) else Some (Block p, k)
      | Await_connection dsock flags t \<Rightarrow> accept_wait dsock flags t k
      | Await_vfork t \<Rightarrow>
          if th_child_vfork_done (k_thread k (k_current k)) then
            (let k1 = upd_thread (k_current k) (\<lambda>x. x\<lparr>th_child_vfork_done := False\<rparr>) k
             in Some (Return (th_id (k_thread k1 t)), k1))
          else Some (Block p, k))"

end
