(* ===== verification/KernelRun.thy ===== *)
theory KernelRun
  imports Syscall MapRange
begin

unbundle bit_operations_syntax

text \<open>
  The kernel as a machine, and what its system calls do.

  An event is a system call, the resumption of a waiting one, a timer interrupt, or a change of the thread the processor runs
  (which is what other processors and the return to user code amount to here). A run is any sequence of events that does not
  fault. \<open>quiet\<close> is the invariant behind the property of \<^verbatim>\<open>vfork\<close>: no operation sets the flag \<open>th_child_vfork_done\<close> of
  any thread; there is one lemma per group of operations.
\<close>

section \<open>Events\<close>

datatype event = Enter u64 u64 | Wake pending | Tick u64 | Run_as u64 u64

definition kernel_step :: "event \<Rightarrow> kernel \<Rightarrow> kernel option" where
  "kernel_step e k =
     (case e of
        Enter regs user_regs \<Rightarrow> map_option snd (syscall_handler regs user_regs k)
      | Wake p \<Rightarrow> map_option snd (resume p k)
      | Tick regs \<Rightarrow> map_option snd (do_lapic_timer regs k)
      | Run_as t cpu \<Rightarrow> Some (k\<lparr>k_current := t, k_cpu := cpu\<rparr>))"

primrec kernel_run :: "event list \<Rightarrow> kernel \<Rightarrow> kernel option" where
  "kernel_run [] k = Some k"
| "kernel_run (e # es) k = do { k1 \<leftarrow> kernel_step e k; kernel_run es k1 }"

definition quiet :: "kernel \<Rightarrow> kernel \<Rightarrow> bool" where
  "quiet k k' \<longleftrightarrow> (\<forall>t. th_child_vfork_done (k_thread k' t) \<longrightarrow> th_child_vfork_done (k_thread k t))"

lemma quiet_refl [intro]: "quiet k k"
  by (simp add: quiet_def)

lemma quiet_trans [trans]: "quiet k k1 \<Longrightarrow> quiet k1 k2 \<Longrightarrow> quiet k k2"
  by (auto simp: quiet_def)

lemma quiet_thread:
  "quiet k k1 \<Longrightarrow> (\<And>x. th_child_vfork_done (f x) \<Longrightarrow> th_child_vfork_done x) \<Longrightarrow> quiet k (upd_thread t f k1)"
  by (auto simp: quiet_def upd_thread_def)

lemma threads_same:
  "k_thread (set_mem m k) = k_thread k" "k_thread (upd_ctx p f1 k) = k_thread k" "k_thread (upd_regs p f2 k) = k_thread k"
  "k_thread (upd_finfo p f3 k) = k_thread k" "k_thread (upd_fd p f4 k) = k_thread k" "k_thread (upd_handle p f5 k) = k_thread k"
  "k_thread (upd_sock p f6 k) = k_thread k" "k_thread (upd_pair p f7 k) = k_thread k"
  by (simp_all add: set_mem_def upd_ctx_def upd_regs_def upd_finfo_def upd_fd_def upd_handle_def upd_sock_def upd_pair_def)

lemma quiet_upd:
  "quiet k (set_mem m k1) = quiet k k1" "quiet k (upd_ctx p f1 k1) = quiet k k1" "quiet k (upd_regs p f2 k1) = quiet k k1"
  "quiet k (upd_finfo p f3 k1) = quiet k k1" "quiet k (upd_fd p f4 k1) = quiet k k1" "quiet k (upd_handle p f5 k1) = quiet k k1"
  "quiet k (upd_sock p f6 k1) = quiet k k1" "quiet k (upd_pair p f7 k1) = quiet k k1"
  by (simp_all add: quiet_def threads_same)

lemma quiet_fields:
  "quiet k (k1\<lparr>k_heap := h\<rparr>) = quiet k k1" "quiet k (k1\<lparr>k_frames := b\<rparr>) = quiet k k1" "quiet k (k1\<lparr>k_threads := g\<rparr>) = quiet k k1"
  "quiet k (k1\<lparr>k_idle_threads := g\<rparr>) = quiet k k1" "quiet k (k1\<lparr>k_cpu_idx := c\<rparr>) = quiet k k1" "quiet k (k1\<lparr>k_cr3 := a\<rparr>) = quiet k k1"
  "quiet k (k1\<lparr>k_new_thread_lock := l\<rparr>) = quiet k k1" "quiet k (k1\<lparr>k_search_lock := l\<rparr>) = quiet k k1"
  "quiet k (k1\<lparr>k_debug_lock := l\<rparr>) = quiet k k1" "quiet k (k1\<lparr>k_serial := s\<rparr>) = quiet k k1" "quiet k (k1\<lparr>k_current := a\<rparr>) = quiet k k1"
  "quiet k (k1\<lparr>k_cpu := a\<rparr>) = quiet k k1"
  by (simp_all add: quiet_def)

lemmas quiet_simps = quiet_upd quiet_fields

lemma quiet_alloc:
  "kmalloc sz k1 = Some (p, k2) \<Longrightarrow> quiet k k1 \<Longrightarrow> quiet k k2" "kalloc sz k1 = Some (p, k2) \<Longrightarrow> quiet k k1 \<Longrightarrow> quiet k k2"
  "kfree q k1 = Some k2 \<Longrightarrow> quiet k k1 \<Longrightarrow> quiet k k2" "kframes n k1 = (a, k2) \<Longrightarrow> quiet k k1 \<Longrightarrow> quiet k k2"
  by (auto simp: kmalloc_def kalloc_def kfree_def kframes_def quiet_simps split: prod.splits)

lemma quiet_locks:
  "lock_threads k1 = Some k2 \<Longrightarrow> quiet k k1 \<Longrightarrow> quiet k k2" "quiet k (unlock_threads k1) = quiet k k1"
  "lock_search k1 = Some k2 \<Longrightarrow> quiet k k1 \<Longrightarrow> quiet k k2" "quiet k (unlock_search k1) = quiet k k1"
  "lock_debug k1 = Some k2 \<Longrightarrow> quiet k k1 \<Longrightarrow> quiet k k2" "quiet k (unlock_debug k1) = quiet k k1"
  by (auto simp: lock_threads_def unlock_threads_def lock_search_def unlock_search_def lock_debug_def unlock_debug_def
      quiet_simps split: prod.splits)

lemma quiet_context:
  "arch_context_init e s k1 = Some (c, k2) \<Longrightarrow> quiet k k1 \<Longrightarrow> quiet k k2"
  "arch_context_free c k1 = Some k2 \<Longrightarrow> quiet k k1 \<Longrightarrow> quiet k k2"
  "quiet k (context_copy a b k1) = quiet k k1"
  by (auto simp: arch_context_init_def arch_context_free_def context_copy_def bind_eq_Some_conv Let_def quiet_simps
      elim!: quiet_alloc split: if_splits)

lemma quiet_create:
  "get_free_thread k1 = Some (t, k2) \<Longrightarrow> quiet k k1 \<Longrightarrow> quiet k k2"
  "create_mm t k1 = Some k2 \<Longrightarrow> quiet k k1 \<Longrightarrow> quiet k k2"
  "create_files t k1 = Some k2 \<Longrightarrow> quiet k k1 \<Longrightarrow> quiet k k2"
  by (auto simp: get_free_thread_def create_mm_def create_files_def bind_eq_Some_conv Let_def quiet_simps
      elim!: quiet_alloc intro!: quiet_thread split: sum.splits if_splits)


lemma quiet_create_thread:
  assumes "create e f k1 = Some (t, k2)" "quiet k k1"
  shows "quiet k k2"
proof -
  let ?n = "kThreadStackSize div PAGE_SIZE"
  let ?A = "\<lambda>ka. kframes ?n (upd_thread t (\<lambda>x. x\<lparr>th_call_in_signal := False, th_cpu_id := fst (alloc_cpu_id ka),
       th_jiffies := 0\<rparr>) (snd (alloc_cpu_id ka)))"
  let ?B = "\<lambda>ctx kb. kframes ?n (upd_thread t (\<lambda>x. x\<lparr>th_arch_context := ctx\<rparr>) kb)"
  obtain y ka ctx kb kc kd where C: "lock_threads k1 = Some y" "get_free_thread y = Some (t, ka)"
    "arch_context_init e (phys_to_virt (k_off (snd (?A ka))) (fst (?A ka))) (snd (?A ka)) = Some (ctx, kb)"
    "create_mm t (upd_thread t (\<lambda>x. x\<lparr>th_syscall_stack := phys_to_virt (k_off (snd (?B ctx kb))) (fst (?B ctx kb))\<rparr>)
       (snd (?B ctx kb))) = Some kc"
    "create_files t (upd_thread t (\<lambda>x. x\<lparr>th_tflags := f, th_status := 0\<rparr>) kc) = Some kd"
    "k2 = unlock_threads (upd_thread t (\<lambda>x. x\<lparr>th_child_vfork_done := False, th_is_vfork := False, th_state := kRunNone\<rparr>) kd)"
    using assms(1) by (simp add: create_def bind_eq_Some_conv Let_def split_beta split: if_splits) (elim exE conjE, simp, elim exE conjE, blast)
  note C(1) [THEN quiet_locks(1), OF assms(2)]
  note C(2) [THEN quiet_create(1), OF this]
  then have "quiet k (snd (?A ka))"
    by (intro quiet_alloc(4) [OF surjective_pairing] quiet_thread) (simp_all add: alloc_cpu_id_def quiet_simps)
  note C(3) [THEN quiet_context(1), OF this]
  then have "quiet k (snd (?B ctx kb))" by (intro quiet_alloc(4) [OF surjective_pairing] quiet_thread) simp_all
  then have "quiet k (upd_thread t (\<lambda>x. x\<lparr>th_syscall_stack := phys_to_virt (k_off (snd (?B ctx kb))) (fst (?B ctx kb))\<rparr>)
       (snd (?B ctx kb)))" by (rule quiet_thread) simp
  note C(4) [THEN quiet_create(2), OF this]
  then have "quiet k (upd_thread t (\<lambda>x. x\<lparr>th_tflags := f, th_status := 0\<rparr>) kc)" by (rule quiet_thread) simp
  note C(5) [THEN quiet_create(3), OF this]
  then show ?thesis unfolding C(6) quiet_locks(2) by (rule quiet_thread) simp
qed

lemma quiet_switch:
  "quiet k (snd (thread_switch_to r p n k1)) = quiet k k1" "quiet k k1 \<Longrightarrow> quiet k (snd (switch_to r a b k1))"
  by (auto simp: quiet_def thread_switch_to_frame switch_to_frame)

lemma quiet_search: "search st cpu k1 = Some (t, k2) \<Longrightarrow> quiet k k1 \<Longrightarrow> quiet k k2"
  by (auto dest!: search_chosen(2) simp: quiet_simps)

lemma quiet_timer:
  assumes "do_lapic_timer r k1 = Some (f, k2)" "quiet k k1"
  shows "quiet k k2"
proof -
  obtain nx ka where s: "search kRunNone (ucast (k_cpu k1)) k1 = Some (nx, ka)" "k2 = ka \<or> k2 = snd (switch_to r (k_current ka) nx ka)"
    using assms(1) by (auto simp: do_lapic_timer_def bind_eq_Some_conv split: if_splits dest: sym [of "switch_to _ _ _ _"])
  with quiet_search [OF s(1) assms(2)] quiet_switch(2) show ?thesis by blast
qed

lemma quiet_printk: "printk fmt args k1 = Some (n, k2) \<Longrightarrow> quiet k k1 \<Longrightarrow> quiet k k2"
  by (auto simp: printk_def bind_eq_Some_conv Let_def quiet_locks send_chars quiet_simps elim!: quiet_locks(5))

lemma quiet_maps: "quiet k k1 \<Longrightarrow> quiet k (snd (k_hel_physmap_impl a sz k1))" "quiet k k1 \<Longrightarrow> quiet k (snd (k_hel_physunmap_impl a sz k1))"
  by (auto simp: k_hel_physmap_impl_def k_hel_physunmap_impl_def Let_def quiet_simps split: prod.splits intro: quiet_alloc(4))

lemma quiet_sockets:
  "quiet k k1 \<Longrightarrow> quiet k (snd (add_fd_info t f k1))"
  "append_socket s k1 = Some k2 \<Longrightarrow> quiet k k1 \<Longrightarrow> quiet k k2"
  "new_socket fl k1 = Some (fi, h, so, k2) \<Longrightarrow> quiet k k1 \<Longrightarrow> quiet k k2"
  "new_pair k1 = Some (pr, k2) \<Longrightarrow> quiet k k1 \<Longrightarrow> quiet k k2"
  "fill_pair pr k1 = Some k2 \<Longrightarrow> quiet k k1 \<Longrightarrow> quiet k k2"
  "quiet k (shift_backlog so k1) = quiet k k1"
  by (auto simp: add_fd_info_def append_socket_def new_socket_def new_pair_def fill_pair_def shift_backlog_def bind_eq_Some_conv
      Let_def quiet_simps elim!: quiet_alloc split: sum.splits if_splits)

lemma quiet_add_fd: "add_fd_info t f k1 = (v, k2) \<Longrightarrow> quiet k k1 \<Longrightarrow> quiet k k2"
  using quiet_sockets(1) by (metis snd_conv)

lemma quiet_transfer:
  "quiet k k1 \<Longrightarrow> quiet k (snd (dsocket_send so a n k1))" "quiet k k1 \<Longrightarrow> quiet k (snd (dsocket_accept_send so a n k1))"
  "quiet k k1 \<Longrightarrow> quiet k (snd (dsocket_recv so a n k1))" "quiet k k1 \<Longrightarrow> quiet k (snd (dsocket_accept_recv so a n k1))"
  by (auto simp: dsocket_send_def dsocket_accept_send_def dsocket_recv_def dsocket_accept_recv_def Let_def quiet_simps)

lemma quiet_accept: "accept_wait so fl t k1 = Some (o1, k2) \<Longrightarrow> quiet k k1 \<Longrightarrow> quiet k k2"
  by (auto simp: accept_wait_def accept_finish_def bind_eq_Some_conv Let_def returned_def quiet_simps quiet_sockets(6)
      elim!: quiet_sockets(2-5) quiet_add_fd intro!: quiet_sockets(1) split: if_splits)

lemma quiet_driver:
  "k_driver_cskt_impl fl k1 = Some (v, k2) \<Longrightarrow> quiet k k1 \<Longrightarrow> quiet k k2"
  "k_driver_connect_impl h a k1 = Some (o1, k2) \<Longrightarrow> quiet k k1 \<Longrightarrow> quiet k k2"
  "k_driver_accept_impl h fl k1 = Some (o1, k2) \<Longrightarrow> quiet k k1 \<Longrightarrow> quiet k k2"
  "k_driver_listen_impl h k1 = Some (v, k2) \<Longrightarrow> quiet k k1 \<Longrightarrow> quiet k k2"
  "k_driver_send_impl h a n k1 = Some (v, k2) \<Longrightarrow> quiet k k1 \<Longrightarrow> quiet k k2"
  "k_driver_recv_impl h a n k1 = Some (v, k2) \<Longrightarrow> quiet k k1 \<Longrightarrow> quiet k k2"
  by (auto simp: k_driver_cskt_impl_def k_driver_connect_impl_def k_driver_accept_impl_def k_driver_listen_impl_def
      k_driver_send_impl_def k_driver_recv_impl_def bind_eq_Some_conv Let_def quiet_simps quiet_sockets(1)
      elim!: quiet_sockets(2-4) quiet_accept quiet_alloc intro!: quiet_sockets(1) split: if_splits
      dest!: arg_cong [of _ "(_ :: u64, _)" snd]) (auto intro!: quiet_transfer)

lemma quiet_files:
  "copy_fds a b is k1 = Some k2 \<Longrightarrow> quiet k k1 \<Longrightarrow> quiet k k2" "free_fds a is k1 = Some k2 \<Longrightarrow> quiet k k1 \<Longrightarrow> quiet k k2"
proof (induction "is" arbitrary: k1)
  case (Cons i "is")
  note IH = Cons.IH
  { case 1
    then show ?case using IH(1)
      by (auto simp: bind_eq_Some_conv Let_def split: if_splits) (metis quiet_alloc(1) quiet_simps(1,5), metis quiet_simps(1)) }
  { case 2
    then show ?case using IH(2)
      by (auto simp: bind_eq_Some_conv Let_def split: if_splits) (metis quiet_alloc(3)) }
qed simp_all

lemma quiet_parts:
  "clone_files t fl k1 = Some k2 \<Longrightarrow> quiet k k1 \<Longrightarrow> quiet k k2" "clone_mm t fl k1 = Some k2 \<Longrightarrow> quiet k k1 \<Longrightarrow> quiet k k2"
  "set_tid w a t k1 = Some k2 \<Longrightarrow> quiet k k1 \<Longrightarrow> quiet k k2" "release_mm mm k1 = Some k2 \<Longrightarrow> quiet k k1 \<Longrightarrow> quiet k k2"
  by (auto simp: clone_files_def clone_mm_def set_tid_def release_mm_def bind_eq_Some_conv Let_def quiet_simps
      elim!: quiet_alloc quiet_files intro!: quiet_thread split: if_splits prod.splits)

lemma quiet_clone_parts:
  "quiet k k1 \<Longrightarrow> quiet k (clone_context regs t k1)" "quiet k k1 \<Longrightarrow> quiet k (clone_sp sp t k1)"
  "quiet k k1 \<Longrightarrow> quiet k (clone_tls fl tls t k1)" "quiet k k1 \<Longrightarrow> quiet k (snd (clone_vfork fl t k1))"
  by (auto simp: clone_context_def clone_sp_def clone_tls_def clone_vfork_def Let_def quiet_simps quiet_context(3)
      intro!: quiet_thread)

lemma quiet_clone:
  assumes "k_clone_impl regs fl sp pt ct tls k1 = Some (o1, k2)" "quiet k k1"
  shows "quiet k k2"
proof -
  obtain t ka kb kc kd ke where C: "create 0 (th_tflags (k_thread k1 (k_current k1))) k1 = Some (t, ka)"
    "clone_mm t fl (clone_context regs t ka) = Some kb"
    "clone_files t fl (upd_thread t (\<lambda>x. x\<lparr>th_jiffies := th_jiffies (k_thread (clone_sp sp t kb) (k_current (clone_sp sp t kb)))\<rparr>)
       (clone_sp sp t kb)) = Some kc"
    "set_tid (fl AND CLONE_PARENT_SETTID \<noteq> 0) pt (k_current (clone_tls fl tls t kc)) (clone_tls fl tls t kc) = Some kd"
    "set_tid (fl AND CLONE_CHILD_SETTID \<noteq> 0) ct t kd = Some ke" "clone_vfork fl t ke = (o1, k2)"
    using assms(1) unfolding k_clone_impl_def Let_def by (simp add: bind_eq_Some_conv split_beta) (elim exE conjE, blast)
  have "quiet k kb" by (rule quiet_parts(2) [OF C(2) quiet_clone_parts(1) [OF quiet_create_thread [OF C(1) assms(2)]]])
  then have "quiet k kc" by (intro quiet_parts(1) [OF C(3)] quiet_thread quiet_clone_parts) simp_all
  then have "quiet k ke" by (intro quiet_parts(3) [OF C(5)] quiet_parts(3) [OF C(4)] quiet_clone_parts)
  then show ?thesis using C(6) quiet_clone_parts(4) by (metis snd_conv)
qed

lemma quiet_exit:
  assumes "k_exit_impl c k1 = Some (o1, k2)" "quiet k k1"
  shows "quiet k k2"
  using assms
  by (auto simp: k_exit_impl_def bind_eq_Some_conv Let_def quiet_simps quiet_switch(1) split_beta split: if_splits
      elim!: quiet_context(2) quiet_parts quiet_files quiet_alloc quiet_search intro!: quiet_thread)

lemma quiet_call:
  assumes "call_handler r regs k1 = Some (o1, k2)" "quiet k k1"
  shows "quiet k k2"
  using assms unfolding call_handler_def Let_def
  by (simp only: split: if_split_asm)
    (auto simp: returned_def k_hel_debug_impl_def quiet_maps elim!: quiet_driver quiet_clone quiet_exit quiet_printk split: if_splits)

lemma quiet_resume: "resume p k1 = Some (o1, k2) \<Longrightarrow> quiet k k1 \<Longrightarrow> quiet k k2"
  by (auto simp: resume_def connect_finish_def Let_def quiet_simps elim!: quiet_accept intro!: quiet_thread
      split: pending.splits if_splits)

lemma quiet_handler:
  assumes "syscall_handler regs ur k1 = Some (o1, k2)" "quiet k k1"
  shows "quiet k k2"
proof -
  let ?k = "upd_regs regs (enter_frame ur) k1"
  obtain o2 k3 where c: "call_handler (k_regs ?k regs) regs ?k = Some (o2, k3)" "(o1, k2) = store_result regs (o2, k3)"
    using assms(1) by (auto simp: syscall_handler_def Let_def)
  have "quiet k k3" by (rule quiet_call [OF c(1)]) (simp add: quiet_simps assms(2))
  then show ?thesis using c(2) by (auto simp: store_result_def quiet_simps split: outcome.splits)
qed

lemma quiet_step:
  assumes "kernel_step e k = Some k'"
  shows "quiet k k'"
proof (cases e)
  case (Enter regs ur)
  with assms obtain o1 where "syscall_handler regs ur k = Some (o1, k')" by (auto simp: kernel_step_def)
  then show ?thesis by (rule quiet_handler) (rule quiet_refl)
next
  case (Wake p)
  with assms obtain o1 where "resume p k = Some (o1, k')" by (auto simp: kernel_step_def)
  then show ?thesis by (rule quiet_resume) (rule quiet_refl)
next
  case (Tick r)
  with assms obtain f where "do_lapic_timer r k = Some (f, k')" by (auto simp: kernel_step_def)
  then show ?thesis by (rule quiet_timer) (rule quiet_refl)
next
  case (Run_as t c)
  with assms show ?thesis by (auto simp: kernel_step_def quiet_simps)
qed

lemma quiet_run: "kernel_run es k = Some k' \<Longrightarrow> quiet k k'"
proof (induction es arbitrary: k)
  case (Cons e es)
  then obtain k1 where "kernel_step e k = Some k1" "kernel_run es k1 = Some k'" by (auto simp: bind_eq_Some_conv)
  with Cons.IH quiet_step show ?case by (blast intro: quiet_trans)
qed auto

section \<open>Properties of the system calls\<close>

text \<open>C32: A caller of \<^verbatim>\<open>clone\<close> with \<^verbatim>\<open>CLONE_VFORK\<close> waits for ever: nothing in the kernel sets the flag it waits for. Whatever system
  calls, resumptions, timer interrupts and changes of the running thread follow, when the caller runs again it goes on waiting.\<close>

theorem vfork_never_wakes:
  assumes "clone_vfork flags t k = (o1, k1)" "flags AND CLONE_VFORK \<noteq> 0" "kernel_run es k1 = Some k2" "k_current k2 = k_current k1"
  shows "o1 = Block (Await_vfork t) \<and> resume (Await_vfork t) k2 = Some (Block (Await_vfork t), k2)"
proof -
  have "\<not> th_child_vfork_done (k_thread k1 (k_current k1))" "o1 = Block (Await_vfork t)"
    using assms(1,2) by (auto simp: clone_vfork_def Let_def upd_thread_def)
  with quiet_run [OF assms(3)] show ?thesis by (auto simp: quiet_def resume_def assms(4))
qed

theorem vfork_never_wakes_witness:
  "\<exists>k2. kernel_run [Run_as 0x1000 0, Run_as 0x4000 0] (snd (clone_vfork 0x4000 0x1000 (demo_threads\<lparr>k_current := 0x4000\<rparr>))) = Some k2 \<and>
     resume (Await_vfork 0x1000) k2 = Some (Block (Await_vfork 0x1000), k2)"
proof -
  let ?k = "demo_threads\<lparr>k_current := 0x4000\<rparr>"
  obtain o1 k1 where c: "clone_vfork 0x4000 0x1000 ?k = (o1, k1)" by force
  have cur: "k_current k1 = 0x4000" using c by (auto simp: clone_vfork_def Let_def upd_thread_def split: if_splits)
  obtain k2 where k2: "kernel_run [Run_as 0x1000 0, Run_as 0x4000 0] k1 = Some k2" "k_current k2 = 0x4000"
    by (simp add: kernel_step_def)
  have "(0x4000 :: u64) AND CLONE_VFORK \<noteq> 0" by (simp add: CLONE_VFORK_def)
  from vfork_never_wakes [OF c this k2(1)] cur k2 c show ?thesis by simp
qed

text \<open>The last thread of an address space to exit does not free its page tables: its count reaches 0 before the release looks for 1.
  The count becomes \<open>2 ^ 64 - 1\<close> and no other byte changes, so no frame is freed.\<close>

theorem exit_leaks_tables:
  assumes "mm \<noteq> 0" "rd64 (k_mem k) (mm + 8) = 1"
  shows "\<exists>k'. release_mm mm k = Some k' \<and> rd64 (k_mem k') (mm + 8) = - 1 \<and> k_frames k' = k_frames k \<and>
    (\<forall>x. 8 \<le> x - (mm + 8) \<longrightarrow> k_mem k' x = k_mem k x)"
proof -
  let ?m = "wr64 (wr64 (k_mem k) (mm + 8) 0) (mm + 8) (- 1)"
  have "?m x = k_mem k x" if "8 \<le> x - (mm + 8)" for x using leD [OF that] by (simp add: wr64_def)
  then show ?thesis using assms by (simp add: release_mm_def Let_def free_page_table_def set_mem_def)
qed

theorem exit_leaks_tables_witness:
  "\<exists>k'. release_mm 0x7000 (set_mem (wr64 (\<lambda>_. 0) 0x7008 1) demo_threads) = Some k' \<and> rd64 (k_mem k') 0x7008 = - 1"
  using exit_leaks_tables [of "0x7000" "set_mem (wr64 (\<lambda>_. 0) 0x7008 1) demo_threads"] by (auto simp: set_mem_def)

text \<open>A system call that is not one of the twelve implemented ones returns \<open>- k_hel_error_not_implemented\<close> and changes nothing but
  the caller's register frame. This includes \<^verbatim>\<open>k_driver_bind\<close>, number 11, although its handler exists.\<close>

theorem unknown_calls_refused:
  assumes "rg_rax (k_regs k regs) \<notin> (\<lambda>n. k_hel_base + n) ` {1, 2, 3, 10, 12, 13, 14, 15, 16, 20, 21, 22}"
  shows "syscall_handler regs user_regs k =
    Some (Return (- 2), upd_regs regs (\<lambda>r. (enter_frame user_regs r)\<lparr>rg_rax := - 2\<rparr>) k)"
  using assms by (simp add: syscall_handler_def Let_def call_handler_def upd_regs_def enter_frame_def store_result_def
      k_hel_error_not_implemented_def)

theorem unknown_calls_refused_witness:
  "fst (the (syscall_handler 0x9000 0x9100 (upd_regs 0x9000 (\<lambda>r. r\<lparr>rg_rax := 0x8000000B\<rparr>) demo_threads))) = Return (- 2)"
  using unknown_calls_refused [of "upd_regs 0x9000 (\<lambda>r. r\<lparr>rg_rax := 0x8000000B\<rparr>) demo_threads" "0x9000" "0x9100"]
  by (simp add: upd_regs_def k_hel_base_def)

lemma find_socket_empty:
  assumes "find_socket k dpath n d = Some r"
  shows "n = 0 \<longrightarrow> r = 0"
  by (rule find_socket.raw_induct [OF _ assms]) (auto simp: memcmp_def for_ret.simps split: if_splits)

text \<open>C40: No socket ever connects. The head of the list of sockets is not a socket and has no path: comparing with it faults for a
  path that is not empty. For the empty path, every comparison is equal and the search goes to the end of the list.\<close>

theorem connect_never_connects:
  assumes "k_driver_sockets k \<noteq> 0" "sk_bind_addr (k_sock k (k_driver_sockets k)) = 0"
  shows "if fd_lookup handle_id k = 0 then k_driver_connect_impl handle_id addr k = Some (Return (- 3), k)
    else if sk_pair (k_sock k (hd_socket (k_handle k (fd_dsock_handle (k_fd k (fd_lookup handle_id k)))))) \<noteq> 0 then
      k_driver_connect_impl handle_id addr k = Some (Return (- 5), k)
    else if path_len (k_mem k) addr \<noteq> 0 then k_driver_connect_impl handle_id addr k = None
    else k_driver_connect_impl handle_id addr k \<in> {None, Some (Return (- 4), k)}"
proof -
  let ?d = "k_driver_sockets k" and ?n = "path_len (k_mem k) addr"
  have "find_socket k (addr + 1) ?n ?d = None" if "?n \<noteq> 0"
    using assms that find_socket.simps [of k "addr + 1" ?n ?d] by simp
  moreover have "r = 0" if "find_socket k (addr + 1) ?n ?d = Some r" "?n = 0" for r
    using find_socket_empty [OF that(1)] that(2) by simp
  ultimately show ?thesis
    by (cases "find_socket k (addr + 1) ?n ?d")
      (auto simp: k_driver_connect_impl_def Let_def k_hel_error_bad_handler_def k_hel_error_already_connected_def
         k_hel_error_not_found_def)
qed

definition demo_socket :: kernel where
  "demo_socket = set_mem (wr64 (\<lambda>a. if a = 0x7001 then 65 else 0) 0x6000 0x8000) (demo_threads\<lparr>k_current := 0x4000\<rparr>)"

theorem connect_never_connects_witness: "k_driver_connect_impl 0 0x7000 demo_socket = None"
proof -
  have f: "th_file_info (k_thread demo_socket 0x4000) = 0x5000" "fi_fds (k_finfo demo_socket 0x5000) = 0x6000"
    "k_current demo_socket = 0x4000" "k_mem demo_socket = wr64 (\<lambda>a. if a = 0x7001 then 65 else 0) 0x6000 0x8000"
    "fd_kind (k_fd demo_socket 0x8000) = fd_info_type_dsocket" "sk_pair (k_sock demo_socket a) = 0"
    "k_driver_sockets demo_socket \<noteq> 0" "sk_bind_addr (k_sock demo_socket a) = 0" for a
    by (simp_all add: demo_socket_def demo_threads_def set_mem_def blank_kernel_def blank_sock_def)
  have l: "fd_lookup 0 demo_socket = 0x8000" by (simp add: fd_lookup_def Let_def f)
  have "path_len (k_mem demo_socket) 0x7000 = 1"
    by (simp add: path_len_def f wr64_def strlen_def strnlen_def strnlen_loop.simps)
  then show ?thesis using connect_never_connects [of demo_socket 0 "0x7000"] f l by simp
qed

section \<open>Mapping physical memory\<close>

lemma pages_of: "unat sz \<le> 2 ^ 40 \<Longrightarrow> (sz + PAGE_SIZE - 1) div PAGE_SIZE = of_nat ((unat sz + 4095) div 4096)"
proof -
  assume s: "unat sz \<le> 2 ^ 40"
  have "sz + PAGE_SIZE - 1 = sz + of_nat 4095" by (simp add: PAGE_SIZE_def)
  moreover have "unat (sz + of_nat 4095) = unat sz + 4095" by (rule unat_add_of_nat) (use s in simp)
  ultimately have "unat ((sz + PAGE_SIZE - 1) div PAGE_SIZE) = (unat sz + 4095) div 4096"
    by (simp only: unat_div) (simp add: PAGE_SIZE_def)
  moreover have "unat (of_nat ((unat sz + 4095) div 4096) :: u64) = (unat sz + 4095) div 4096"
    by (rule unat_of_nat64) (use s in simp)
  ultimately show ?thesis by (simp only: word_unat_eq_iff)
qed

text \<open>C15: \<open>k_hel_physmap\<close> of a region that starts at an address other than 0, while four free frames are left for each of its \<open>n\<close> pages and none of
  the free frames is one of the last \<open>n - 1\<close>, returns an address from which page after page translates to the region. The address is
  that of a frame taken from the allocator. Every other page that had a table translates as before, the tables form a tree again, and nothing is
  written but the bit map and tables, so that the next call can rely on the same.\<close>

theorem physmap_maps:
  assumes t: "tree_ok (k_frames k) (k_mem k) T" "frames_apart (k_frames k) (k_mem k)" "T [] = Some r"
    and c: "k_cr3 k = frame_addr r" "k_off k = hhdm_base" "4 * n \<le> card (free_set (k_frames k) (k_mem k))"
      "\<And>i. i \<in> free_set (k_frames k) (k_mem k) \<Longrightarrow> i + n \<le> frame_cap (k_frames k)"
    and s: "0 < unat sz" "unat sz \<le> 2 ^ 40" "n = (unat sz + 4095) div 4096" "pa \<noteq> 0"
  shows "\<exists>f k' T'. k_hel_physmap_impl pa sz k = (frame_addr f, k') \<and> f \<in> free_set (k_frames k) (k_mem k) \<and>
    k_frames k' = k_frames k \<and> tree_ok (k_frames k) (k_mem k') T' \<and> frames_apart (k_frames k) (k_mem k') \<and> T' [] = Some r \<and>
    pages_chg (map_frames (k_frames k) \<union> ran T') (k_mem k) (k_mem k') \<and>
    (\<forall>i < n. translate_addr hhdm_base (from_current (k_cr3 k) True) (k_mem k') (frame_addr f + of_nat i * PAGE_SIZE) =
       (pa + of_nat i * PAGE_SIZE) AND NOT hhdm_base AND NOT (PAGE_SIZE - 1)) \<and>
    (\<forall>va. T (path va) \<noteq> None \<and>
         (\<forall>i < n. (path va, leaf va) \<noteq> (path (page_at (frame_addr f) i), leaf (page_at (frame_addr f) i))) \<longrightarrow>
       translate_addr hhdm_base (from_current (k_cr3 k) True) (k_mem k') va =
       translate_addr hhdm_base (from_current (k_cr3 k) True) (k_mem k) va)"
proof -
  let ?b = "k_frames k" and ?m = "k_mem k" and ?pt = "from_current (k_cr3 k) True"
  have n: "0 < n" "n < 2 ^ 36" using s(1-3) by (auto simp: less_mult_imp_div_less)
  have fin: "finite (free_set ?b ?m)" by (simp add: free_set_def)
  have ne: "free_set ?b ?m \<noteq> {}" using c(3) n(1) by auto
  have pt: "pt_phys_addr ?pt = frame_addr r" by (simp add: from_current_def c(1))
  obtain f m1 where f: "alloc_frames ?b ?m (of_nat n) = (frame_addr f, m1)" "f \<in> free_set ?b ?m" "f < 2 ^ 35"
    "free_set ?b m1 = free_set ?b ?m - {f..<f + n}" "pages_chg (map_frames ?b) ?m m1"
    by (rule take_frames [OF t(2) ne n(1) c(4)])
  have sub: "free_set ?b m1 \<subseteq> free_set ?b ?m" using f(4) by blast
  note T = tree_taken [OF t pt sub f(5) t(1)]
  have "card (free_set ?b ?m) - card {f..<f + n} \<le> card (free_set ?b m1)" unfolding f(4) by (rule diff_card_le_card_Diff) simp
  then have c1: "3 * n \<le> card (free_set ?b m1)" using c(3) by simp
  obtain m' T' where R: "page_table_map_range hhdm_base ?pt (?b, m1) (frame_addr f) pa (of_nat n) 7 = (?b, m')"
    "mapped UNIV ?pt ?b m1 T r (frame_addr f) n (\<lambda>i. page_at pa i AND NOT hhdm_base AND NOT (PAGE_SIZE - 1)) {} m' T'"
    by (rule range_given [OF T(1,2) t(3) pt c1 n(2) s(4) UNIV_I])
  have "k_hel_physmap_impl pa sz k = (frame_addr f, set_mem m' (set_mem m1 k))"
    using R(1) f(1) by (simp add: k_hel_physmap_impl_def Let_def pages_of [OF s(2)] s(3) [symmetric] kframes_def c(2) set_mem_def)
  moreover have "pages_chg (map_frames ?b \<union> ran T') ?m m'" using mappedD(14) [OF R(2)] f(5) by (simp add: pages_chg_def)
  ultimately show ?thesis
    using R(2) T(3) f(2) unfolding mapped_def page_at_def [symmetric]
    by (intro exI [of _ f] exI [of _ "set_mem m' (set_mem m1 k)"] exI [of _ T']) (simp add: set_mem_def)
qed

theorem physmap_maps_witness:
  "\<exists>f k'. k_hel_physmap_impl 0x12345000 100 (blank_kernel \<lparr>kh_pool = blank_pool, kh_mem = demo_mem, kh_lock = SPIN_INIT, kh_rflags = 0x202\<rparr>
      \<lparr>k_cr3 := 4096\<rparr>) = (frame_addr f, k') \<and> f \<in> {4, 5, 6, 7} \<and>
     translate_addr hhdm_base (from_current 4096 True) (k_mem k') (frame_addr f) = 0x12345000"
proof -
  let ?k = "blank_kernel \<lparr>kh_pool = blank_pool, kh_mem = demo_mem, kh_lock = SPIN_INIT, kh_rflags = 0x202\<rparr> \<lparr>k_cr3 := 4096\<rparr>"
  have e: "k_frames ?k = demo_bm" "k_mem ?k = demo_mem" "k_cr3 ?k = frame_addr 1" "k_off ?k = hhdm_base" "k_cr3 ?k = 4096"
    by (simp_all add: blank_kernel_def hhdm_base_def frame_addr_def)
  have "(0x12345000 :: u64) AND NOT hhdm_base AND NOT (PAGE_SIZE - 1) = 0x12345000"
    by (simp add: hhdm_base_def PAGE_SIZE_def)
  moreover have "i + 1 \<le> frame_cap demo_bm" if "i \<in> free_set demo_bm demo_mem" for i using that by (simp add: free_set_def)
  ultimately show ?thesis
    using physmap_maps [of ?k "[[] \<mapsto> 1]" 1 1 100 "0x12345000", unfolded e(1,2), OF demo_tree demo_apart _ e(3,4)]
    unfolding e(5) demo_table_free_set by auto
qed

section \<open>Messages\<close>

definition debug_prefix :: "u32 \<Rightarrow> char list" where
  "debug_prefix kind =
     (if kind = 1 then ''[info] '' else if kind = 2 then ''[debug] '' else if kind = 3 then ''[warning] '' else ''[error] '')"

text \<open>C31: \<open>k_hel_debug\<close> with one of its four kinds sends the prefix of the kind and the caller's string over the serial line and returns
  their length; in memory it writes exactly the text and its terminator at the message buffer. The length is not limited: a string
  of 4096 characters or more is written past the 4096 bytes of the buffer.\<close>

theorem debug_sends_message:
  assumes "kind \<in> {1, 2, 3, 4}" "\<not> bit (sl_lock (k_debug_lock k)) 0"
    and str: "\<forall>j < n. k_mem k (s + of_nat j) \<noteq> 0" "k_mem k (s + of_nat n) = 0" "n < 2 ^ 30"
      "\<forall>j \<le> n. \<forall>i < n + 10. s + of_nat j \<noteq> k_debug_buf k + of_nat i"
  defines "msg \<equiv> map of_char (debug_prefix kind) @ map (\<lambda>j. k_mem k (s + of_nat j)) [0..<n]"
  shows "\<exists>k'. k_hel_debug_impl kind s k = Some (of_nat (length msg), k') \<and> k_serial k' = k_serial k @ on_line msg \<and>
    k_mem k' = text_at (k_mem k) (k_debug_buf k) (msg @ [0])"
proof -
  let ?p = "debug_prefix kind"
  have p: "length ?p \<le> 10" "CHR ''%'' \<notin> set ?p" by (simp_all add: debug_prefix_def)
  have l: "length msg = length ?p + n" by (simp add: msg_def)
  have "length ?p + n < 2 ^ 31" using p(1) str(3) by simp
  then have len: "length msg < 2 ^ 31" using l by simp
  have "vsprintf (k_mem k) (k_debug_buf k) (?p @ ''%s'') [s] =
      Some (of_nat (length msg), text_at (k_mem k) (k_debug_buf k) (msg @ [0]))"
    using vsprintf_prefixed [OF p(2) str(1,2), of "k_debug_buf k"] str(4) p(1) \<open>length ?p + n < 2 ^ 31\<close>
    by (simp add: l msg_def)
  from printk_sends [OF assms(2) len this]
  have P: "printk (?p @ ''%s'') [s] k = Some (of_nat (length msg),
      (set_mem (text_at (k_mem k) (k_debug_buf k) (msg @ [0])) k)
        \<lparr>k_serial := k_serial k @ on_line msg, k_debug_lock := (k_debug_lock k)\<lparr>sl_rflags := kh_rflags (k_heap k)\<rparr>\<rparr>)" .
  have "k_hel_debug_impl kind s k = map_option (\<lambda>(sz, k1). (scast sz, k1)) (printk (?p @ ''%s'') [s] k)"
    using assms(1) by (auto simp: k_hel_debug_impl_def debug_prefix_def)
  moreover have "scast (of_nat (length msg) :: u32) = (of_nat (length msg) :: u64)"
    using sint_len [OF len] by (simp add: scast_of_int)
  ultimately show ?thesis by (simp add: P set_mem_def)
qed

theorem debug_sends_message_witness:
  "\<exists>k'. k_hel_debug_impl 1 0x7001 demo_socket = Some (8, k') \<and> k_serial k' = [0x5b, 0x69, 0x6e, 0x66, 0x6f, 0x5d, 0x20, 65]"
proof -
  have f: "k_mem demo_socket = wr64 (\<lambda>a. if a = 0x7001 then 65 else 0) 0x6000 0x8000" "k_debug_buf demo_socket = 0xffffffff80100000"
    "\<not> bit (sl_lock (k_debug_lock demo_socket)) 0" "k_serial demo_socket = []"
    by (simp_all add: demo_socket_def demo_threads_def set_mem_def blank_kernel_def SPIN_INIT_def)
  have m: "k_mem demo_socket 0x7001 = 65" "k_mem demo_socket 0x7002 = 0" by (simp_all add: f wr64_def)
  have ap: "0x7001 + of_nat j \<noteq> k_debug_buf demo_socket + of_nat i" if "j \<le> 1" "i < 1 + 10" for i j
    unfolding f(2) by (rule not_sym, rule apart_below [of _ 11]) (use that in simp_all)
  show ?thesis
    using debug_sends_message [of 1 demo_socket 1 "0x7001"] m f(3) ap
    by (simp add: debug_prefix_def f(4) on_line_def) blast
qed

end
