(* ===== verification/Descriptor.thy ===== *)
theory Descriptor
  imports Memory
begin

unbundle bit_operations_syntax

text \<open>
  The processor's descriptor tables: \<^verbatim>\<open>arch/x86_64/gdt.cpp\<close>, \<^verbatim>\<open>include/arch/x86_64/gdt.hpp\<close> and the gates of \<^verbatim>\<open>arch/x86_64/idt.cpp\<close>.

  A table is the list of its entries, as the sources write them: 138 words for segments and task states, 256 pairs of words for
  interrupt gates. The bit arithmetic is the code's; \<open>set_gate\<close> follows the inline assembly register by register. The \<open>seg_*\<close>, \<open>tss_*\<close> and
  \<open>gate_*\<close> functions are the other direction: the fields as the processor takes them from an entry.
\<close>

section \<open>Segments and task states\<close>

record gdtr =
  dt_limit :: u16
  dt_pointer :: u64

definition MAX_CPU_NUM :: nat where "MAX_CPU_NUM = 64"

definition GDT_ENTRIES :: nat where "GDT_ENTRIES = 10 + MAX_CPU_NUM * 2"

text \<open>The size of the packed structure \<^verbatim>\<open>tss_t\<close>: 104 bytes and the bit map of the ports.\<close>

definition IOBITMAP_SIZE :: u64 where "IOBITMAP_SIZE = 65536 div 8"
definition TSS_BYTES :: u64 where "TSS_BYTES = 104 + IOBITMAP_SIZE"

definition set_tss64 :: "mem \<Rightarrow> u64 \<Rightarrow> u64 \<Rightarrow> u64 \<Rightarrow> u64 \<Rightarrow> u64 \<Rightarrow> u64 \<Rightarrow> u64 \<Rightarrow> u64 \<Rightarrow> u64 \<Rightarrow> u64 \<Rightarrow> u64 \<Rightarrow> mem" where
  "set_tss64 m table rsp0 rsp1 rsp2 ist1 ist2 ist3 ist4 ist5 ist6 ist7 =
     (let m1 = wr64 m (table + 1 * 4) rsp0;
          m2 = wr64 m1 (table + 3 * 4) rsp1;
          m3 = wr64 m2 (table + 5 * 4) rsp2;
          m4 = wr64 m3 (table + 9 * 4) ist1;
          m5 = wr64 m4 (table + 11 * 4) ist2;
          m6 = wr64 m5 (table + 13 * 4) ist3;
          m7 = wr64 m6 (table + 15 * 4) ist4;
          m8 = wr64 m7 (table + 17 * 4) ist5;
          m9 = wr64 m8 (table + 19 * 4) ist6
      in wr64 m9 (table + 21 * 4) ist7)"

definition set_tss_descriptor :: "u64 list \<Rightarrow> nat \<Rightarrow> u64 \<Rightarrow> u64 list" where
  "set_tss_descriptor gdt n addr =
     (let limit = TSS_BYTES;
          low = (limit AND 0xffff) OR push_bit 16 (addr AND 0xffff) OR push_bit 32 (drop_bit 16 addr AND 0xff) OR
                push_bit 40 0x89 OR push_bit 48 (drop_bit 16 limit AND 0x0f) OR push_bit 56 (drop_bit 24 addr AND 0xff);
          high = (drop_bit 32 addr AND 0xffffffff) OR 0
      in gdt[n := low, n + 1 := high])"

definition gdt_table_init :: "u64 list" where
  "gdt_table_init = (replicate GDT_ENTRIES 0)
     [0 := 0x0000000000000000, 1 := 0x00a09a0000000000, 2 := 0x00c0920000000000, 3 := 0x00c0f20000000000,
      4 := 0x00a0fa0000000000]"

definition gdt_pointer :: "u64 \<Rightarrow> gdtr" where
  "gdt_pointer gdt = \<lparr>dt_limit = ucast (of_nat (8 * GDT_ENTRIES) - 1 :: u32), dt_pointer = gdt\<rparr>"

section \<open>Gates\<close>

type_synonym gate = "u64 \<times> u64"

definition IDT_ENTRIES :: nat where "IDT_ENTRIES = 256"

text \<open>The registers start as \<open>rax = 0x8 << 16\<close>, \<open>rdx\<close> the address and \<open>rcx\<close> the stack number.\<close>

definition gate_of :: "u64 \<Rightarrow> u8 \<Rightarrow> u64 \<Rightarrow> gate" where
  "gate_of attr ist addr =
     (let rdx = addr;
          rax0 = push_bit 16 0x8;
          rax1 = (rax0 AND NOT 0xffff) OR (rdx AND 0xffff);
          rcx1 = push_bit 32 ((ucast ist AND 7) + push_bit 8 attr);
          rax2 = rax1 + rcx1;
          rcx2 = push_bit 48 (drop_bit 16 (rdx AND 0xffffffff));
          rax3 = rax2 + rcx2
      in (rax3, drop_bit 32 rdx))"

definition set_gate :: "gate list \<Rightarrow> u64 \<Rightarrow> nat \<Rightarrow> u8 \<Rightarrow> u64 \<Rightarrow> gate list" where
  "set_gate idt attr n ist addr = idt[n := gate_of attr ist addr]"

definition set_intr_gate :: "nat \<Rightarrow> u8 \<Rightarrow> u64 \<Rightarrow> gate list \<Rightarrow> gate list" where
  "set_intr_gate n ist addr idt = set_gate idt 0x8E n ist addr"

definition set_trap_gate :: "nat \<Rightarrow> u8 \<Rightarrow> u64 \<Rightarrow> gate list \<Rightarrow> gate list" where
  "set_trap_gate n ist addr idt = set_gate idt 0x8F n ist addr"

definition set_system_trap_gate :: "nat \<Rightarrow> u8 \<Rightarrow> u64 \<Rightarrow> gate list \<Rightarrow> gate list" where
  "set_system_trap_gate n ist addr idt = set_gate idt 0xEF n ist addr"

definition idx_timer :: nat where "idx_timer = 0x20"
definition idx_keyboard :: nat where "idx_keyboard = 0x21"
definition idx_mouse :: nat where "idx_mouse = 0x22"

text \<open>The handlers are the entry points of \<^verbatim>\<open>entry.S\<close>: \<open>entry n\<close> is the address of the one for vector \<open>n\<close>.\<close>

definition idt_table_init :: "(nat \<Rightarrow> u64) \<Rightarrow> gate list \<Rightarrow> gate list" where
  "idt_table_init entry idt0 =
     (let i0 = set_trap_gate 0 0 (entry 0) idt0;
          i1 = set_trap_gate 1 0 (entry 1) i0;
          i2 = set_intr_gate 2 0 (entry 2) i1;
          i3 = set_system_trap_gate 3 0 (entry 3) i2;
          i4 = set_system_trap_gate 4 0 (entry 4) i3;
          i5 = set_system_trap_gate 5 0 (entry 5) i4;
          i6 = set_trap_gate 6 0 (entry 6) i5;
          i7 = set_trap_gate 7 0 (entry 7) i6;
          i8 = set_trap_gate 8 0 (entry 8) i7;
          i9 = set_trap_gate 9 0 (entry 9) i8;
          i10 = set_trap_gate 10 0 (entry 10) i9;
          i11 = set_trap_gate 11 0 (entry 11) i10;
          i12 = set_trap_gate 12 0 (entry 12) i11;
          i13 = set_trap_gate 13 0 (entry 13) i12;
          i14 = set_trap_gate 14 0 (entry 14) i13;
          i16 = set_trap_gate 16 0 (entry 16) i14;
          i17 = set_trap_gate 17 0 (entry 17) i16;
          i18 = set_trap_gate 18 0 (entry 18) i17;
          i19 = set_trap_gate 19 0 (entry 19) i18;
          i20 = set_trap_gate 20 0 (entry 20) i19
      in set_intr_gate idx_timer 0 (entry idx_timer) i20)"

definition idt_pointer :: "u64 \<Rightarrow> gdtr" where
  "idt_pointer idt = \<lparr>dt_limit = ucast (of_nat (16 * IDT_ENTRIES) - 1 :: u32), dt_pointer = idt\<rparr>"

section \<open>What the processor reads\<close>

definition seg_dpl :: "u64 \<Rightarrow> u64" where "seg_dpl d = take_bit 2 (drop_bit 45 d)"
definition seg_present :: "u64 \<Rightarrow> bool" where "seg_present d = bit d 47"
definition seg_code :: "u64 \<Rightarrow> bool" where "seg_code d \<longleftrightarrow> bit d 44 \<and> bit d 43"
definition seg_long :: "u64 \<Rightarrow> bool" where "seg_long d = bit d 53"

definition tss_base :: "u64 list \<Rightarrow> nat \<Rightarrow> u64" where
  "tss_base gdt n = take_bit 16 (drop_bit 16 (gdt ! n)) OR push_bit 16 (take_bit 8 (drop_bit 32 (gdt ! n))) OR
     push_bit 24 (take_bit 8 (drop_bit 56 (gdt ! n))) OR push_bit 32 (take_bit 32 (gdt ! (n + 1)))"

definition tss_limit :: "u64 list \<Rightarrow> nat \<Rightarrow> u64" where
  "tss_limit gdt n = take_bit 16 (gdt ! n) OR push_bit 16 (take_bit 4 (drop_bit 48 (gdt ! n)))"

definition tss_type :: "u64 list \<Rightarrow> nat \<Rightarrow> u64" where "tss_type gdt n = take_bit 8 (drop_bit 40 (gdt ! n))"

definition gate_offset :: "gate \<Rightarrow> u64" where
  "gate_offset g = take_bit 16 (fst g) OR push_bit 16 (take_bit 16 (drop_bit 48 (fst g))) OR push_bit 32 (take_bit 32 (snd g))"

definition gate_selector :: "gate \<Rightarrow> u64" where "gate_selector g = take_bit 16 (drop_bit 16 (fst g))"
definition gate_ist :: "gate \<Rightarrow> u64" where "gate_ist g = take_bit 3 (drop_bit 32 (fst g))"
definition gate_attr :: "gate \<Rightarrow> u64" where "gate_attr g = take_bit 8 (drop_bit 40 (fst g))"
definition gate_present :: "gate \<Rightarrow> bool" where "gate_present g = bit (fst g) 47"
definition gate_dpl :: "gate \<Rightarrow> u64" where "gate_dpl g = take_bit 2 (drop_bit 45 (fst g))"

lemma bit_small:
  assumes "n \<le> 64" "(w :: u64) < 2 ^ n" "n \<le> i" shows "\<not> bit w i"
proof
  assume b: "bit w i"
  then have "i < 64" using bit_imp_le_length [of w i] by simp
  then have n: "n < 64" using assms(3) by simp
  have "take_bit n w = w" using less_mask_eq [OF assms(2)] by (simp add: take_bit_eq_mask)
  then show False using b assms(3) by (metis bit_take_bit_iff not_le)
qed

text \<open>The sums of the gate arithmetic never carry: its parts have no bit in common.\<close>

lemma gate_bits:
  assumes "attr < 2 ^ 8" "i < 64"
  shows "bit (fst (gate_of attr ist addr)) i =
    (if i < 16 then bit addr i else if i < 32 then i = 19 else if i < 35 then bit ist (i - 32)
     else if i < 40 then False else if i < 48 then bit attr (i - 40) else bit addr (i - 32))"
proof -
  have a: "\<not> bit attr j" if "8 \<le> j" for j by (rule bit_small [OF _ assms(1) that]) simp
  have m: "(0xffff :: u64) = mask 16" "(7 :: u64) = mask 3" "(0xffffffff :: u64) = mask 32"
    by (simp_all add: mask_eq_exp_minus_1)
  have sel: "bit (524288 :: int) j = (j = 19)" for j using bit_exp_iff [of 19 j, where ?'a = int] by (auto simp: eq_commute)
  define rax1 where "rax1 = (push_bit 16 8 AND NOT 0xffff) OR (addr AND 0xffff)"
  define rcx1 where "rcx1 = push_bit 32 ((ucast ist AND 7) + push_bit 8 attr)"
  define rcx2 where "rcx2 = push_bit 48 (drop_bit 16 (addr AND 0xffffffff))"
  have b0: "bit rax1 j = (j < 16 \<and> bit addr j \<or> j = 19)" for j
    unfolding rax1_def m by (auto simp: bit_simps sel)
  have "(ucast ist AND 7) + push_bit 8 attr = (ucast ist AND 7) OR push_bit 8 attr"
    unfolding m by (intro disjunctive_add) (auto simp: bit_simps)
  then have b1: "bit rcx1 j = (32 \<le> j \<and> j < 64 \<and> (j < 35 \<and> bit ist (j - 32) \<or> 40 \<le> j \<and> bit attr (j - 40)))" for j
    unfolding rcx1_def m by (auto simp: bit_simps)
  have b2: "bit rcx2 j = (48 \<le> j \<and> j < 64 \<and> bit addr (j - 32))" for j
    unfolding rcx2_def m by (auto simp: bit_simps)
  have s1: "rax1 + rcx1 = rax1 OR rcx1"
    by (intro disjunctive_add) (auto simp: b0 b1)
  have s2: "(rax1 OR rcx1) + rcx2 = (rax1 OR rcx1) OR rcx2"
    using a by (intro disjunctive_add) (auto simp: b0 b1 b2 bit_or_iff)
  have "fst (gate_of attr ist addr) = (rax1 OR rcx1) OR rcx2"
    unfolding gate_of_def Let_def rax1_def [symmetric] rcx1_def [symmetric] rcx2_def [symmetric] s1 s2 by simp
  then show ?thesis using assms(2) a by (auto simp: bit_or_iff b0 b1 b2)
qed

text \<open>A field of an entry, bit by bit.\<close>

lemma gate_fields:
  assumes "attr < 2 ^ 8"
  shows "gate_offset (gate_of attr ist addr) = addr" "gate_selector (gate_of attr ist addr) = 8"
    "gate_ist (gate_of attr ist addr) = ucast (take_bit 3 ist)" "gate_attr (gate_of attr ist addr) = attr"
proof -
  note G = gate_bits [OF assms]
  have a: "j < 8" if "bit attr j" for j using bit_small [OF _ assms, of j] that by (cases "8 \<le> j") auto
  have at: "bit (fst (gate_of attr ist addr)) (40 + i) = bit attr i" if "i < 8" for i using G [of "40 + i"] that by simp
  have h: "snd (gate_of attr ist addr) = drop_bit 32 addr" by (simp add: gate_of_def Let_def)
  have sel: "bit (8 :: int) j = (j = 3)" for j using bit_exp_iff [of 3 j, where ?'a = int] by (auto simp: eq_commute)
  show "gate_offset (gate_of attr ist addr) = addr"
    unfolding gate_offset_def h
  proof (rule bit_word_eqI)
    fix n assume "n < LENGTH(64)"
    then show "bit (take_bit 16 (fst (gate_of attr ist addr)) OR push_bit 16 (take_bit 16 (drop_bit 48 (fst (gate_of attr ist addr)))) OR
        push_bit 32 (take_bit 32 (drop_bit 32 addr))) n = bit addr n"
      by (cases "n < 16"; cases "n < 32") (auto simp: bit_simps G)
  qed
  show "gate_selector (gate_of attr ist addr) = 8"
    unfolding gate_selector_def by (rule bit_word_eqI) (auto simp: bit_simps G sel)
  show "gate_ist (gate_of attr ist addr) = ucast (take_bit 3 ist)"
    unfolding gate_ist_def by (rule bit_word_eqI) (auto simp: bit_simps G)
  show "gate_attr (gate_of attr ist addr) = attr"
    unfolding gate_attr_def
  proof (rule bit_word_eqI)
    fix n show "bit (take_bit 8 (drop_bit 40 (fst (gate_of attr ist addr)))) n = bit attr n"
      by (cases "n < 8") (auto simp: bit_simps at dest: a)
  qed
qed

lemma tss_bits:
  assumes "limit < 2 ^ 16" "attr < 2 ^ 8" "j < 64"
  shows "bit (limit OR push_bit 16 (addr AND 0xffff) OR push_bit 32 (drop_bit 16 addr AND 0xff) OR push_bit 40 attr OR
      push_bit 56 (drop_bit 24 addr AND 0xff) :: u64) j =
    (if j < 16 then bit limit j else if j < 40 then bit addr (j - 16) else if j < 48 then bit attr (j - 40)
     else if j < 56 then False else bit addr (j - 32))"
proof -
  have l: "i < 16" if "bit limit i" for i using bit_small [OF _ assms(1), of i] that by (cases "16 \<le> i") auto
  have a: "i < 8" if "bit attr i" for i using bit_small [OF _ assms(2), of i] that by (cases "8 \<le> i") auto
  have m: "(0xffff :: u64) = mask 16" "(0xff :: u64) = mask 8" by (simp_all add: mask_eq_exp_minus_1)
  have s: "32 \<le> j \<Longrightarrow> 16 + (j - 32) = j - 16" "56 \<le> j \<Longrightarrow> 24 + (j - 56) = j - 32" by simp_all
  show ?thesis
    using assms(3) unfolding m
    by (cases "j < 16"; cases "j < 32"; cases "j < 40"; cases "j < 48"; cases "j < 56") (auto simp: bit_simps s dest: a l)
qed

lemma tss_fields:
  assumes "n + 1 < length gdt"
  shows "tss_base (set_tss_descriptor gdt n addr) n = addr" "tss_limit (set_tss_descriptor gdt n addr) n = TSS_BYTES"
    "tss_type (set_tss_descriptor gdt n addr) n = 0x89"
proof -
  have T: "TSS_BYTES = 8296" by (simp add: TSS_BYTES_def IOBITMAP_SIZE_def)
  define limit where "limit = (8296 :: u64)"
  define attr where "attr = (0x89 :: u64)"
  define w where "w = limit OR push_bit 16 (addr AND 0xffff) OR push_bit 32 (drop_bit 16 addr AND 0xff) OR push_bit 40 attr OR
      push_bit 56 (drop_bit 24 addr AND 0xff)"
  have lt: "limit < 2 ^ 16" "attr < 2 ^ 8" by (simp_all add: limit_def attr_def)
  have B: "bit w j = (if j < 16 then bit limit j else if j < 40 then bit addr (j - 16) else if j < 48 then bit attr (j - 40)
     else if j < 56 then False else bit addr (j - 32))" if "j < 64" for j
    unfolding w_def by (rule tss_bits [OF lt that])
  have l: "i < 16" if "bit limit i" for i using bit_small [OF _ lt(1), of i] that by (cases "16 \<le> i") auto
  have a: "i < 8" if "bit attr i" for i using bit_small [OF _ lt(2), of i] that by (cases "8 \<le> i") auto
  have w: "set_tss_descriptor gdt n addr ! n = w" "set_tss_descriptor gdt n addr ! (n + 1) = drop_bit 32 addr AND 0xffffffff"
    using assms by (simp_all add: set_tss_descriptor_def T w_def limit_def attr_def)
  have m: "(0xffffffff :: u64) = mask 32" by (simp add: mask_eq_exp_minus_1)
  have at: "bit w (40 + i) = bit attr i" if "i < 8" for i using B [of "40 + i"] that by simp
  show "tss_base (set_tss_descriptor gdt n addr) n = addr"
    unfolding tss_base_def w m
  proof (rule bit_word_eqI)
    fix i assume "i < LENGTH(64)"
    then show "bit (take_bit 16 (drop_bit 16 w) OR push_bit 16 (take_bit 8 (drop_bit 32 w)) OR push_bit 24 (take_bit 8 (drop_bit 56 w)) OR
        push_bit 32 (take_bit 32 (drop_bit 32 addr AND mask 32))) i = bit addr i"
      by (cases "i < 16"; cases "i < 24"; cases "i < 32") (auto simp: bit_simps B)
  qed
  show "tss_limit (set_tss_descriptor gdt n addr) n = TSS_BYTES"
    unfolding tss_limit_def w T limit_def [symmetric]
  proof (rule bit_word_eqI)
    fix i assume "i < LENGTH(64)"
    then show "bit (take_bit 16 w OR push_bit 16 (take_bit 4 (drop_bit 48 w))) i = bit limit i"
      by (cases "i < 16"; cases "i < 20") (auto simp: bit_simps B dest: l)
  qed
  show "tss_type (set_tss_descriptor gdt n addr) n = 0x89"
    unfolding tss_type_def w attr_def [symmetric]
  proof (rule bit_word_eqI)
    fix i show "bit (take_bit 8 (drop_bit 40 w)) i = bit attr i" by (cases "i < 8") (auto simp: bit_simps at dest: a)
  qed
qed

section \<open>Properties\<close>

text \<open>C16: the task state of each of the 64 processors has its own two entries inside the descriptor table. The descriptor written there is
  read by the processor as an available 64-bit task state at exactly the address given; its limit, the largest valid offset, is the size
  of the structure and so one too large. All other entries stay as they are.\<close>

theorem tss_descriptor_slots:
  assumes "length gdt = GDT_ENTRIES" "cpu < MAX_CPU_NUM" "n = 10 + cpu * 2" "g = set_tss_descriptor gdt n addr"
  shows "n + 1 < GDT_ENTRIES \<and> length g = GDT_ENTRIES \<and> tss_base g n = addr \<and> tss_type g n = 0x89 \<and> tss_limit g n = TSS_BYTES \<and>
    (\<forall>i. i \<noteq> n \<longrightarrow> i \<noteq> n + 1 \<longrightarrow> g ! i = gdt ! i)"
proof -
  have n: "n + 1 < GDT_ENTRIES" using assms(2,3) by (simp add: GDT_ENTRIES_def)
  then have "n + 1 < length gdt" using assms(1) by simp
  from tss_fields [OF this, of addr] n show ?thesis
    unfolding assms(4) using assms(1) by (simp add: set_tss_descriptor_def Let_def)
qed

theorem tss_descriptor_slots_witness:
  "tss_base (set_tss_descriptor gdt_table_init 136 0xffffffff80123456) 136 = 0xffffffff80123456 \<and>
   set_tss_descriptor gdt_table_init 136 0xffffffff80123456 ! 4 = 0x00a0fa0000000000"
proof -
  have "length gdt_table_init = GDT_ENTRIES" by (simp add: gdt_table_init_def)
  from tss_descriptor_slots [OF this, of 63 136 _ "0xffffffff80123456", OF _ _ refl]
  show ?thesis by (simp add: MAX_CPU_NUM_def gdt_table_init_def GDT_ENTRIES_def)
qed

definition vector_attr :: "nat \<Rightarrow> u64 option" where
  "vector_attr v = (if v \<in> {3, 4, 5} then Some 0xEF else if v \<in> {2, idx_timer} then Some 0x8E
     else if v \<le> 20 \<and> v \<noteq> 15 then Some 0x8F else None)"

text \<open>C17: after \<open>idt::init\<close> the gate of each exception but 15, and of the timer, leads to its entry point in the kernel's code segment, on the
  current stack, with the type and privilege the code gives it (three exceptions may be raised by user code, two gates close the
  interrupt flag); every other of the 256 vectors has no gate, among them those of the keyboard and the mouse.\<close>

theorem idt_gates:
  assumes "length idt0 = IDT_ENTRIES" "v < IDT_ENTRIES" "idt0 ! v = (0, 0)" "g = idt_table_init entry idt0 ! v"
  shows "case vector_attr v of
      Some a \<Rightarrow> gate_offset g = entry v \<and> gate_selector g = 8 \<and> gate_ist g = 0 \<and> gate_attr g = a
    | None \<Rightarrow> g = (0, 0) \<and> \<not> gate_present g"
proof -
  have len: "length idt0 = 256" "v < 256" using assms(1,2) by (simp_all add: IDT_ENTRIES_def)
  have g: "g = (case vector_attr v of Some a \<Rightarrow> gate_of a 0 (entry v) | None \<Rightarrow> (0, 0))"
    unfolding assms(4) using len assms(3)
    by (auto simp: idt_table_init_def set_trap_gate_def set_intr_gate_def set_system_trap_gate_def set_gate_def Let_def
        vector_attr_def idx_timer_def nth_list_update le_Suc_eq numeral_eq_Suc)
  have "a < 2 ^ 8" if "vector_attr v = Some a" for a using that by (auto simp: vector_attr_def split: if_splits)
  then show ?thesis unfolding g by (auto simp: gate_fields gate_present_def split: option.split)
qed

theorem idt_gates_witness:
  "gate_offset (idt_table_init (\<lambda>v. of_nat (0x1000 * v)) (replicate 256 (0, 0)) ! 14) = 0xe000 \<and>
   \<not> gate_present (idt_table_init (\<lambda>v. of_nat (0x1000 * v)) (replicate 256 (0, 0)) ! idx_keyboard)"
  using idt_gates [of "replicate 256 (0, 0)" 14 _ "\<lambda>v. of_nat (0x1000 * v)", OF _ _ _ refl]
    idt_gates [of "replicate 256 (0, 0)" idx_keyboard _ "\<lambda>v. of_nat (0x1000 * v)", OF _ _ _ refl]
  by (simp add: IDT_ENTRIES_def vector_attr_def idx_keyboard_def idx_timer_def gate_present_def)

end
