(* ===== verification/Device.thy ===== *)
theory Device
  imports KernelRun Descriptor
begin

unbundle bit_operations_syntax

text \<open>
  The machine around the kernel: \<^verbatim>\<open>include/arch/x86_64/io.hpp\<close>, \<^verbatim>\<open>arch/x86_64/hpet.cpp\<close>, \<^verbatim>\<open>arch/x86_64/apic.cpp\<close>, the set-up of the serial port and
  of the system call registers.

  What the kernel does to its devices is a log of accesses: ports, model specific registers and memory-mapped registers, in the order the
  code makes them. The devices are a parameter, \<open>mc_answer\<close>, that gives the value of each read from the log so far; no property of it is
  assumed but what a theorem states. The record \<open>machine\<close> holds the kernel state, the log, the global variables of these
  files, the descriptor tables and the registers that the start-up code loads. A wait that never ends is \<open>None\<close>.
\<close>

section \<open>Accesses\<close>

datatype request = In8 u16 | In16 u16 | In32 u16 | RdMsr u32 | MmioRd32 u64 | MmioRd64 u64

datatype access = Out8 u16 u8 | Out16 u16 u16 | Out32 u16 u32 | WrMsr u32 u64 | MmioWr32 u64 u32 | MmioWr64 u64 u64 | Asked request u64

record machine =
  mc_kernel :: kernel
  mc_log :: "access list"
  mc_answer :: "access list \<Rightarrow> request \<Rightarrow> u64"
  mc_x2apic_mode :: bool
  mc_lapic_address :: u64
  mc_ioapic_address :: u64
  mc_hpet_addr :: u64
  mc_hpet_period :: u32
  mc_cpuid_to_lapicid :: "nat \<Rightarrow> u32"
  mc_ap_initialized :: bool
  mc_ap_goto :: "u32 list"
  mc_xsdt :: u64
  mc_tss :: u64
  mc_gdt_addr :: u64
  mc_idt_addr :: u64
  mc_gdt :: "u64 list"
  mc_idt :: "gate list"
  mc_gdtr :: gdtr
  mc_idtr :: gdtr
  mc_tr :: u64
  mc_cs :: u16
  mc_ds :: u16
  mc_cr0 :: u64
  mc_cr4 :: u64

definition tell :: "access \<Rightarrow> machine \<Rightarrow> machine" where
  "tell a mc = mc\<lparr>mc_log := mc_log mc @ [a]\<rparr>"

definition ask :: "request \<Rightarrow> machine \<Rightarrow> u64 \<times> machine" where
  "ask r mc = (let v = mc_answer mc (mc_log mc) r in (v, tell (Asked r v) mc))"

definition io_out8 :: "u16 \<Rightarrow> u8 \<Rightarrow> machine \<Rightarrow> machine" where
  "io_out8 port v = tell (Out8 port v)"

definition io_in8 :: "u16 \<Rightarrow> machine \<Rightarrow> u8 \<times> machine" where
  "io_in8 port mc = (let (v, mc') = ask (In8 port) mc in (ucast v, mc'))"

definition io_in16 :: "u16 \<Rightarrow> machine \<Rightarrow> u16 \<times> machine" where
  "io_in16 port mc = (let (v, mc') = ask (In16 port) mc in (ucast v, mc'))"

definition io_in32 :: "u16 \<Rightarrow> machine \<Rightarrow> u32 \<times> machine" where
  "io_in32 port mc = (let (v, mc') = ask (In32 port) mc in (ucast v, mc'))"

definition io_out16 :: "u16 \<Rightarrow> u16 \<Rightarrow> machine \<Rightarrow> machine" where
  "io_out16 port v = tell (Out16 port v)"

definition io_out32 :: "u16 \<Rightarrow> u32 \<Rightarrow> machine \<Rightarrow> machine" where
  "io_out32 port v = tell (Out32 port v)"

definition rdmsr :: "u32 \<Rightarrow> machine \<Rightarrow> u64 \<times> machine" where
  "rdmsr msr = ask (RdMsr msr)"

definition wrmsr :: "u32 \<Rightarrow> u64 \<Rightarrow> machine \<Rightarrow> machine" where
  "wrmsr msr v = (let eax = ucast v :: u32; edx = ucast (drop_bit 32 v) :: u32
     in tell (WrMsr msr (push_bit 32 (ucast edx) OR ucast eax)))"

definition mmio_rd32 :: "u64 \<Rightarrow> machine \<Rightarrow> u32 \<times> machine" where
  "mmio_rd32 a mc = (let (v, mc') = ask (MmioRd32 a) mc in (ucast v, mc'))"

definition rd32 :: "mem \<Rightarrow> u64 \<Rightarrow> u32" where
  "rd32 m a = ucast (rd64 m a)"

text \<open>Mapping one page of a device or a table, as several of the files do.\<close>

definition map_page :: "u64 \<Rightarrow> u64 \<Rightarrow> machine \<Rightarrow> machine" where
  "map_page va pa mc =
     (let k = mc_kernel mc;
          (b, m) = page_table_map_range (k_off k) (from_current (k_cr3 k) False) (k_frames k, k_mem k) va pa 1 3
      in mc\<lparr>mc_kernel := set_mem m (k\<lparr>k_frames := b\<rparr>)\<rparr>)"

section \<open>The serial port\<close>

definition SERIAL_PORT :: u16 where "SERIAL_PORT = 0x3F8"

definition debug_init :: "machine \<Rightarrow> machine" where
  "debug_init mc0 =
     (let mc1 = io_out8 (SERIAL_PORT + 1) 0x00 mc0;
          mc2 = io_out8 (SERIAL_PORT + 3) 0x80 mc1;
          mc3 = io_out8 (SERIAL_PORT + 0) 0x03 mc2;
          mc4 = io_out8 (SERIAL_PORT + 1) 0x00 mc3;
          mc5 = io_out8 (SERIAL_PORT + 3) 0x03 mc4;
          mc6 = io_out8 (SERIAL_PORT + 2) 0xC7 mc5;
          mc7 = io_out8 (SERIAL_PORT + 4) 0x0B mc6;
          mc8 = io_out8 (SERIAL_PORT + 4) 0x1E mc7;
          mc9 = io_out8 (SERIAL_PORT + 0) 0xAE mc8;
          (echo, mc10) = io_in8 (SERIAL_PORT + 0) mc9
      in if echo \<noteq> 0xAE then mc10 else io_out8 (SERIAL_PORT + 4) 0x0F mc10)"

section \<open>System call registers\<close>

definition MSR_EFER :: u32 where "MSR_EFER = 0xC0000080"
definition MSR_STAR :: u32 where "MSR_STAR = 0xC0000081"
definition MSR_LSTAR :: u32 where "MSR_LSTAR = 0xC0000082"
definition MSR_SYSCALL_MASK :: u32 where "MSR_SYSCALL_MASK = 0xC0000084"

definition star_value :: u64 where
  "star_value = push_bit 48 ((0x18 OR 0x3) - 8) OR push_bit 32 0x08"

definition syscall_init :: "u64 \<Rightarrow> machine \<Rightarrow> machine" where
  "syscall_init asm_syscall_handler mc0 =
     (let (efer, mc1) = rdmsr MSR_EFER mc0;
          mc2 = wrmsr MSR_EFER (efer OR 1) mc1;
          mc3 = wrmsr MSR_STAR star_value mc2;
          mc4 = wrmsr MSR_LSTAR asm_syscall_handler mc3
      in wrmsr MSR_SYSCALL_MASK (push_bit 9 1) mc4)"

section \<open>The timer of the platform\<close>

text \<open>In \<^verbatim>\<open>hpet_info\<close> the capabilities are at offset 0, the configuration at 16 and the counter at 240.\<close>

definition nano_time :: "machine \<Rightarrow> u64 \<times> machine" where
  "nano_time mc =
     (if mc_hpet_addr mc = 0 then (0, mc)
      else let (mcv, mc') = ask (MmioRd64 (mc_hpet_addr mc + 240)) mc in (mcv * ucast (mc_hpet_period mc), mc'))"

definition hpet_init :: "u64 \<Rightarrow> machine \<Rightarrow> machine" where
  "hpet_init hpet mc0 =
     (let address = rd64 (k_mem (mc_kernel mc0)) (hpet + 44);
          va = phys_to_virt (k_off (mc_kernel mc0)) address;
          mc1 = map_page va address (mc0\<lparr>mc_hpet_addr := va\<rparr>);
          (cap, mc2) = ask (MmioRd64 va) mc1;
          counterClockPeriod = ucast (drop_bit 32 cap) :: u32;
          mc3 = mc2\<lparr>mc_hpet_period := counterClockPeriod div 1000000\<rparr>;
          (conf, mc4) = ask (MmioRd64 (va + 16)) mc3
      in tell (MmioWr64 (va + 16) (conf OR 1)) mc4)"

section \<open>Interrupt controllers\<close>

definition LAPIC_REG_ID :: u32 where "LAPIC_REG_ID = 0x20"
definition LAPIC_REG_TIMER_CURCNT :: u32 where "LAPIC_REG_TIMER_CURCNT = 0x390"
definition LAPIC_REG_TIMER_INITCNT :: u32 where "LAPIC_REG_TIMER_INITCNT = 0x380"
definition LAPIC_REG_TIMER :: u32 where "LAPIC_REG_TIMER = 0x320"
definition LAPIC_REG_SPURIOUS :: u32 where "LAPIC_REG_SPURIOUS = 0xf0"
definition LAPIC_REG_TIMER_DIV :: u32 where "LAPIC_REG_TIMER_DIV = 0x3e0"
definition LAPIC_TIMER_SPEED :: u64 where "LAPIC_TIMER_SPEED = 50"

definition disable_pic :: "machine \<Rightarrow> machine" where
  "disable_pic mc = io_out8 0xa1 0xff (io_out8 0x21 0xff mc)"

definition lapic_write :: "u32 \<Rightarrow> u32 \<Rightarrow> machine \<Rightarrow> machine" where
  "lapic_write r v mc =
     (if mc_x2apic_mode mc then wrmsr (0x800 + drop_bit 4 r) (ucast v) mc
      else tell (MmioWr32 (mc_lapic_address mc + ucast r) v) mc)"

definition lapic_read :: "u32 \<Rightarrow> machine \<Rightarrow> u32 \<times> machine" where
  "lapic_read r mc =
     (if mc_x2apic_mode mc then (let (v, mc') = rdmsr (0x800 + drop_bit 4 r) mc in (ucast v, mc'))
      else mmio_rd32 (mc_lapic_address mc + ucast r) mc)"

definition lapic_id :: "machine \<Rightarrow> u64 \<times> machine" where
  "lapic_id mc = (let (phy_id, mc') = lapic_read LAPIC_REG_ID mc in
     (ucast (if mc_x2apic_mode mc then phy_id else drop_bit 24 phy_id), mc'))"

definition end_of_interrupt :: "machine \<Rightarrow> machine" where
  "end_of_interrupt = lapic_write 0xb0 0"

text \<open>The wait for ten milliseconds.\<close>

partial_function (option) wait_until :: "u64 \<Rightarrow> machine \<Rightarrow> machine option" where
  "wait_until b mc =
     (let r = nano_time mc in if fst r - b \<ge> 10000000 then Some (snd r) else wait_until b (snd r))"

definition local_apic_init :: "u64 \<Rightarrow> machine \<Rightarrow> machine option" where
  "local_apic_init mp_flags mc0 = do {
     let mc1 = mc0\<lparr>mc_x2apic_mode := (mp_flags AND 1 \<noteq> 0)\<rparr>;
     let mc2 = (if mc_x2apic_mode mc1 then (let (v, mc) = rdmsr 0x1b mc1 in wrmsr 0x1b (v OR push_bit 10 1) mc) else mc1);
     let mc3 = lapic_write LAPIC_REG_SPURIOUS (0xff OR push_bit 8 1) mc2;
     let mc4 = lapic_write LAPIC_REG_TIMER (of_nat idx_timer) mc3;
     let mc5 = lapic_write LAPIC_REG_TIMER_DIV 11 mc4;
     let (t, mc6) = lapic_read LAPIC_REG_TIMER mc5;
     let mc7 = lapic_write LAPIC_REG_TIMER (t AND NOT 0x1000) mc6;
     let (b, mc8) = nano_time mc7;
     let mc9 = lapic_write LAPIC_REG_TIMER_INITCNT (NOT 0) mc8;
     mc10 \<leftarrow> wait_until b mc9;
     let (cur, mc11) = lapic_read LAPIC_REG_TIMER_CURCNT mc10;
     let lapic_timer = (ucast (NOT (0 :: u32) - cur) :: u64);
     let calibrated_timer_initial = (lapic_timer * 1000) div LAPIC_TIMER_SPEED;
     let (t2, mc12) = lapic_read LAPIC_REG_TIMER mc11;
     let mc13 = lapic_write LAPIC_REG_TIMER (t2 OR push_bit 17 1) mc12;
     Some (lapic_write LAPIC_REG_TIMER_INITCNT (ucast calibrated_timer_initial) mc13) }"

definition ioapic_write :: "u32 \<Rightarrow> u32 \<Rightarrow> machine \<Rightarrow> machine" where
  "ioapic_write r v mc =
     tell (MmioWr32 (mc_ioapic_address mc + 0x10) v) (tell (MmioWr32 (mc_ioapic_address mc) r) mc)"

definition ioapic_read :: "u32 \<Rightarrow> machine \<Rightarrow> u32 \<times> machine" where
  "ioapic_read r mc = mmio_rd32 (mc_ioapic_address mc + 0x10) (tell (MmioWr32 (mc_ioapic_address mc) r) mc)"

definition ioapic_add :: "u8 \<Rightarrow> u32 \<Rightarrow> machine \<Rightarrow> machine" where
  "ioapic_add vector irq mc =
     (let ioredtbl = 0x10 + irq * 2;
          (id, mc1) = lapic_id mc;
          redirect = ucast vector OR push_bit 56 id :: u64;
          mc2 = ioapic_write ioredtbl (ucast redirect) mc1
      in ioapic_write (ioredtbl + 1) (ucast (drop_bit 32 redirect)) mc2)"

text \<open>The vector is an \<^verbatim>\<open>int\<close> when it is scaled.\<close>

definition ioapic_enable :: "u8 \<Rightarrow> machine \<Rightarrow> machine" where
  "ioapic_enable vector mc =
     (let index = of_int (0x10 + (uint vector - 32) * 2) :: u64;
          (hi, mc1) = ioapic_read (ucast (index + 1)) mc;
          (lo, mc2) = ioapic_read (ucast index) mc1;
          v = (push_bit 32 (ucast hi) OR ucast lo) AND NOT 0x10000 :: u64;
          mc3 = ioapic_write (ucast index) (ucast (v AND 0xFFFFFFFF)) mc2
      in ioapic_write (ucast (index + 1)) (ucast (drop_bit 32 v)) mc3)"

definition io_apic_init :: "machine \<Rightarrow> machine" where
  "io_apic_init mc0 =
     (let va = phys_to_virt (k_off (mc_kernel mc0)) (mc_ioapic_address mc0);
          mc1 = (map_page va (mc_ioapic_address mc0) mc0)\<lparr>mc_ioapic_address := va\<rparr>;
          mc2 = ioapic_add (of_nat idx_timer) 0 mc1;
          mc3 = ioapic_enable (of_nat idx_timer) mc2;
          mc4 = ioapic_add (of_nat idx_keyboard) 1 mc3;
          mc5 = ioapic_enable (of_nat idx_keyboard) mc4;
          mc6 = ioapic_add (of_nat idx_mouse) 12 mc5
      in ioapic_enable (of_nat idx_mouse) mc6)"

text \<open>Only the low sixteen bits of the control registers are touched.\<close>

definition sse_init :: "machine \<Rightarrow> machine" where
  "sse_init mc = mc\<lparr>mc_cr0 := (mc_cr0 mc AND NOT 0xc) OR 0x2, mc_cr4 := mc_cr4 mc OR push_bit 9 3\<rparr>"

section \<open>Processors\<close>

definition get_cpuid_by_lapic_id :: "u32 \<Rightarrow> machine \<Rightarrow> (u32 \<times> machine) option" where
  "get_cpuid_by_lapic_id lid mc =
     (case List.find (\<lambda>i. mc_cpuid_to_lapicid mc i = lid) [0..<unat (k_cpu_count (mc_kernel mc))] of
        Some i \<Rightarrow> Some (of_nat i, mc)
      | None \<Rightarrow> map_option (\<lambda>(_, k). (0, mc\<lparr>mc_kernel := k\<rparr>))
          (printk (''Cannot get cpu id, lapic id = %d'' @ [CHR 0x0a]) [ucast lid] (mc_kernel mc)))"

definition get_current_cpu_id :: "machine \<Rightarrow> (u32 \<times> machine) option" where
  "get_current_cpu_id mc = (let (id, mc1) = lapic_id mc in get_cpuid_by_lapic_id (ucast id) mc1)"

text \<open>A processor's task segment is both the memory the processor reads and, in the kernel state, the stack that a thread switch sets.\<close>

definition tss_init :: "machine \<Rightarrow> machine option" where
  "tss_init mc0 = do {
     let k0 = mc_kernel mc0;
     let (frames, m0) = alloc_frames (k_frames k0) (k_mem k0) (kThreadStackSize div PAGE_SIZE);
     let sp = phys_to_virt (k_off k0) frames + kThreadStackSize;
     (cpu1, mc1) \<leftarrow> get_current_cpu_id (mc0\<lparr>mc_kernel := set_mem m0 k0\<rparr>);
     let offset = 10 + unat cpu1 * 2;
     (cpu2, mc2) \<leftarrow> get_current_cpu_id mc1;
     let m2 = set_tss64 (k_mem (mc_kernel mc2)) (mc_tss mc2 + ucast cpu2 * TSS_BYTES) sp sp sp sp sp sp sp sp sp sp;
     let k2 = set_mem m2 (mc_kernel mc2);
     let mc2' = mc2\<lparr>mc_kernel := k2\<lparr>k_tss_rsp0 := (k_tss_rsp0 k2)(ucast cpu2 := sp)\<rparr>\<rparr>;
     (cpu3, mc3) \<leftarrow> get_current_cpu_id mc2';
     Some (mc3\<lparr>mc_gdt := set_tss_descriptor (mc_gdt mc3) offset (mc_tss mc3 + ucast cpu3 * TSS_BYTES),
               mc_tr := of_nat offset * 8\<rparr>) }"

text \<open>What the boot loader says of the processors: their number in the platform's tables and the identity of their interrupt controller.\<close>

record mp_info =
  mp_processors :: "(u32 \<times> u32) list"
  mp_bsp_lapic_id :: u32
  mp_flags :: u64

definition smp_init :: "mp_info \<Rightarrow> machine \<Rightarrow> machine" where
  "smp_init mp mc0 =
     (let mc1 = mc0\<lparr>mc_kernel := (mc_kernel mc0)\<lparr>k_cpu_count := of_nat (length (mp_processors mp))\<rparr>\<rparr>;
          mc2 = fold (\<lambda>(processor_id, lid) mc.
            let mc' = mc\<lparr>mc_cpuid_to_lapicid := (mc_cpuid_to_lapicid mc)(unat processor_id := lid)\<rparr>
            in if lid = mp_bsp_lapic_id mp then mc' else mc'\<lparr>mc_ap_goto := mc_ap_goto mc' @ [lid]\<rparr>)
            (mp_processors mp) mc1
      in mc2\<lparr>mc_ap_initialized := True\<rparr>)"

end
