(* ===== verification/Platform.thy ===== *)
theory Platform
  imports Device
begin

unbundle bit_operations_syntax

text \<open>
  Start-up: \<^verbatim>\<open>arch/x86_64/acpi.cpp\<close>, \<^verbatim>\<open>apic_table::init\<close>, \<^verbatim>\<open>arch/x86_64/arch.cpp\<close> and \<open>kmain\<close> of \<^verbatim>\<open>main.cpp\<close>.

  The platform's tables are memory, read at the offsets of the packed structures of \<^verbatim>\<open>acpi.hpp\<close>. What the boot loader and the
  assembly files provide is the record \<open>boot_info\<close>. \<open>kmain\<close> puts the components together in the order the code does; its result is
  the machine in the endless halt, or \<open>None\<close> when a step does not end.
\<close>

section \<open>The tables of the platform\<close>

text \<open>A table starts with a header of 36 bytes: the signature at offset 0, the length at 4.\<close>

definition find_table :: "u8 list \<Rightarrow> machine \<Rightarrow> u64 \<times> machine" where
  "find_table name mc =
     (let x = mc_xsdt mc;
          entry_count = (rd32 (k_mem (mc_kernel mc)) (x + 4) - 32) div 8;
          t = x + 36
      in case for_ret 0 (ucast entry_count) (\<lambda>i mc.
             let phys = rd64 (k_mem (mc_kernel mc)) (t + i * 8);
                 ptr = phys_to_virt (k_off (mc_kernel mc)) phys;
                 mc' = map_page ptr phys mc;
                 signa = map (\<lambda>j. k_mem (mc_kernel mc') (ptr + of_nat j)) [0..<4]
             in if signa = name then Inl (ptr, mc') else Inr mc') mc of
           Inl r \<Rightarrow> r
         | Inr mc' \<Rightarrow> (0, mc'))"

definition MADT_APIC_IO :: u8 where "MADT_APIC_IO = 1"

text \<open>In \<^verbatim>\<open>madt\<close> the address of the local controller is at offset 36 and the entries start at 44; the structure is declared with 52
  bytes. An entry starts with its type and its length; the one of an input/output controller has its address at offset 4.\<close>

definition MADT_BYTES :: u64 where "MADT_BYTES = 52"

partial_function (option) madt_scan :: "mem \<Rightarrow> u64 \<Rightarrow> u64 \<Rightarrow> u64 option option" where
  "madt_scan m madt current =
     (if current + (MADT_BYTES - 1) \<ge> ucast (rd32 m (madt + 4)) then Some None
      else
        let header = madt + 44 + current in
        if m header = MADT_APIC_IO then Some (Some (ucast (rd32 m (header + 4))))
        else madt_scan m madt (current + ucast (m (header + 1))))"

definition apic_init :: "mp_info \<Rightarrow> u64 \<Rightarrow> machine \<Rightarrow> machine option" where
  "apic_init mp madt mc0 = do {
     let phys = (ucast (rd32 (k_mem (mc_kernel mc0)) (madt + 36)) :: u64);
     let va = phys_to_virt (k_off (mc_kernel mc0)) phys;
     let mc1 = map_page va phys (mc0\<lparr>mc_lapic_address := va\<rparr>);
     found \<leftarrow> madt_scan (k_mem (mc_kernel mc1)) madt 0;
     let mc2 = (case found of None \<Rightarrow> mc1 | Some a \<Rightarrow> mc1\<lparr>mc_ioapic_address := a\<rparr>);
     let mc3 = disable_pic (sse_init mc2);
     mc4 \<leftarrow> local_apic_init (mp_flags mp) mc3;
     tss_init (smp_init mp (io_apic_init mc4)) }"

record boot_info =
  bi_supported :: bool
  bi_init_array :: "(machine \<Rightarrow> machine) list"
  bi_hhdm_offset :: u64
  bi_memmap :: "memmap_entry list"
  bi_rsdp :: u64
  bi_mp :: mp_info
  bi_entry :: "nat \<Rightarrow> u64"
  bi_asm_syscall_handler :: u64
  bi_idle_entry :: u64
  bi_init_entry :: u64

definition HPET_SIGNATURE :: "u8 list" where "HPET_SIGNATURE = map of_char ''HPET''"
definition APIC_SIGNATURE :: "u8 list" where "APIC_SIGNATURE = map of_char ''APIC''"

definition acpi_init :: "boot_info \<Rightarrow> machine \<Rightarrow> machine option" where
  "acpi_init bi mc0 =
     (let off = k_off (mc_kernel mc0);
          p = phys_to_virt off (bi_rsdp bi);
          mc1 = map_page p (bi_rsdp bi) mc0;
          xsdt_address = rd64 (k_mem (mc_kernel mc1)) (p + 24)
      in if xsdt_address = 0 then Some mc1
         else
           let xsdt = phys_to_virt off xsdt_address;
               mc2 = (map_page xsdt xsdt_address mc1)\<lparr>mc_xsdt := xsdt\<rparr>;
               (hpet, mc3) = find_table HPET_SIGNATURE mc2
           in if hpet = 0 then Some mc3
              else
                let (madt, mc4) = find_table APIC_SIGNATURE (hpet_init hpet mc3)
                in if madt = 0 then Some mc4 else apic_init (bi_mp bi) madt mc4)"

definition gdt_init :: "machine \<Rightarrow> machine" where
  "gdt_init mc = mc\<lparr>mc_gdt := gdt_table_init, mc_gdtr := gdt_pointer (mc_gdt_addr mc), mc_cs := 0x8, mc_ds := 0x10\<rparr>"

definition idt_init :: "(nat \<Rightarrow> u64) \<Rightarrow> machine \<Rightarrow> machine" where
  "idt_init entry mc = mc\<lparr>mc_idt := idt_table_init entry (mc_idt mc), mc_idtr := idt_pointer (mc_idt_addr mc)\<rparr>"

text \<open>Another processor only loads the two tables.\<close>

definition gdt_init_ap :: "machine \<Rightarrow> machine" where
  "gdt_init_ap mc = mc\<lparr>mc_gdtr := gdt_pointer (mc_gdt_addr mc), mc_cs := 0x8, mc_ds := 0x10\<rparr>"

definition idt_init_ap :: "machine \<Rightarrow> machine" where
  "idt_init_ap mc = mc\<lparr>mc_idtr := idt_pointer (mc_idt_addr mc)\<rparr>"

definition arch_init :: "boot_info \<Rightarrow> machine \<Rightarrow> machine option" where
  "arch_init bi mc = acpi_init bi (idt_init (bi_entry bi) (gdt_init mc))"

section \<open>Other processors\<close>

text \<open>Another processor first waits for \<^verbatim>\<open>ap_initialized\<close> and, once it is set up, for \<^verbatim>\<open>thread_initialized\<close>. The start is cut at
  the second wait: \<open>ap_entry\<close> is what comes before it, and \<open>ap_idle\<close> what comes after it, on the state that the first processor has made by then.\<close>

definition ap_entry :: "u64 \<Rightarrow> u32 \<Rightarrow> machine \<Rightarrow> machine option" where
  "ap_entry flags processor_id mc0 =
     (if \<not> mc_ap_initialized mc0 then None
      else do {
        mc1 \<leftarrow> tss_init (idt_init_ap (gdt_init_ap (sse_init mc0)));
        (_, k) \<leftarrow> printk (''AP %d starting'' @ [CHR 0x0a]) [ucast processor_id] (mc_kernel mc1);
        local_apic_init flags (mc1\<lparr>mc_kernel := k\<rparr>) })"

definition ap_idle :: "u32 \<Rightarrow> machine \<Rightarrow> machine" where
  "ap_idle processor_id mc =
     (let k = mc_kernel mc in mc\<lparr>mc_kernel := set_current_thread (k_idle_threads k (unat processor_id)) k\<rparr>)"

section \<open>Starting the kernel\<close>

definition on_kernel :: "(kernel \<Rightarrow> kernel option) \<Rightarrow> machine \<Rightarrow> machine option" where
  "on_kernel f mc = map_option (\<lambda>k. mc\<lparr>mc_kernel := k\<rparr>) (f (mc_kernel mc))"

definition hhdm_init :: "boot_info \<Rightarrow> kernel \<Rightarrow> kernel" where
  "hhdm_init bi k = k\<lparr>k_off := bi_hhdm_offset bi\<rparr>"

definition start_frames :: "boot_info \<Rightarrow> kernel \<Rightarrow> kernel option" where
  "start_frames bi k =
     map_option (\<lambda>(b, m). set_mem m (k\<lparr>k_frames := b\<rparr>)) (frame_init (k_off k) (bi_memmap bi) (k_mem k))"

definition heap_init :: "kernel \<Rightarrow> kernel option" where
  "heap_init k = (let (b, h) = init_heap (k_off k) (k_cr3 k) (k_frames k) (k_heap k)
     in Some (k\<lparr>k_frames := b, k_heap := h\<rparr>))"

definition kmain :: "boot_info \<Rightarrow> machine \<Rightarrow> machine option" where
  "kmain bi mc0 =
     (if \<not> bi_supported bi then Some mc0
      else do {
        let mc = fold (\<lambda>f. f) (bi_init_array bi) mc0;
        mc1 \<leftarrow> on_kernel (\<lambda>k. start_frames bi (hhdm_init bi k)) mc;
        mc2 \<leftarrow> arch_init bi (debug_init mc1);
        mc3 \<leftarrow> on_kernel heap_init mc2;
        on_kernel (thread_init (bi_idle_entry bi) (bi_init_entry bi)) (syscall_init (bi_asm_syscall_handler bi) mc3) })"

text \<open>The body of the first thread, before it halts.\<close>

definition init_entry :: "kernel \<Rightarrow> kernel option" where
  "init_entry k = map_option snd (printk (''init thread is running!!!'' @ [CHR 0x0a]) [] k)"

end
