(* ===== verification/PlatformProps.thy ===== *)
theory PlatformProps
  imports Platform
begin

unbundle bit_operations_syntax

text \<open>
  What the start-up code achieves, and what it depends on: the search of the interrupt controller in the platform's tables, the wait that
  measures the local timer, the programming of the interrupt controller and the selectors of the system call instruction.
\<close>

section \<open>The entries of the interrupt table\<close>

text \<open>A table in order: entries of type and length, each at least its own header long, one after the other.\<close>

fun laid :: "mem \<Rightarrow> u64 \<Rightarrow> nat \<Rightarrow> (u8 \<times> u8) list \<Rightarrow> bool" where
  "laid m p off [] = True"
| "laid m p off (e # es) = (m (p + of_nat off) = fst e \<and> m (p + of_nat off + 1) = snd e \<and> 2 \<le> unat (snd e) \<and>
     (fst e = MADT_APIC_IO \<longrightarrow> 8 \<le> unat (snd e)) \<and> laid m p (off + unat (snd e)) es)"

fun bytes_of :: "(u8 \<times> u8) list \<Rightarrow> nat" where
  "bytes_of [] = 0"
| "bytes_of (e # es) = unat (snd e) + bytes_of es"

text \<open>The offset of the first controller.\<close>

fun first_io :: "nat \<Rightarrow> (u8 \<times> u8) list \<Rightarrow> nat option" where
  "first_io off [] = None"
| "first_io off (e # es) = (if fst e = MADT_APIC_IO then Some off else first_io (off + unat (snd e)) es)"

lemma first_io_end: "laid m p off es \<Longrightarrow> bytes_of es < 8 \<Longrightarrow> first_io off es = None"
  by (induction es arbitrary: off) auto

lemma unat_u32_u64: "unat (ucast (w :: u32) :: u64) = unat w"
  using unsigned_less [of w, where ?'a = nat] by (simp add: unsigned_ucast_eq take_bit_nat_eq_self_iff)

lemma madt_scan_step:
  assumes "\<not> current + (MADT_BYTES - 1) \<ge> ucast (rd32 m (madt + 4))" "m (madt + 44 + current) = t" "m (madt + 44 + current + 1) = l"
  shows "madt_scan m madt current =
    (if t = MADT_APIC_IO then Some (Some (ucast (rd32 m (madt + 44 + current + 4)))) else madt_scan m madt (current + ucast l))"
  using assms by (subst madt_scan.simps) (simp only: Let_def if_False)

lemma madt_scan_laid:
  assumes "laid m (madt + 44) off es" "unat (rd32 m (madt + 4)) = 44 + off + bytes_of es"
  shows "madt_scan m madt (of_nat off) =
    Some (map_option (\<lambda>o1. ucast (rd32 m (madt + 44 + of_nat o1 + 4))) (first_io off es))"
  using assms
proof (induction es arbitrary: off)
  case (Cons e es)
  let ?n = "unat (rd32 m (madt + 4))"
  have n: "?n < 2 ^ 32" using unsigned_less [of "rd32 m (madt + 4)"] by simp
  have off: "off < 2 ^ 32" "of_nat off + (MADT_BYTES - 1) = (of_nat (off + 51) :: u64)"
    using n Cons.prems(2) by (simp_all add: MADT_BYTES_def)
  have u: "unat (of_nat (off + 51) :: u64) = off + 51" by (rule unat_of_nat64) (use off in simp)
  have "unat (ucast (rd32 m (madt + 4)) :: u64) = ?n" by (rule unat_u32_u64)
  then have stop: "(of_nat off + (MADT_BYTES - 1) \<ge> (ucast (rd32 m (madt + 4)) :: u64)) = (?n \<le> off + 51)"
    unfolding off(2) word_le_nat_alt u by simp
  show ?case
  proof (cases "?n \<le> off + 51")
    case True
    then have "bytes_of (e # es) < 8" using Cons.prems(2) by simp
    from first_io_end [OF Cons.prems(1) this] show ?thesis
      by (subst madt_scan.simps) (simp add: stop True)
  next
    case False
    have h: "m (madt + 44 + of_nat off) = fst e" "m (madt + 44 + of_nat off + 1) = snd e" "laid m (madt + 44) (off + unat (snd e)) es"
      using Cons.prems(1) by simp_all
    have nx: "of_nat off + ucast (snd e) = (of_nat (off + unat (snd e)) :: u64)"
      by (simp add: word_unat_eq_iff unsigned_ucast_eq unat_of_nat unat_word_ariths)
    have "madt_scan m madt (of_nat (off + unat (snd e))) =
        Some (map_option (\<lambda>o1. ucast (rd32 m (madt + 44 + of_nat o1 + 4))) (first_io (off + unat (snd e)) es))"
      by (rule Cons.IH [OF h(3)]) (use Cons.prems(2) in simp)
    moreover have "\<not> of_nat off + (MADT_BYTES - 1) \<ge> (ucast (rd32 m (madt + 4)) :: u64)" using stop False by simp
    from madt_scan_step [OF this h(1,2)]
    have "madt_scan m madt (of_nat off) = (if fst e = MADT_APIC_IO then Some (Some (ucast (rd32 m (madt + 44 + of_nat off + 4))))
        else madt_scan m madt (of_nat (off + unat (snd e))))" by (simp only: nx)
    ultimately show ?thesis by simp
  qed
next
  case Nil
  have n: "unat (rd32 m (madt + 4)) < 2 ^ 32" using unsigned_less [of "rd32 m (madt + 4)"] by simp
  have u: "unat (of_nat (off + 51) :: u64) = off + 51" by (rule unat_of_nat64) (use n Nil in simp)
  have "of_nat off + (MADT_BYTES - 1) = (of_nat (off + 51) :: u64)" by (simp add: MADT_BYTES_def)
  moreover have "unat (ucast (rd32 m (madt + 4)) :: u64) = unat (rd32 m (madt + 4))"
    by (rule unat_u32_u64)
  ultimately have "of_nat off + (MADT_BYTES - 1) \<ge> (ucast (rd32 m (madt + 4)) :: u64)"
    using Nil u by (simp add: word_le_nat_alt del: of_nat_add)
  then show ?case by (subst madt_scan.simps) simp
qed

lemma madt_zero_length:
  assumes "m (madt + 44 + current) \<noteq> MADT_APIC_IO" "m (madt + 44 + current + 1) = 0"
    "\<not> current + (MADT_BYTES - 1) \<ge> ucast (rd32 m (madt + 4))"
  shows "madt_scan m madt current = None"
proof -
  have "c = current \<longrightarrow> m' \<noteq> m \<or> d \<noteq> madt" if "madt_scan m' d c = Some y" for m' d c y
  proof (rule madt_scan.raw_induct [of "\<lambda>m1 d c y. c = current \<longrightarrow> m1 \<noteq> m \<or> d \<noteq> madt", OF _ that], goal_cases)
    case (1 scan m' d c y)
    show ?case
    proof (rule ccontr)
      assume c: "\<not> (c = current \<longrightarrow> m' \<noteq> m \<or> d \<noteq> madt)"
      then have "scan m madt current = Some y" using 1(2) assms by (simp add: Let_def)
      then show False using 1(1) by blast
    qed
  qed
  then show ?thesis by (metis not_None_eq)
qed

text \<open>C33: The search for the interrupt controller in the platform's table ends, for a table whose entries are laid one after the other and fill the
  length it states, and finds the address in the first entry of the controller's type; when there is none it finds nothing.\<close>

theorem madt_scan_first:
  assumes "laid m (madt + 44) 0 es" "unat (rd32 m (madt + 4)) = 44 + bytes_of es"
  shows "madt_scan m madt 0 = Some (map_option (\<lambda>o1. ucast (rd32 m (madt + 44 + of_nat o1 + 4))) (first_io 0 es))"
  using madt_scan_laid [of m madt 0 es] assms by simp

definition demo_madt :: mem where
  "demo_madt = (\<lambda>_. 0)(4 := 64, 45 := 8, 52 := 1, 53 := 12, 58 := 0xC0, 59 := 0xFE)"

theorem madt_scan_first_witness: "madt_scan demo_madt 0 0 = Some (Some 0xFEC00000)"
proof -
  have "laid demo_madt (0 + 44) 0 [(0, 8), (1, 12)]" by (simp add: demo_madt_def MADT_APIC_IO_def)
  moreover have "unat (rd32 demo_madt (0 + 4)) = 44 + bytes_of [(0, 8), (1, 12)]"
    by (simp add: demo_madt_def rd32_def rd64_def upt_rec)
  ultimately have "madt_scan demo_madt 0 0 =
      Some (map_option (\<lambda>o1. ucast (rd32 demo_madt (0 + 44 + of_nat o1 + 4))) (first_io 0 [(0, 8), (1, 12)]))"
    by (rule madt_scan_first)
  then show ?thesis by (simp add: MADT_APIC_IO_def demo_madt_def rd32_def rd64_def upt_rec)
qed

section \<open>The wait that measures the local timer\<close>

text \<open>The machine after \<open>n\<close> readings of the clock.\<close>

definition polled :: "nat \<Rightarrow> machine \<Rightarrow> machine" where
  "polled n = (\<lambda>mc. snd (nano_time mc)) ^^ n"

lemma polled_simps: "polled 0 mc = mc" "polled (Suc n) mc = polled n (snd (nano_time mc))"
  unfolding polled_def funpow_Suc_right by simp_all

definition waited :: "u64 \<Rightarrow> machine \<Rightarrow> bool" where
  "waited b mc \<longleftrightarrow> fst (nano_time mc) - b \<ge> 10000000"

lemma wait_ends: "waited b (polled n mc) \<Longrightarrow> \<exists>mc'. wait_until b mc = Some mc'"
proof (induction n arbitrary: mc)
  case 0
  then show ?case by (subst wait_until.simps) (simp add: polled_simps waited_def Let_def)
next
  case (Suc n)
  then obtain mc' where "wait_until b (snd (nano_time mc)) = Some mc'" by (auto simp: polled_simps)
  then show ?case by (subst wait_until.simps) (simp add: Let_def)
qed

lemma wait_result:
  assumes "wait_until b mc = Some mc'"
  shows "\<exists>n. waited b (polled n mc) \<and> mc' = polled (Suc n) mc"
proof (rule wait_until.raw_induct [of "\<lambda>b mc mc'. \<exists>n. waited b (polled n mc) \<and> mc' = polled (Suc n) mc", OF _ assms], goal_cases)
  case (1 wait b mc mc')
  show ?case
  proof (cases "waited b mc")
    case True
    then show ?thesis using 1(2) by (intro exI [of _ 0]) (simp add: polled_simps waited_def Let_def)
  next
    case False
    then obtain n where "waited b (polled n (snd (nano_time mc)))" "mc' = polled (Suc n) (snd (nano_time mc))"
      using 1 by (fastforce simp: waited_def Let_def)
    then show ?thesis by (intro exI [of _ "Suc n"]) (simp add: polled_simps)
  qed
qed

text \<open>The wait of ten milliseconds in the timer's calibration returns exactly when some later reading of the clock, from wherever the devices'
  answers lead, is at least ten million nanoseconds past the first one, modulo the width of the counter; nothing else ends it.\<close>

lemma calibration_ends_iff:
  "(\<exists>mc'. wait_until b mc = Some mc') = (\<exists>n. fst (nano_time (polled n mc)) - b \<ge> 10000000)"
  using wait_ends wait_result unfolding waited_def by blast

text \<open>Without a working clock the calibration does not end: when there is no counter, or when its period, cut to whole nanoseconds, is zero.\<close>

lemma stopped_clock:
  assumes "mc_hpet_addr mc = 0 \<or> mc_hpet_period mc = 0"
  shows "fst (nano_time mc) = 0" "mc_hpet_addr (snd (nano_time mc)) = mc_hpet_addr mc" "mc_hpet_period (snd (nano_time mc)) = mc_hpet_period mc"
  using assms by (auto simp: nano_time_def ask_def tell_def Let_def)

lemma stopped_polled:
  "mc_hpet_addr mc = 0 \<or> mc_hpet_period mc = 0 \<Longrightarrow> mc_hpet_addr (polled n mc) = 0 \<or> mc_hpet_period (polled n mc) = 0"
  by (induction n arbitrary: mc) (auto simp: polled_simps stopped_clock)

lemma wait_stopped:
  assumes "mc_hpet_addr mc = 0 \<or> mc_hpet_period mc = 0"
  shows "wait_until 0 mc = None"
proof (cases "wait_until 0 mc")
  case (Some mc')
  then obtain n where "waited 0 (polled n mc)" using wait_result by blast
  then show ?thesis using stopped_clock(1) [OF stopped_polled [OF assms, of n]] by (simp add: waited_def)
qed

lemma clock_frame [simp]:
  "mc_hpet_addr (tell a mc) = mc_hpet_addr mc" "mc_hpet_period (tell a mc) = mc_hpet_period mc"
  "mc_hpet_addr (wrmsr i v mc) = mc_hpet_addr mc" "mc_hpet_period (wrmsr i v mc) = mc_hpet_period mc"
  "mc_hpet_addr (lapic_write r u mc) = mc_hpet_addr mc" "mc_hpet_period (lapic_write r u mc) = mc_hpet_period mc"
  "mc_hpet_addr (snd (rdmsr i mc)) = mc_hpet_addr mc" "mc_hpet_period (snd (rdmsr i mc)) = mc_hpet_period mc"
  "mc_hpet_addr (snd (lapic_read r mc)) = mc_hpet_addr mc" "mc_hpet_period (snd (lapic_read r mc)) = mc_hpet_period mc"
  by (simp_all add: tell_def wrmsr_def lapic_write_def lapic_read_def rdmsr_def ask_def mmio_rd32_def Let_def split_beta)

text \<open>C38: Without a working clock the set-up of the local interrupt controller never returns: when the address of the counter is null, or when its
  period, which is cut to whole nanoseconds, is zero, as for every counter faster than a gigahertz.\<close>

theorem local_apic_needs_clock:
  assumes "mc_hpet_addr mc = 0 \<or> mc_hpet_period mc = 0"
  shows "local_apic_init flags mc = None"
proof -
  have z: "fst (nano_time mc') = 0" "mc_hpet_addr (snd (nano_time mc')) = 0 \<or> mc_hpet_period (snd (nano_time mc')) = 0"
    if "mc_hpet_addr mc' = 0 \<or> mc_hpet_period mc' = 0" for mc'
    using stopped_clock [OF that] that by auto
  show ?thesis unfolding local_apic_init_def Let_def split_beta
    by (subst z(1), use assms in simp, subst wait_stopped, use z(2) assms in simp_all)
qed

definition demo_machine :: machine where
  "demo_machine = \<lparr>mc_kernel = demo_socket, mc_log = [], mc_answer = (\<lambda>_ _. 0), mc_x2apic_mode = False, mc_lapic_address = 0xFEE00000,
     mc_ioapic_address = 0xFEC00000, mc_hpet_addr = 0xFED00000, mc_hpet_period = 0, mc_cpuid_to_lapicid = (\<lambda>_. 0),
     mc_ap_initialized = False, mc_ap_goto = [], mc_xsdt = 0, mc_tss = 0, mc_gdt_addr = 0, mc_idt_addr = 0,
     mc_gdt = [], mc_idt = [], mc_gdtr = \<lparr>dt_limit = 0, dt_pointer = 0\<rparr>, mc_idtr = \<lparr>dt_limit = 0, dt_pointer = 0\<rparr>,
     mc_tr = 0, mc_cs = 0, mc_ds = 0, mc_cr0 = 0, mc_cr4 = 0\<rparr>"

theorem local_apic_needs_clock_witness: "local_apic_init 1 demo_machine = None"
  by (rule local_apic_needs_clock) (simp add: demo_machine_def)

section \<open>Routing of the external interrupts\<close>

text \<open>The registers of the input/output controller at \<open>va\<close> that a log programs: a selection followed by a data write.\<close>

fun programmed :: "u64 \<Rightarrow> access list \<Rightarrow> (u32 \<times> u32) list" where
  "programmed va (MmioWr32 a r # MmioWr32 d v # es) =
     (if a = va \<and> d = va + 0x10 then (r, v) # programmed va es else programmed va (MmioWr32 d v # es))"
| "programmed va (_ # es) = programmed va es"
| "programmed va [] = []"

lemma programmed_pair [simp]: "programmed va (MmioWr32 va r # MmioWr32 (va + 16) v # es) = (r, v) # programmed va es"
  by simp

lemma lapic_id_steps:
  obtains q v where "mc_log (snd (lapic_id mc)) = mc_log mc @ [Asked q v]" "mc_ioapic_address (snd (lapic_id mc)) = mc_ioapic_address mc"
  by (cases "mc_x2apic_mode mc")
    (auto simp: lapic_id_def lapic_read_def mmio_rd32_def rdmsr_def ask_def tell_def Let_def split_beta)

lemma low_redirect: "(ucast (ucast (w :: u8) OR push_bit 56 i :: u64) :: u32) = ucast w"
  by (rule bit_word_eqI) (auto simp: bit_simps)

lemma ioapic_add_steps:
  obtains q a w where "mc_log (ioapic_add vec irq mc) = mc_log mc @ [Asked q a, MmioWr32 (mc_ioapic_address mc) (0x10 + irq * 2),
      MmioWr32 (mc_ioapic_address mc + 16) (ucast vec), MmioWr32 (mc_ioapic_address mc) (0x10 + irq * 2 + 1),
      MmioWr32 (mc_ioapic_address mc + 16) w]"
    "mc_ioapic_address (ioapic_add vec irq mc) = mc_ioapic_address mc"
proof -
  obtain q v where "mc_log (snd (lapic_id mc)) = mc_log mc @ [Asked q v]" "mc_ioapic_address (snd (lapic_id mc)) = mc_ioapic_address mc"
    by (rule lapic_id_steps)
  then show ?thesis
    by (intro that) (simp_all add: ioapic_add_def ioapic_write_def tell_def Let_def split_beta low_redirect)
qed

lemma unmasked: "\<not> bit (ucast (((hi OR lo) AND NOT 0x10000) AND 0xFFFFFFFF :: u64) :: u32) 16"
  by (simp add: bit_simps)

lemma ioapic_read_steps:
  "ioapic_read r mc = (v, mc') \<Longrightarrow> \<exists>a. mc_log mc' = mc_log mc @ [MmioWr32 (mc_ioapic_address mc) r, Asked (MmioRd32 (mc_ioapic_address mc + 16)) a]
     \<and> mc_ioapic_address mc' = mc_ioapic_address mc"
  by (auto simp: ioapic_read_def mmio_rd32_def ask_def tell_def Let_def)

lemma ioapic_enable_steps:
  assumes "i = of_int (0x10 + (uint vec - 32) * 2)"
  obtains a1 a2 v w where
    "mc_log (ioapic_enable vec mc) = mc_log mc @ [MmioWr32 (mc_ioapic_address mc) (ucast (i + 1 :: u64)),
      Asked (MmioRd32 (mc_ioapic_address mc + 16)) a1, MmioWr32 (mc_ioapic_address mc) (ucast i),
      Asked (MmioRd32 (mc_ioapic_address mc + 16)) a2, MmioWr32 (mc_ioapic_address mc) (ucast i),
      MmioWr32 (mc_ioapic_address mc + 16) v, MmioWr32 (mc_ioapic_address mc) (ucast (i + 1)), MmioWr32 (mc_ioapic_address mc + 16) w]"
    "\<not> bit v 16" "mc_ioapic_address (ioapic_enable vec mc) = mc_ioapic_address mc"
proof -
  obtain hi mc1 lo mc2 where r: "ioapic_read (ucast (i + 1)) mc = (hi, mc1)" "ioapic_read (ucast i) mc1 = (lo, mc2)" by (meson surj_pair)
  have e: "ioapic_enable vec mc = ioapic_write (ucast (i + 1)) (ucast (drop_bit 32 ((push_bit 32 (ucast hi) OR ucast lo) AND NOT 0x10000 :: u64)))
      (ioapic_write (ucast i) (ucast (((push_bit 32 (ucast hi) OR ucast lo) AND NOT 0x10000 :: u64) AND 0xFFFFFFFF)) mc2)"
    by (simp only: ioapic_enable_def Let_def assms [symmetric] r prod.case)
  show ?thesis using ioapic_read_steps [OF r(1)] ioapic_read_steps [OF r(2)]
    by (elim exE) (rule that [OF _ unmasked], simp_all only: e, simp_all add: ioapic_write_def tell_def)
qed

lemma map_page_frame [simp]: "mc_log (map_page va pa mc) = mc_log mc" "mc_hpet_period (map_page va pa mc) = mc_hpet_period mc"
  by (simp_all add: map_page_def Let_def split_beta)

text \<open>Adding and enabling one vector.\<close>

definition routed :: "u64 \<Rightarrow> u32 \<Rightarrow> u32 \<Rightarrow> u8 \<Rightarrow> access list \<Rightarrow> bool" where
  "routed va r e vec es \<longleftrightarrow> (\<exists>h l g. \<not> bit l 16 \<and>
     (\<forall>rest. programmed va (es @ rest) = (r, ucast vec) # (r + 1, h) # (e, l) # (e + 1, g) # programmed va rest))"

lemma route_steps:
  assumes "mc_ioapic_address mc = va" "i = of_int (0x10 + (uint vec - 32) * 2)"
    "r = 0x10 + irq * 2" "e = ucast (i :: u64)" "e + 1 = ucast (i + 1)"
  shows "\<exists>es. mc_log (ioapic_enable vec (ioapic_add vec irq mc)) = mc_log mc @ es \<and> routed va r e vec es \<and>
    mc_ioapic_address (ioapic_enable vec (ioapic_add vec irq mc)) = va"
proof -
  define m1 where "m1 = ioapic_add vec irq mc"
  obtain q a h where A: "mc_log m1 = mc_log mc @ [Asked q a, MmioWr32 va r, MmioWr32 (va + 16) (ucast vec), MmioWr32 va (r + 1),
      MmioWr32 (va + 16) h]" "mc_ioapic_address m1 = va"
    by (rule ioapic_add_steps [of vec irq mc, folded m1_def, unfolded assms(1) assms(3) [symmetric]])
  obtain a1 a2 l g where E: "mc_log (ioapic_enable vec m1) = mc_log m1 @ [MmioWr32 va (e + 1), Asked (MmioRd32 (va + 16)) a1,
      MmioWr32 va e, Asked (MmioRd32 (va + 16)) a2, MmioWr32 va e, MmioWr32 (va + 16) l, MmioWr32 va (e + 1), MmioWr32 (va + 16) g]"
    "\<not> bit l 16" "mc_ioapic_address (ioapic_enable vec m1) = va"
    by (rule ioapic_enable_steps [OF assms(2), of m1, unfolded A(2) assms(4,5) [symmetric]])
  define es where "es = [Asked q a, MmioWr32 va r, MmioWr32 (va + 16) (ucast vec), MmioWr32 va (r + 1), MmioWr32 (va + 16) h,
    MmioWr32 va (e + 1), Asked (MmioRd32 (va + 16)) a1, MmioWr32 va e, Asked (MmioRd32 (va + 16)) a2, MmioWr32 va e,
    MmioWr32 (va + 16) l, MmioWr32 va (e + 1), MmioWr32 (va + 16) g]"
  have "mc_log (ioapic_enable vec m1) = mc_log mc @ es" unfolding E(1) A(1) es_def by simp
  moreover have "programmed va (es @ rest) = (r, ucast vec) # (r + 1, h) # (e, l) # (e + 1, g) # programmed va rest" for rest
    by (simp add: es_def)
  ultimately show ?thesis using E(2,3) unfolding m1_def [symmetric] routed_def by blast
qed

text \<open>C28: What the set-up of the input/output controller programs, register by register: the vectors of the timer, the keyboard and the mouse go
  to the entries 0, 1 and 12, each written with its mask bit clear, and the entries whose mask bit it then clears are 0, 1 and 2: not 12, but 2,
  to which nothing was routed.\<close>

theorem io_apic_routes:
  "\<exists>h0 l0 g0 h1 l1 g1 h2 l2 g2.
     programmed (phys_to_virt (k_off (mc_kernel mc)) (mc_ioapic_address mc)) (drop (length (mc_log mc)) (mc_log (io_apic_init mc))) =
       [(0x10, 0x20), (0x11, h0), (0x10, l0), (0x11, g0), (0x12, 0x21), (0x13, h1), (0x12, l1), (0x13, g1),
        (0x28, 0x22), (0x29, h2), (0x14, l2), (0x15, g2)] \<and> \<not> bit l0 16 \<and> \<not> bit l1 16 \<and> \<not> bit l2 16"
proof -
  define va where "va = phys_to_virt (k_off (mc_kernel mc)) (mc_ioapic_address mc)"
  define m0 where "m0 = (map_page va (mc_ioapic_address mc) mc)\<lparr>mc_ioapic_address := va\<rparr>"
  define m1 where "m1 = ioapic_enable 32 (ioapic_add 32 0 m0)"
  define m2 where "m2 = ioapic_enable 33 (ioapic_add 33 1 m1)"
  have m0: "mc_log m0 = mc_log mc" "mc_ioapic_address m0 = va" by (simp_all add: m0_def)
  have "\<exists>es. mc_log m1 = mc_log m0 @ es \<and> routed va 0x10 0x10 32 es \<and> mc_ioapic_address m1 = va"
    unfolding m1_def by (rule route_steps [OF m0(2), of "0x10"]) simp_all
  then obtain e0 where s0: "mc_log m1 = mc_log mc @ e0" "routed va 0x10 0x10 32 e0" "mc_ioapic_address m1 = va" unfolding m0 by blast
  have "\<exists>es. mc_log m2 = mc_log m1 @ es \<and> routed va 0x12 0x12 33 es \<and> mc_ioapic_address m2 = va"
    unfolding m2_def by (rule route_steps [OF s0(3), of "0x12"]) simp_all
  then obtain e1 where s1: "mc_log m2 = mc_log m1 @ e1" "routed va 0x12 0x12 33 e1" "mc_ioapic_address m2 = va" by blast
  have "\<exists>es. mc_log (ioapic_enable 34 (ioapic_add 34 12 m2)) = mc_log m2 @ es \<and> routed va 0x28 0x14 34 es \<and>
      mc_ioapic_address (ioapic_enable 34 (ioapic_add 34 12 m2)) = va"
    by (rule route_steps [OF s1(3), of "0x14"]) simp_all
  then obtain e2 where s2: "mc_log (ioapic_enable 34 (ioapic_add 34 12 m2)) = mc_log m2 @ e2" "routed va 0x28 0x14 34 e2" by blast
  have "io_apic_init mc = ioapic_enable 34 (ioapic_add 34 12 m2)"
    by (simp add: io_apic_init_def Let_def m2_def m1_def m0_def va_def idx_timer_def idx_keyboard_def idx_mouse_def)
  then have d: "drop (length (mc_log mc)) (mc_log (io_apic_init mc)) = e0 @ e1 @ e2 @ []" using s0(1) s1(1) s2(1) by simp
  obtain h0 l0 g0 where r0: "\<not> bit l0 16" "\<And>rest. programmed va (e0 @ rest) =
      (0x10, 0x20) # (0x11, h0) # (0x10, l0) # (0x11, g0) # programmed va rest" using s0(2) by (auto simp: routed_def)
  obtain h1 l1 g1 where r1: "\<not> bit l1 16" "\<And>rest. programmed va (e1 @ rest) =
      (0x12, 0x21) # (0x13, h1) # (0x12, l1) # (0x13, g1) # programmed va rest" using s1(2) by (auto simp: routed_def)
  obtain h2 l2 g2 where r2: "\<not> bit l2 16" "\<And>rest. programmed va (e2 @ rest) =
      (0x28, 0x22) # (0x29, h2) # (0x14, l2) # (0x15, g2) # programmed va rest" using s2(2) by (auto simp: routed_def)
  have "programmed va [] = []" by simp
  then show ?thesis unfolding va_def [symmetric] d r0(2) r1(2) r2(2) using r0(1) r1(1) r2(1) by blast
qed

text \<open>The selectors that \<open>SYSRET\<close> derives from the value written to the \<^verbatim>\<open>STAR\<close> register are those with which a system call enters user code,
  and the descriptors they select are a 64-bit code segment and a data segment of privilege level 3; those that \<open>SYSCALL\<close> derives
  from it select the kernel's code and data segments.\<close>

lemma sysret_selectors:
  "let user = ucast (drop_bit 48 star_value) :: u16; kern = ucast (drop_bit 32 star_value) :: u16;
       cs = (user + 16) OR 3; ss = (user + 8) OR 3; desc = (\<lambda>s :: u16. gdt_table_init ! (unat s div 8))
   in cs = 0x23 \<and> ss = 0x1B \<and> (\<forall>u r. rg_cs (enter_frame u r) = 0x23 \<and> rg_ss (enter_frame u r) = 0x1B) \<and>
      seg_present (desc cs) \<and> seg_code (desc cs) \<and> seg_long (desc cs) \<and> seg_dpl (desc cs) = 3 \<and>
      seg_present (desc ss) \<and> \<not> seg_code (desc ss) \<and> seg_dpl (desc ss) = 3 \<and>
      seg_present (desc kern) \<and> seg_code (desc kern) \<and> seg_long (desc kern) \<and> seg_dpl (desc kern) = 0 \<and>
      seg_present (desc (kern + 8)) \<and> \<not> seg_code (desc (kern + 8)) \<and> seg_dpl (desc (kern + 8)) = 0"
  by (simp add: star_value_def enter_frame_def gdt_table_init_def GDT_ENTRIES_def MAX_CPU_NUM_def seg_present_def seg_code_def seg_long_def seg_dpl_def)

end
