(* ===== verification/Exception.thy ===== *)
theory Exception
  imports Debug
begin

text \<open>
  The processor's exceptions: \<^verbatim>\<open>dump_regs\<close> and the handlers of \<^verbatim>\<open>arch/x86_64/idt.cpp\<close>.

  A handler formats its message into a buffer of its own stack frame, at an address that is a parameter, and prints it with the registers that
  the entry code saved. Every handler then stops the processor for ever (\<open>Halted\<close>), but the one of the breakpoint, which returns
  (\<open>Resumed\<close>). The lemmas give the text on the serial line, register by register.
\<close>

section \<open>Printing the registers\<close>

definition line :: "char list \<Rightarrow> char list" where
  "line s = s @ [CHR 0x0a]"

definition dump_regs :: "u64 \<Rightarrow> char list \<Rightarrow> u64 list \<Rightarrow> u64 \<Rightarrow> kernel \<Rightarrow> kernel option" where
  "dump_regs regs error_str args buf k0 = do {
     (_, m) \<leftarrow> vsprintf (k_mem k0) buf error_str args;
     (_, k1) \<leftarrow> printk (line ''%s'') [buf] (set_mem m k0);
     (_, k2) \<leftarrow> printk (line ''RIP = %#018lx'') [rg_rip (k_regs k1 regs)] k1;
     (_, k3) \<leftarrow> printk (line ''RAX = %#018lx, RBX = %#018lx'') [rg_rax (k_regs k2 regs), rg_rbx (k_regs k2 regs)] k2;
     (_, k4) \<leftarrow> printk (line ''RCX = %#018lx, RDX = %#018lx'') [rg_rcx (k_regs k3 regs), rg_rdx (k_regs k3 regs)] k3;
     (_, k5) \<leftarrow> printk (line ''RDI = %#018lx, RSI = %#018lx'') [rg_rdi (k_regs k4 regs), rg_rsi (k_regs k4 regs)] k4;
     (_, k6) \<leftarrow> printk (line ''RSP = %#018lx, RBP = %#018lx'') [rg_rsp (k_regs k5 regs), rg_rbp (k_regs k5 regs)] k5;
     (_, k7) \<leftarrow> printk (line ''R08 = %#018lx, R09 = %#018lx'') [rg_r8 (k_regs k6 regs), rg_r9 (k_regs k6 regs)] k6;
     (_, k8) \<leftarrow> printk (line ''R10 = %#018lx, R11 = %#018lx'') [rg_r10 (k_regs k7 regs), rg_r11 (k_regs k7 regs)] k7;
     (_, k9) \<leftarrow> printk (line ''R12 = %#018lx, R13 = %#018lx'') [rg_r12 (k_regs k8 regs), rg_r13 (k_regs k8 regs)] k8;
     (_, k10) \<leftarrow> printk (line ''R14 = %#018lx, R15 = %#018lx'') [rg_r14 (k_regs k9 regs), rg_r15 (k_regs k9 regs)] k9;
     Some k10 }"

section \<open>The handlers\<close>

datatype handler_end = Halted kernel | Resumed kernel

type_synonym handler = "u64 \<Rightarrow> u64 \<Rightarrow> u64 \<Rightarrow> kernel \<Rightarrow> handler_end option"

definition do_divide_error :: handler where
  "do_divide_error regs error_code buf k = map_option Halted (dump_regs regs ''do_divder_error(0)'' [] buf k)"

definition do_debug :: handler where
  "do_debug regs error_code buf k = map_option Halted (dump_regs regs ''do_debug(1)'' [] buf k)"

definition do_nmi :: handler where
  "do_nmi regs error_code buf k = map_option Halted (dump_regs regs ''do_nmi(2)'' [] buf k)"

definition do_int3 :: handler where
  "do_int3 regs error_code buf k = map_option Resumed (dump_regs regs ''do_int3(3)'' [] buf k)"

definition do_overflow :: handler where
  "do_overflow regs error_code buf k = map_option Halted (dump_regs regs ''do_overflow(4)'' [] buf k)"

definition do_bounds :: handler where
  "do_bounds regs error_code buf k = map_option Halted (dump_regs regs ''do_bounds(5)'' [] buf k)"

definition do_undefined_opcode :: handler where
  "do_undefined_opcode regs error_code buf k = map_option Halted (dump_regs regs ''do_undefined_opcode(6)'' [] buf k)"

definition do_dev_not_avaliable :: handler where
  "do_dev_not_avaliable regs error_code buf k = map_option Halted (dump_regs regs ''do_dev_not_avaliable(7)'' [] buf k)"

definition do_double_fault :: handler where
  "do_double_fault regs error_code buf k = map_option Halted (dump_regs regs ''do_double_fault(8)'' [] buf k)"

definition do_coprocessor_segment_overrun :: handler where
  "do_coprocessor_segment_overrun regs error_code buf k = map_option Halted (dump_regs regs ''do_coprocessor_segment_overrun(9)'' [] buf k)"

definition do_invalid_TSS :: handler where
  "do_invalid_TSS regs error_code buf k = map_option Halted (dump_regs regs ''do_invalid_TSS(10)'' [] buf k)"

definition do_segment_not_exists :: handler where
  "do_segment_not_exists regs error_code buf k = map_option Halted (dump_regs regs ''do_segment_not_exists(11)'' [] buf k)"

definition do_stack_segment_fault :: handler where
  "do_stack_segment_fault regs error_code buf k = map_option Halted (dump_regs regs ''do_stack_segment_fault(12)'' [] buf k)"

definition do_general_protection :: handler where
  "do_general_protection regs error_code buf k = map_option Halted (dump_regs regs ''do_general_protection(13)'' [] buf k)"

text \<open>The faulting address is the register \<^verbatim>\<open>CR2\<close>, read before anything else.\<close>

definition do_page_fault :: "u64 \<Rightarrow> handler" where
  "do_page_fault cr2 regs error_code buf k =
     map_option Halted (dump_regs regs ''do_page_fault(14), fault address = %#018lx'' [cr2] buf k)"

definition do_x87_FPU_error :: handler where
  "do_x87_FPU_error regs error_code buf k = map_option Halted (dump_regs regs ''do_x87_FPU_error(16)'' [] buf k)"

definition do_alignment_check :: handler where
  "do_alignment_check regs error_code buf k = map_option Halted (dump_regs regs ''do_alignment_check(17)'' [] buf k)"

definition do_machine_check :: handler where
  "do_machine_check regs error_code buf k = map_option Halted (dump_regs regs ''do_machine_check(18)'' [] buf k)"

definition do_SIMD_exception :: handler where
  "do_SIMD_exception regs error_code buf k = map_option Halted (dump_regs regs ''do_SIMD_exception(19)'' [] buf k)"

definition do_virtualization_exception :: handler where
  "do_virtualization_exception regs error_code buf k = map_option Halted (dump_regs regs ''do_virtualization_exception(20)'' [] buf k)"

section \<open>The text of a dump\<close>

text \<open>\<^verbatim>\<open>%#018lx\<close>: eighteen characters, the prefix and sixteen digits.\<close>

definition hex18 :: "u64 \<Rightarrow> u8 list" where
  "hex18 v = [0x30, 0x78] @ replicate (16 - length (number_digits v 16 SMALL)) 0x30 @ number_digits v 16 SMALL"

lemma hex_flags: "((0 OR SPECIAL) OR ZEROPAD) OR SMALL = (0x61 :: u32)" "(SPECIAL OR ZEROPAD) OR SMALL = (0x61 :: u32)"
  by (simp_all add: SPECIAL_def ZEROPAD_def SMALL_def)

lemma number_digits_small: "number_digits v 16 0x61 = number_digits v 16 SMALL"
  by (simp add: number_digits_def SMALL_def)

lemma directive_hex18:
  "directive buf (CHR ''#'' # CHR ''0'' # CHR ''1'' # CHR ''8'' # CHR ''l'' # CHR ''x'' # fmt) (a # args) o0 =
     Some (fmt, args, emit (hex18 a) o0)"
proof -
  have "number_text a 16 18 (- 1) 0x61 = hex18 a"
    by (simp add: number_text_def sign_of_def hex18_def number_digits_small SIGN_def SPECIAL_def SMALL_def LEFT_def ZEROPAD_def Let_def nat_diff_distrib')
  then show ?thesis
    by (simp add: directive_def parse_width_def parse_precision_def parse_qualifier_def integer_conv_def isdigit_def
      integer_arg_def number_emit hex_flags)
qed

lemma hex18_length: "length (hex18 v) = 18"
proof -
  have "unat v < nat 16 ^ 16" using unsigned_less [of v, where ?'a = nat] by simp
  from number_digits_length [OF _ _ this, of SMALL] show ?thesis by (simp add: hex18_def)
qed

lemma loop_hex18:
  "CHR ''%'' \<notin> set pre \<Longrightarrow> vsprintf_loop buf (pre @ ''%#018lx'' @ fmt) (a # args) o0 =
     vsprintf_loop buf fmt args (emit (map of_char pre @ hex18 a) o0)"
  by (simp add: plain_prefix directive_hex18 emit_append)

text \<open>The state after a message of these characters.\<close>

definition sent :: "u8 list \<Rightarrow> kernel \<Rightarrow> kernel" where
  "sent cs k = (set_mem (text_at (k_mem k) (k_debug_buf k) (cs @ [0])) k)
     \<lparr>k_serial := k_serial k @ on_line cs, k_debug_lock := (k_debug_lock k)\<lparr>sl_rflags := kh_rflags (k_heap k)\<rparr>\<rparr>"

lemma sent_frame [simp]:
  "k_regs (sent cs k) = k_regs k" "k_debug_buf (sent cs k) = k_debug_buf k" "k_serial (sent cs k) = k_serial k @ on_line cs"
  "sl_lock (k_debug_lock (sent cs k)) = sl_lock (k_debug_lock k)"
  by (simp_all add: sent_def set_mem_def)

lemma printk_sent:
  assumes "\<not> bit (sl_lock (k_debug_lock k)) 0" "length cs < 2 ^ 31"
    "\<And>o0. vsprintf_loop (k_debug_buf k) fmt args (k_debug_buf k, k_mem k) = Some (emit cs (k_debug_buf k, k_mem k))"
  shows "printk fmt args k = Some (of_nat (length cs), sent cs k)"
  unfolding sent_def by (rule printk_sends [OF assms(1,2) vsprintf_text [OF assms(3)]]) (use assms(2) in simp)

lemma printk_reg:
  assumes "\<not> bit (sl_lock (k_debug_lock k)) 0" "CHR ''%'' \<notin> set pre" "length pre < 100"
  shows "printk (line (pre @ ''%#018lx'')) [a] k = Some (of_nat (length (map of_char pre @ hex18 a @ [0x0a :: u8])),
    sent (map of_char pre @ hex18 a @ [0x0a]) k)"
proof (rule printk_sent [OF assms(1)])
  show "length (map of_char pre @ hex18 a @ [0x0a :: u8]) < 2 ^ 31" using hex18_length [of a] assms(3) by simp
  show "vsprintf_loop b (line (pre @ ''%#018lx'')) [a] o0 = Some (emit (map of_char pre @ hex18 a @ [0x0a]) o0)" for b o0
    using loop_hex18 [OF assms(2)] by (simp add: line_def emit_append)
qed

lemma printk_regs:
  assumes "\<not> bit (sl_lock (k_debug_lock k)) 0" "CHR ''%'' \<notin> set pre" "CHR ''%'' \<notin> set mid" "length pre < 100" "length mid < 100"
  shows "printk (line (pre @ ''%#018lx'' @ mid @ ''%#018lx'')) [a, b] k =
    Some (of_nat (length (map of_char pre @ hex18 a @ map of_char mid @ hex18 b @ [0x0a :: u8])),
      sent (map of_char pre @ hex18 a @ map of_char mid @ hex18 b @ [0x0a]) k)"
proof (rule printk_sent [OF assms(1)])
  show "length (map of_char pre @ hex18 a @ map of_char mid @ hex18 b @ [0x0a :: u8]) < 2 ^ 31"
    using hex18_length [of a] hex18_length [of b] assms(4,5) by simp
  show "vsprintf_loop d (line (pre @ ''%#018lx'' @ mid @ ''%#018lx'')) [a, b] o0 =
      Some (emit (map of_char pre @ hex18 a @ map of_char mid @ hex18 b @ [0x0a]) o0)" for d o0
    using loop_hex18 [OF assms(2)] loop_hex18 [OF assms(3)] by (simp add: line_def emit_append)
qed

text \<open>The dump of a set of registers, line by line.\<close>

definition two :: "char list \<Rightarrow> u64 \<Rightarrow> char list \<Rightarrow> u64 \<Rightarrow> u8 list" where
  "two a x b y = map of_char (a @ '' = '') @ hex18 x @ map of_char ('', '' @ b @ '' = '') @ hex18 y @ [0x0a]"

definition reg_lines :: "pt_regs \<Rightarrow> u8 list list" where
  "reg_lines r = [map of_char ''RIP = '' @ hex18 (rg_rip r) @ [0x0a],
     two ''RAX'' (rg_rax r) ''RBX'' (rg_rbx r), two ''RCX'' (rg_rcx r) ''RDX'' (rg_rdx r), two ''RDI'' (rg_rdi r) ''RSI'' (rg_rsi r),
     two ''RSP'' (rg_rsp r) ''RBP'' (rg_rbp r), two ''R08'' (rg_r8 r) ''R09'' (rg_r9 r), two ''R10'' (rg_r10 r) ''R11'' (rg_r11 r),
     two ''R12'' (rg_r12 r) ''R13'' (rg_r13 r), two ''R14'' (rg_r14 r) ''R15'' (rg_r15 r)]"

lemma on_line_append: "on_line (xs @ ys) = on_line xs @ on_line ys"
  by (simp add: on_line_def)

lemma printk_one:
  assumes "\<not> bit (sl_lock (k_debug_lock k)) 0"
  shows "printk (line ''RIP = %#018lx'') [x] k =
    Some (of_nat (length (map of_char ''RIP = '' @ hex18 x @ [0x0a :: u8])), sent (map of_char ''RIP = '' @ hex18 x @ [0x0a]) k)"
  using printk_reg [OF assms, of "''RIP = ''" x] by simp

lemma printk_two:
  assumes "\<not> bit (sl_lock (k_debug_lock k)) 0" "CHR ''%'' \<notin> set a" "CHR ''%'' \<notin> set b" "length a < 90" "length b < 90"
  shows "printk (line (a @ '' = %#018lx, '' @ b @ '' = %#018lx'')) [x, y] k = Some (of_nat (length (two a x b y)), sent (two a x b y) k)"
  using printk_regs [OF assms(1), of "a @ '' = ''" "'', '' @ b @ '' = ''" x y] assms(2-5) by (simp add: two_def)

lemmas printk_pairs =
  printk_two [of _ "''RAX''" "''RBX''", simplified] printk_two [of _ "''RCX''" "''RDX''", simplified]
  printk_two [of _ "''RDI''" "''RSI''", simplified] printk_two [of _ "''RSP''" "''RBP''", simplified]
  printk_two [of _ "''R08''" "''R09''", simplified] printk_two [of _ "''R10''" "''R11''", simplified]
  printk_two [of _ "''R12''" "''R13''", simplified] printk_two [of _ "''R14''" "''R15''", simplified]

lemma dump_lines:
  assumes "\<not> bit (sl_lock (k_debug_lock k0)) 0" "vsprintf (k_mem k0) buf err args = Some (n0, m)"
    "printk (line ''%s'') [buf] (set_mem m k0) = Some (n1, sent cs (set_mem m k0))"
  shows "dump_regs regs err args buf k0 = Some (fold sent (cs # reg_lines (k_regs k0 regs)) (set_mem m k0))"
proof -
  have "\<not> bit (sl_lock (k_debug_lock (set_mem m k0))) 0" "k_regs (set_mem m k0) = k_regs k0" using assms(1) by (simp_all add: set_mem_def)
  then show ?thesis by (simp add: dump_regs_def assms(2,3) printk_one printk_pairs reg_lines_def)
qed

lemma fold_sent_serial: "k_serial (fold sent css k) = k_serial k @ on_line (concat css)"
  by (induction css arbitrary: k) (simp_all add: on_line_append, simp add: on_line_def)

text \<open>The buffer of 128 bytes in the handler's frame holds the message and lies apart from the buffer of the kernel's messages.\<close>

definition apart :: "u64 \<Rightarrow> u64 \<Rightarrow> bool" where
  "apart buf dbuf \<longleftrightarrow> (\<forall>j < 128. \<forall>i < 128. buf + of_nat j \<noteq> dbuf + of_nat i)"

lemma dump_reports:
  assumes "\<not> bit (sl_lock (k_debug_lock k)) 0" "apart buf (k_debug_buf k)" "0 \<notin> set cs" "length cs < 128"
    "vsprintf (k_mem k) buf err args = Some (of_nat (length cs), text_at (k_mem k) buf (cs @ [0]))"
  shows "\<exists>k'. dump_regs regs err args buf k = Some k' \<and>
    k_serial k' = k_serial k @ on_line (cs @ [0x0a] @ concat (reg_lines (k_regs k regs)))"
proof -
  let ?m = "text_at (k_mem k) buf (cs @ [0])"
  let ?k = "set_mem ?m k"
  have nth: "?m (buf + of_nat j) = (cs @ [0]) ! j" if "j \<le> length cs" for j
    using that assms(4) by (simp add: text_at_def)
  have cs: "map (\<lambda>j. ?m (buf + of_nat j)) [0..<length cs] = cs"
    using nth by (intro nth_equalityI) (simp_all add: nth_append)
  have "vsprintf_loop (k_debug_buf k) (line ''%s'') [buf] (k_debug_buf k, ?m) = Some (emit (cs @ [0x0a]) (k_debug_buf k, ?m))"
  proof -
    have "vsprintf_loop (k_debug_buf k) ([] @ ''%s'' @ [CHR 0x0a]) [buf] (k_debug_buf k, ?m) =
        vsprintf_loop (k_debug_buf k) [CHR 0x0a] [] (emit (map of_char [] @ map (\<lambda>j. ?m (buf + of_nat j)) [0..<length cs]) (k_debug_buf k, ?m))"
      by (rule vsprintf_loop_string)
        (use nth assms(2-4) in \<open>auto simp: nth_append apart_def dest: nth_mem\<close>)
    then show ?thesis unfolding cs by (simp add: line_def emit_append)
  qed
  then have "printk (line ''%s'') [buf] ?k = Some (of_nat (length (cs @ [0x0a])), sent (cs @ [0x0a]) ?k)"
    using assms(1,4) by (intro printk_sent) (simp_all add: set_mem_def)
  from dump_lines [OF assms(1,5) this] show ?thesis
    by (simp add: fold_sent_serial on_line_append [symmetric] set_mem_def)
qed

section \<open>Every exception is reported\<close>

text \<open>The vectors with their handlers and the messages; the page fault, whose message has the address, is apart.\<close>

definition exceptions :: "(nat \<times> char list \<times> handler) list" where
  "exceptions =
    [(0, ''do_divder_error(0)'', do_divide_error),
     (1, ''do_debug(1)'', do_debug),
     (2, ''do_nmi(2)'', do_nmi),
     (3, ''do_int3(3)'', do_int3),
     (4, ''do_overflow(4)'', do_overflow),
     (5, ''do_bounds(5)'', do_bounds),
     (6, ''do_undefined_opcode(6)'', do_undefined_opcode),
     (7, ''do_dev_not_avaliable(7)'', do_dev_not_avaliable),
     (8, ''do_double_fault(8)'', do_double_fault),
     (9, ''do_coprocessor_segment_overrun(9)'', do_coprocessor_segment_overrun),
     (10, ''do_invalid_TSS(10)'', do_invalid_TSS),
     (11, ''do_segment_not_exists(11)'', do_segment_not_exists),
     (12, ''do_stack_segment_fault(12)'', do_stack_segment_fault),
     (13, ''do_general_protection(13)'', do_general_protection),
     (16, ''do_x87_FPU_error(16)'', do_x87_FPU_error),
     (17, ''do_alignment_check(17)'', do_alignment_check),
     (18, ''do_machine_check(18)'', do_machine_check),
     (19, ''do_SIMD_exception(19)'', do_SIMD_exception),
     (20, ''do_virtualization_exception(20)'', do_virtualization_exception)]"

definition page_fault_text :: "u64 \<Rightarrow> u8 list" where
  "page_fault_text cr2 = map of_char ''do_page_fault(14), fault address = '' @ hex18 cr2"

definition reports :: "u64 \<Rightarrow> u8 list \<Rightarrow> kernel \<Rightarrow> kernel \<Rightarrow> bool" where
  "reports regs cs k k' \<longleftrightarrow> k_serial k' = k_serial k @ on_line (cs @ [0x0a] @ concat (reg_lines (k_regs k regs)))"

lemma of_char_zero:
  assumes "0 = (of_char c :: u8)"
  shows "c = CHR 0x00"
proof -
  have "of_nat (of_char c) = (0 :: u8)" unfolding of_nat_of_char using assms by (rule sym)
  then have "(256 :: nat) dvd of_char c" by (simp add: word_of_nat_eq_0_iff)
  moreover have "of_char c < (256 :: nat)" by simp
  ultimately have "of_char c = (0 :: nat)" by (metis dvd_imp_le linorder_not_less not_gr_zero)
  then have "of_char c = (of_char (CHR 0x00) :: nat)" by simp
  then show ?thesis by (simp only: of_char_eq_iff)
qed

lemma plain_dump:
  assumes "\<not> bit (sl_lock (k_debug_lock k)) 0" "apart buf (k_debug_buf k)" "CHR ''%'' \<notin> set err" "CHR 0x00 \<notin> set err" "length err < 128"
  shows "\<exists>k'. dump_regs regs err [] buf k = Some k' \<and> reports regs (map of_char err) k k'"
proof -
  have "(0 :: u8) \<notin> set (map of_char err)" using assms(4) of_char_zero by auto
  then show ?thesis
    using dump_reports [OF assms(1,2) _ _ , of "map of_char err" err "[]" regs] vsprintf_plain [OF assms(3), of "k_mem k" buf "[]"] assms(5)
    by (simp add: reports_def)
qed

lemma exception_texts:
  "(v, err, h) \<in> set exceptions \<Longrightarrow> CHR ''%'' \<notin> set err \<and> CHR 0x00 \<notin> set err \<and> length err < 128 \<and>
     h regs error_code buf k = map_option (if v = 3 then Resumed else Halted) (dump_regs regs err [] buf k)"
  unfolding exceptions_def
  by (auto simp: do_divide_error_def do_debug_def do_nmi_def do_int3_def do_overflow_def do_bounds_def do_undefined_opcode_def do_dev_not_avaliable_def do_double_fault_def do_coprocessor_segment_overrun_def do_invalid_TSS_def do_segment_not_exists_def do_stack_segment_fault_def do_general_protection_def do_x87_FPU_error_def do_alignment_check_def do_machine_check_def do_SIMD_exception_def do_virtualization_exception_def)

lemma digit_loop_nonzero: "0 \<notin> set (digit_loop num 16 locase)"
proof (induction num "16 :: u64" locase rule: digit_loop.induct)
  case (1 num locase)
  have "unat (num mod 16) < 16" by (simp add: unat_mod)
  then have "digits ! unat (num mod 16) \<noteq> 0" using digit_cases [of "unat (num mod 16)"] by (auto simp: digits_def)
  then have "digits ! unat (num mod 16) OR locase \<noteq> 0" by (simp add: or_eq_0_iff)
  then show ?case using 1 by (simp add: digit_loop.simps [of num])
qed

lemma hex18_nonzero: "0 \<notin> set (hex18 v)"
  using digit_loop_nonzero by (auto simp: hex18_def number_digits_def)

lemma page_fault_dump:
  assumes "\<not> bit (sl_lock (k_debug_lock k)) 0" "apart buf (k_debug_buf k)"
  shows "\<exists>k'. do_page_fault cr2 regs error_code buf k = Some (Halted k') \<and> reports regs (page_fault_text cr2) k k'"
proof -
  let ?pre = "''do_page_fault(14), fault address = ''"
  have len: "length (page_fault_text cr2) < 128" using hex18_length [of cr2] by (simp add: page_fault_text_def)
  have "vsprintf_loop buf (?pre @ ''%#018lx'' @ []) [cr2] (buf, k_mem k) = Some (emit (page_fault_text cr2) (buf, k_mem k))"
    by (subst loop_hex18) (simp_all add: page_fault_text_def)
  then have "vsprintf (k_mem k) buf (?pre @ ''%#018lx'') [cr2] =
      Some (of_nat (length (page_fault_text cr2)), text_at (k_mem k) buf (page_fault_text cr2 @ [0]))"
    using len by (intro vsprintf_text) simp_all
  from dump_reports [OF assms _ len this, of regs] show ?thesis
    using hex18_nonzero [of cr2] by (auto simp: page_fault_text_def do_page_fault_def reports_def)
qed

text \<open>C14: Every exception is reported: with the message lock free and the handler's buffer apart from the kernel's, each handler sends its own message and
  then the sixteen general registers and the instruction pointer, in hexadecimal, over the serial line, and stops the processor; the
  breakpoint's alone returns. A page fault's message ends in the faulting address.\<close>

theorem exceptions_report:
  assumes "\<not> bit (sl_lock (k_debug_lock k)) 0" "apart buf (k_debug_buf k)"
  shows "(\<forall>(v, err, h) \<in> set exceptions. \<exists>k'. h regs error_code buf k = Some (if v = 3 then Resumed k' else Halted k') \<and>
      reports regs (map of_char err) k k') \<and>
    (\<exists>k'. do_page_fault cr2 regs error_code buf k = Some (Halted k') \<and> reports regs (page_fault_text cr2) k k')"
proof (intro conjI ballI)
  fix e
  assume "e \<in> set exceptions"
  moreover obtain v err h where e: "e = (v, err, h)" by (cases e)
  ultimately have E: "h regs error_code buf k = map_option (if v = 3 then Resumed else Halted) (dump_regs regs err [] buf k)"
    "CHR ''%'' \<notin> set err" "CHR 0x00 \<notin> set err" "length err < 128"
    using exception_texts [of v err h regs error_code buf k] by blast+
  obtain k' where "dump_regs regs err [] buf k = Some k'" "reports regs (map of_char err) k k'"
    using plain_dump [OF assms E(2-4)] by blast
  then show "case e of (v, err, h) \<Rightarrow> \<exists>k'. h regs error_code buf k = Some (if v = 3 then Resumed k' else Halted k') \<and>
      reports regs (map of_char err) k k'"
    unfolding e prod.case E(1) by (intro exI [of _ k']) simp
qed (rule page_fault_dump [OF assms])

definition demo_regs :: kernel where
  "demo_regs = (blank_kernel \<lparr>kh_pool = blank_pool, kh_mem = (\<lambda>_. 0), kh_lock = SPIN_INIT, kh_rflags = 0x202\<rparr>)
     \<lparr>k_regs := (\<lambda>_. blank_regs\<lparr>rg_rip := 0xffffffff80001234\<rparr>)\<rparr>"

theorem exceptions_report_witness:
  "\<exists>k' k''. do_int3 0x9000 0 0x1000 demo_regs = Some (Resumed k') \<and> reports 0x9000 (map of_char ''do_int3(3)'') demo_regs k' \<and>
     do_page_fault 0xdead 0x9000 0 0x1000 demo_regs = Some (Halted k'') \<and> reports 0x9000 (page_fault_text 0xdead) demo_regs k''"
proof -
  have d: "\<not> bit (sl_lock (k_debug_lock demo_regs)) 0" "k_debug_buf demo_regs = 0xffffffff80100000"
    by (simp_all add: demo_regs_def blank_kernel_def SPIN_INIT_def)
  have "apart 0x1000 (k_debug_buf demo_regs)" unfolding apart_def d(2)
  proof (intro allI impI notI)
    fix j i :: nat
    assume "j < 128" "i < 128" "0x1000 + of_nat j = (0xffffffff80100000 :: u64) + of_nat i"
    then have "unat (of_nat (0x1000 + j) :: u64) = unat (of_nat (0xffffffff80100000 + i) :: u64)" by simp
    with \<open>j < 128\<close> \<open>i < 128\<close> show False by (simp del: of_nat_add)
  qed
  from exceptions_report [where error_code = 0 and ?cr2.0 = "0xdead" and regs = "0x9000", OF d(1) this] show ?thesis by (auto simp: exceptions_def)
qed

end
