(* ===== verification/Spec2Isabelle.thy ===== *)
theory Spec2Isabelle
  imports SizedPool Boot MmanHeap MmanGrow ThreadTable KernelRun PlatformProps Exception
begin

text \<open>
  A verification development for the ion-os kernel, a small x86-64 kernel in C++. File names below are relative to
  \<^verbatim>\<open>src/kernel/src\<close>.

  \<^bold>\<open>The program.\<close> At boot the kernel reads the memory map, builds a bit map of free page frames (\<^verbatim>\<open>mm/frame.cpp\<close> over
  \<^verbatim>\<open>libs/bitmap.cpp\<close>), maps a region of frames for its heap through its page tables (\<^verbatim>\<open>arch/x86_64/table.cpp\<close>) and makes that
  region one memory pool (\<^verbatim>\<open>mm/heap/pool.cpp\<close>, with its blocks, areas and free lists under \<^verbatim>\<open>include/mm/alloc\<close>), which it uses
  behind a spin lock (\<^verbatim>\<open>mm/heap/heap.cpp\<close>). It loads its descriptor tables (\<^verbatim>\<open>arch/x86_64/gdt.cpp\<close>, \<^verbatim>\<open>idt.cpp\<close>), finds the timer and the
  interrupt controllers in the firmware's tables and programs them (\<^verbatim>\<open>acpi.cpp\<close>, \<^verbatim>\<open>hpet.cpp\<close>, \<^verbatim>\<open>apic.cpp\<close>). It then creates threads (\<^verbatim>\<open>thread\<close>, \<^verbatim>\<open>arch/x86_64/context.cpp\<close>), which a timer interrupt
  switches, and which enter it by system calls (\<^verbatim>\<open>arch/x86_64/syscall.cpp\<close>, \<^verbatim>\<open>hel\<close>): messages, memory mapping, sockets between
  drivers, and cloning and leaving of threads.

  \<^bold>\<open>Theories.\<close> Each models one part, and imports the parts it uses.

  \<^item> \<open>Prelude\<close>: words of 8 to 64 bits, and the two shapes of counting loops.
  \<^item> \<open>Memory\<close>: byte memory as a function on 64-bit addresses, and the block and string routines of \<^verbatim>\<open>libs/klibc.cpp\<close>.
    \<open>Printf\<close>: formatted printing of the same file; \<open>Debug\<close>: \<open>printk\<close> of \<^verbatim>\<open>arch/x86_64/debug.cpp\<close>.
  \<^item> \<open>Bitmap\<close> and \<open>Frame\<close>: the bit map, and the frame allocator over it. The boot loader's memory map is an argument.
  \<^item> \<open>Block\<close>, \<open>Freelist\<close>, \<open>Pool\<close>, \<open>Allocator\<close>: the memory pool from its boundary tags up. \<open>Allocator\<close> holds the abstract heap,
    disjoint live blocks with their bytes, the contract \<open>allocator\<close> as a locale, and the refinement proved in it. \<open>SizedPool\<close> (\<^verbatim>\<open>mm/heap/sized-pool.cpp\<close>)
    and \<open>Heap\<close> are other interpretations of the contract; \<open>Boot\<close> is the start of memory management, from the boot loader's memory map to the heap.
  \<^item> \<open>LargeBlk\<close> (\<^verbatim>\<open>include/mm/alloc/large-blk.hpp\<close>), \<open>Mman\<close>, \<open>MmanHeap\<close>, \<open>MmanGrow\<close> (\<^verbatim>\<open>mm/heap/mman.cpp\<close>): the manager of several
    areas and of large blocks. \<open>Mman\<close> relates its small blocks to those of the pool, \<open>MmanHeap\<close> interprets the contract on it, and
    \<open>MmanGrow\<close> is about adding areas and giving them back.
  \<^item> \<open>PageTable\<close>: the four levels of tables in memory, related to a tree of frames, and mapping of one page. \<open>MapRange\<close>: mapping of ranges of
    pages, to given addresses or to fresh frames; \<open>Boot\<close> and \<open>KernelRun\<close> use it for the pages of the heap and for regions mapped by drivers.
  \<^item> \<open>Spinlock\<close>: the lock, for one processor as a function, for many as an interleaving of instructions.
  \<^item> \<open>Kernel\<close>: one record per structure of the thread, socket and system call code, and the state that holds them.
    \<open>Dsocket\<close>: the socket transfers, with the contract \<open>stream\<close> of a byte queue, interpreted on both directions.
    \<open>Thread\<close> and \<open>ThreadTable\<close>: contexts, creation, choice and switching of threads, and the invariant of their table.
    \<open>Syscall\<close>: the handlers and their dispatcher. \<open>KernelRun\<close>: runs of the kernel as sequences of events, and what
    its system calls do.
  \<^item> \<open>Descriptor\<close>: the segment and interrupt tables, the task segments, as the code writes them and as the processor reads them.
    \<open>Exception\<close>: the handlers of the processor's exceptions and the text they send.
  \<^item> \<open>Device\<close>: the record \<open>machine\<close> of the kernel, its registers and the log of its accesses to devices, whose answers are a parameter;
    ports, serial line, timer and interrupt controllers. \<open>Platform\<close>: the firmware's tables and the start, up to \<open>kmain\<close> and \<open>ap_entry\<close>.
    \<open>PlatformProps\<close>: what the start-up code programs and when its loops end.

  \<^bold>\<open>State and errors.\<close> Memory, heap and kernel are passed explicitly and returned updated. A function that may fault or run for
  ever returns an option, \<open>None\<close> standing for that; an error the code reports is the value it reports. Arithmetic is on words of
  the width of the source's types. Loops are recursive functions with their termination proved, except those that may run for
  ever, which are \<open>partial_function\<close>s: the searches of linked lists, as a list may have a cycle, the wait for the clock and the scan of the
  firmware's table. There is no fuel anywhere.

  \<^bold>\<open>What is proved.\<close> For the allocators: refinement of the abstract heap for every sequence of calls up to the first illegal one, where illegal is judged after the
  results the calls before it really gave, and that the pool
  is one free block again after every block was given back, in any order, fails only when full and keeps its accounting. For frames and bit map: exactness of range
  updates and of the free set after start-up, and distinctness of allocated frames. For page tables: a mapping, of one page or of a range, translates
  as asked and disturbs no other, and pages mapped to fresh frames get a frame each, apart from all tables. What these theorems assume of frames, bit map and
  tables is established by the start of the frame allocator, \<open>frame_init_establishes\<close>, and kept by every mapping. \<open>start_backs_heap\<close>: the whole heap is backed
  after the start, whatever the tables of the boot loader look like outside the heap's top-level entry. For printing: the layout of numbers and that numbers can be read back. For locks: mutual exclusion in
  every interleaving. For sockets: bytes arrive in order, in any interleaving within the buffer. For threads: the choice of
  the scheduler, the invariant of the table, descriptors, and switching forth and back. For system calls: dispatch, messages and
  mapping. For the processor's tables: that descriptors and gates read back as intended and lie where they should. For exceptions: the whole
  text of the report. For the devices: the registers that are programmed, and exactly when the calibration of the timer ends. Where the code does not do what it means to, the theorem states what it does: for instance
  \<open>alloc_frames_ignores_count\<close>, \<open>unmap_drops_region\<close>, \<open>switched_thread_starves\<close>, \<open>connect_never_connects\<close>, \<open>vfork_never_wakes\<close>.

  \<^bold>\<open>Not modelled.\<close> The assembly files (\<^verbatim>\<open>entry.S\<close>): the addresses of their entry points are parameters. Caches of translations. The behaviour
  of the devices, and the processor's own acts on an interrupt or \<^verbatim>\<open>SYSRET\<close>, beyond reading the tables and registers. The requests to the boot loader:
  what it answers is the record \<open>boot_info\<close>. The global constructors, which the compiler generates, are a parameter of \<open>kmain\<close>; the hooks of the C++ run-time
  system and the base class of page tables have empty bodies. The structures of firmware tables that no code reads are not declared.
\<close>

end
